(* ===== verification/Prelude.thy ===== *)
theory Prelude
  imports Main "HOL-Library.List_Lexorder" "HOL-Library.Char_ord" "HOL-Library.Monad_Syntax"
begin

text \<open>
  Shared vocabulary of the development: Rust's three-valued \<open>std::cmp::Ordering\<close>, comparators
  that may panic (an \<open>option\<close> result whose \<open>None\<close> is the panic), the stable
  \<open>slice::sort_by\<close>, the ordered map \<open>BTreeMap\<close> as a sorted association list, and the generic
  facts on sorted lists that the component theories use.
\<close>

section \<open>Collections of facts\<close>

named_theorems option_mono \<open>facts that split a successful run of the panic monad\<close>

lemma bind_Some_iff [option_mono]:
  "(m \<bind> f = Some y) \<longleftrightarrow> (\<exists>x. m = Some x \<and> f x = Some y)"
  by (cases m) auto

lemma bind_None_iff: "(m \<bind> f = None) \<longleftrightarrow> (m = None \<or> (\<exists>x. m = Some x \<and> f x = None))"
  by (cases m) auto

text \<open>Rust's \<open>assert!\<close>: a failed assertion is the panic \<open>None\<close>.\<close>

definition assert_ok :: "bool \<Rightarrow> unit option" where
  "assert_ok b = (if b then Some () else None)"

lemma assert_ok_simps [simp]:
  "assert_ok True = Some ()" "assert_ok False = None"
  by (simp_all add: assert_ok_def)

lemma assert_ok_Some [simp]: "assert_ok b = Some u \<longleftrightarrow> b"
  by (simp add: assert_ok_def)

text \<open>Running a panicking function over a list, left to right.\<close>

fun map_opt :: "('a \<Rightarrow> 'b option) \<Rightarrow> 'a list \<Rightarrow> 'b list option" where
  "map_opt f [] = Some []"
| "map_opt f (x # xs) = do { y \<leftarrow> f x; ys \<leftarrow> map_opt f xs; Some (y # ys) }"

lemma map_opt_all_Some: "(\<And>x. x \<in> set xs \<Longrightarrow> f x = Some (g x)) \<Longrightarrow> map_opt f xs = Some (map g xs)"
  by (induction xs) auto

lemma map_opt_length: "map_opt f xs = Some ys \<Longrightarrow> length ys = length xs"
  by (induction xs arbitrary: ys) (auto simp: option_mono)

section \<open>Orderings and comparators\<close>

datatype ordering = Less | Equal | Greater

fun reverse_ordering :: "ordering \<Rightarrow> ordering" where
  "reverse_ordering Less = Greater"
| "reverse_ordering Equal = Equal"
| "reverse_ordering Greater = Less"

lemma reverse_ordering_involutive [simp]: "reverse_ordering (reverse_ordering c) = c"
  by (cases c) auto

lemma reverse_ordering_eq_iff [simp]:
  "reverse_ordering c = Less \<longleftrightarrow> c = Greater"
  "reverse_ordering c = Equal \<longleftrightarrow> c = Equal"
  "reverse_ordering c = Greater \<longleftrightarrow> c = Less"
  by (cases c; auto)+

definition cmp_linorder :: "'a::linorder \<Rightarrow> 'a \<Rightarrow> ordering" where
  "cmp_linorder x y = (if x < y then Less else if x = y then Equal else Greater)"

lemma cmp_linorder_iff [simp]:
  "cmp_linorder x y = Less \<longleftrightarrow> x < y"
  "cmp_linorder x y = Equal \<longleftrightarrow> x = y"
  "cmp_linorder x y = Greater \<longleftrightarrow> y < x"
  by (auto simp: cmp_linorder_def)

lemma cmp_linorder_swap: "cmp_linorder y x = reverse_ordering (cmp_linorder x y)"
  by (auto simp: cmp_linorder_def)

type_synonym 'a comparator = "'a \<Rightarrow> 'a \<Rightarrow> ordering option"

definition lt_by :: "'a comparator \<Rightarrow> 'a \<Rightarrow> 'a \<Rightarrow> bool" where
  "lt_by cmp a b \<longleftrightarrow> cmp a b = Some Less"

definition le_by :: "'a comparator \<Rightarrow> 'a \<Rightarrow> 'a \<Rightarrow> bool" where
  "le_by cmp a b \<longleftrightarrow> cmp a b = Some Less \<or> cmp a b = Some Equal"

text \<open>The comparator with its arguments' order turned round, as a reverse fetch uses it.\<close>

definition rev_cmp :: "'a comparator \<Rightarrow> 'a comparator" where
  "rev_cmp cmp a b = map_option reverse_ordering (cmp a b)"

section \<open>Stable sorting\<close>

text \<open>
  \<open>slice::sort_by\<close> is a stable sort. A panicking comparator makes the whole sort panic: any
  two elements of different kinds end up, in every candidate order, on the two sides of some
  adjacent pair of different kinds, so a sort cannot finish without a panicking comparison.
\<close>

fun ins_by :: "'a comparator \<Rightarrow> 'a \<Rightarrow> 'a list \<Rightarrow> 'a list" where
  "ins_by cmp x [] = [x]"
| "ins_by cmp x (y # ys) = (if cmp x y = Some Greater then y # ins_by cmp x ys else x # y # ys)"

fun isort_by :: "'a comparator \<Rightarrow> 'a list \<Rightarrow> 'a list" where
  "isort_by cmp [] = []"
| "isort_by cmp (x # xs) = ins_by cmp x (isort_by cmp xs)"

definition sort_by :: "'a comparator \<Rightarrow> 'a list \<Rightarrow> 'a list option" where
  "sort_by cmp xs =
     (if sorted_wrt (\<lambda>x y. cmp x y \<noteq> None) xs then Some (isort_by cmp xs) else None)"

lemma set_ins_by [simp]: "set (ins_by cmp x ys) = insert x (set ys)"
  by (induction ys) auto

lemma length_ins_by [simp]: "length (ins_by cmp x ys) = Suc (length ys)"
  by (induction ys) auto

lemma set_isort_by [simp]: "set (isort_by cmp xs) = set xs"
  by (induction xs) auto

lemma length_isort_by [simp]: "length (isort_by cmp xs) = length xs"
  by (induction xs) auto

lemma ins_by_neq_Nil [simp]: "ins_by cmp x ys \<noteq> []"
  by (cases ys) auto

subsection \<open>Comparators that are a total preorder on a set of elements\<close>

locale total_cmp =
  fixes cmp :: "'a comparator" and U :: "'a set"
  assumes total: "a \<in> U \<Longrightarrow> b \<in> U \<Longrightarrow> cmp a b \<noteq> None"
    and swap: "a \<in> U \<Longrightarrow> b \<in> U \<Longrightarrow> cmp b a = map_option reverse_ordering (cmp a b)"
    and le_trans: "a \<in> U \<Longrightarrow> b \<in> U \<Longrightarrow> c \<in> U \<Longrightarrow> le_by cmp a b \<Longrightarrow> le_by cmp b c \<Longrightarrow> le_by cmp a c"
begin

lemma refl [simp]: "a \<in> U \<Longrightarrow> cmp a a = Some Equal"
  using total [of a a] swap [of a a] by (cases "cmp a a"; cases "the (cmp a a)") auto

lemma le_refl [simp]: "a \<in> U \<Longrightarrow> le_by cmp a a"
  by (simp add: le_by_def)

lemma lt_irrefl [simp]: "a \<in> U \<Longrightarrow> \<not> lt_by cmp a a"
  by (simp add: lt_by_def)

lemma cases_cmp:
  assumes "a \<in> U" "b \<in> U"
  obtains "lt_by cmp a b" "cmp a b = Some Less" "cmp b a = Some Greater"
    | "cmp a b = Some Equal" "cmp b a = Some Equal"
    | "lt_by cmp b a" "cmp a b = Some Greater" "cmp b a = Some Less"
  using total [OF assms] swap [OF assms]
  by (cases "cmp a b"; cases "the (cmp a b)") (auto simp: lt_by_def)

lemma not_lt: "a \<in> U \<Longrightarrow> b \<in> U \<Longrightarrow> \<not> lt_by cmp a b \<longleftrightarrow> le_by cmp b a"
  using total [of a b] swap [of a b] by (cases "the (cmp a b)") (auto simp: lt_by_def le_by_def)

lemma not_le: "a \<in> U \<Longrightarrow> b \<in> U \<Longrightarrow> \<not> le_by cmp a b \<longleftrightarrow> lt_by cmp b a"
  using not_lt [of b a] by blast

lemma gt_iff: "a \<in> U \<Longrightarrow> b \<in> U \<Longrightarrow> cmp a b = Some Greater \<longleftrightarrow> lt_by cmp b a"
  using swap [of a b] by (auto simp: lt_by_def)

lemma lt_imp_le: "lt_by cmp a b \<Longrightarrow> le_by cmp a b"
  by (simp add: lt_by_def le_by_def)

lemma le_lt_trans: "a \<in> U \<Longrightarrow> b \<in> U \<Longrightarrow> c \<in> U \<Longrightarrow> le_by cmp a b \<Longrightarrow> lt_by cmp b c \<Longrightarrow> lt_by cmp a c"
  by (meson le_trans not_le not_lt)

lemma lt_le_trans: "a \<in> U \<Longrightarrow> b \<in> U \<Longrightarrow> c \<in> U \<Longrightarrow> lt_by cmp a b \<Longrightarrow> le_by cmp b c \<Longrightarrow> lt_by cmp a c"
  by (meson le_trans not_le not_lt)

lemma lt_trans: "a \<in> U \<Longrightarrow> b \<in> U \<Longrightarrow> c \<in> U \<Longrightarrow> lt_by cmp a b \<Longrightarrow> lt_by cmp b c \<Longrightarrow> lt_by cmp a c"
  by (meson lt_le_trans lt_imp_le)

lemma lt_asym: "a \<in> U \<Longrightarrow> b \<in> U \<Longrightarrow> lt_by cmp a b \<Longrightarrow> \<not> lt_by cmp b a"
  by (meson lt_trans lt_irrefl)

lemma lt_or_eq_or_gt: "a \<in> U \<Longrightarrow> b \<in> U \<Longrightarrow> lt_by cmp a b \<or> cmp a b = Some Equal \<or> lt_by cmp b a"
  by (rule cases_cmp [of a b]) auto

lemma sort_by_eq:
  assumes "set xs \<subseteq> U"
  shows "sort_by cmp xs = Some (isort_by cmp xs)"
proof -
  have "sorted_wrt (\<lambda>x y. cmp x y \<noteq> None) xs"
    using assms by (induction xs) (auto simp: total [unfolded not_None_eq])
  then show ?thesis by (simp add: sort_by_def)
qed

lemma sorted_ins_by:
  assumes "x \<in> U" "set ys \<subseteq> U" "sorted_wrt (le_by cmp) ys"
  shows "sorted_wrt (le_by cmp) (ins_by cmp x ys)"
  using assms
proof (induction ys)
  case (Cons y ys)
  show ?case
  proof (cases "cmp x y = Some Greater")
    case True
    then have "le_by cmp y x"
      using Cons.prems gt_iff [of x y] by (auto intro: lt_imp_le)
    with True Cons show ?thesis by auto
  next
    case False
    then have xy: "le_by cmp x y"
      using Cons.prems gt_iff [of x y] not_lt [of y x] by auto
    have "le_by cmp x z" if "z \<in> set ys" for z
      using that Cons.prems xy by (auto intro: le_trans [of x y z])
    with False xy Cons.prems show ?thesis by auto
  qed
qed simp

lemma sorted_isort_by: "set xs \<subseteq> U \<Longrightarrow> sorted_wrt (le_by cmp) (isort_by cmp xs)"
  by (induction xs) (auto intro!: sorted_ins_by)

text \<open>Lists without two elements that compare equal: a strictly sorted list is fixed by its set.\<close>

lemma strict_ins_by:
  assumes "x \<in> U" "set ys \<subseteq> U" "sorted_wrt (lt_by cmp) ys" "\<And>y. y \<in> set ys \<Longrightarrow> cmp x y \<noteq> Some Equal"
  shows "sorted_wrt (lt_by cmp) (ins_by cmp x ys)"
  using assms
proof (induction ys)
  case (Cons y ys)
  show ?case
  proof (cases "cmp x y = Some Greater")
    case True
    then have "lt_by cmp y x" using Cons.prems gt_iff [of x y] by auto
    with True Cons show ?thesis by auto
  next
    case False
    then have xy: "lt_by cmp x y"
      using Cons.prems lt_or_eq_or_gt [of x y] gt_iff [of x y] by auto
    have "lt_by cmp x z" if "z \<in> set ys" for z
      using that Cons.prems xy by (auto intro: lt_trans [of x y z])
    with False xy Cons.prems show ?thesis by auto
  qed
qed simp

lemma strict_isort_by:
  "set xs \<subseteq> U \<Longrightarrow> sorted_wrt (\<lambda>a b. cmp a b \<noteq> Some Equal) xs \<Longrightarrow> sorted_wrt (lt_by cmp) (isort_by cmp xs)"
  by (induction xs) (auto intro!: strict_ins_by)

lemma strict_sorted_unique:
  assumes "set xs \<subseteq> U" "sorted_wrt (lt_by cmp) xs" "sorted_wrt (lt_by cmp) ys" "set xs = set ys"
  shows "xs = ys"
  using assms
proof (induction xs arbitrary: ys)
  case (Cons x xs)
  then obtain y ys' where ys: "ys = y # ys'" by (cases ys) auto
  have "x = y"
  proof (rule ccontr)
    assume "x \<noteq> y"
    then have "lt_by cmp y x" "lt_by cmp x y" using Cons.prems ys by auto
    moreover have "y \<in> U" using Cons.prems ys by (metis insert_subset list.simps(15))
    ultimately show False using Cons.prems lt_asym [of x y] by auto
  qed
  moreover have "x \<notin> set xs" "y \<notin> set ys'"
    using Cons.prems ys lt_irrefl by fastforce+
  ultimately have "set xs = set ys'" using Cons.prems ys by auto
  then show ?case using Cons ys \<open>x = y\<close> by auto
qed simp

lemma strict_distinct: "set xs \<subseteq> U \<Longrightarrow> sorted_wrt (lt_by cmp) xs \<Longrightarrow> distinct xs"
  using lt_irrefl by (induction xs) auto

lemma ins_by_append_lt:
  assumes "x \<in> U" "b \<in> U" "set A \<subseteq> U" "lt_by cmp x b"
  shows "ins_by cmp x (A @ b # B) = ins_by cmp x A @ b # B"
  using assms gt_iff [of x b] lt_asym [of x b] by (induction A) auto

lemma ins_by_append_gt:
  assumes "x \<in> U" "set A \<subseteq> U" "\<And>a. a \<in> set A \<Longrightarrow> lt_by cmp a x"
  shows "ins_by cmp x (A @ B) = A @ ins_by cmp x B"
  using assms gt_iff by (induction A) auto

lemma last_ins_by:
  assumes "x \<in> U" "set A \<subseteq> U" "sorted_wrt (lt_by cmp) A"
  shows "last (ins_by cmp x A) = (if A = [] \<or> lt_by cmp (last A) x then x else last A)"
  using assms
proof (induction A)
  case (Cons a A)
  have "last A \<in> U" if "A \<noteq> []" using that Cons.prems by auto
  moreover have "lt_by cmp a (last A)" if "A \<noteq> []" using that Cons.prems by auto
  ultimately show ?case
    using Cons gt_iff [of x a] lt_trans [of a "last A" x] by auto
qed simp

text \<open>A cut of a strictly sorted list at an element.\<close>

lemma strict_split_le:
  assumes "set (A @ b # B) \<subseteq> U" "sorted_wrt (lt_by cmp) (A @ b # B)"
  shows "filter (\<lambda>r. le_by cmp r b) (A @ b # B) = A @ [b]"
    and "filter (\<lambda>r. lt_by cmp r b) (A @ b # B) = A"
    and "filter (\<lambda>r. le_by cmp b r) (A @ b # B) = b # B"
    and "filter (\<lambda>r. lt_by cmp b r) (A @ b # B) = B"
proof -
  have U: "b \<in> U" "\<And>r. r \<in> set A \<Longrightarrow> r \<in> U" "\<And>r. r \<in> set B \<Longrightarrow> r \<in> U" using assms by auto
  have A: "lt_by cmp a b \<and> le_by cmp a b \<and> \<not> lt_by cmp b a \<and> \<not> le_by cmp b a" if "a \<in> set A" for a
    using assms that U not_le [of b a] not_lt [of b a] lt_imp_le by (auto simp: sorted_wrt_append)
  have B: "lt_by cmp b c \<and> le_by cmp b c \<and> \<not> lt_by cmp c b \<and> \<not> le_by cmp c b" if "c \<in> set B" for c
    using assms that U not_le [of c b] not_lt [of c b] lt_imp_le by (auto simp: sorted_wrt_append)
  show "filter (\<lambda>r. le_by cmp r b) (A @ b # B) = A @ [b]"
    "filter (\<lambda>r. lt_by cmp r b) (A @ b # B) = A"
    "filter (\<lambda>r. le_by cmp b r) (A @ b # B) = b # B"
    "filter (\<lambda>r. lt_by cmp b r) (A @ b # B) = B"
    using A B U by (auto simp: filter_empty_conv filter_id_conv)
qed

text \<open>Elements that compare equal are interchangeable in comparisons.\<close>

lemma cmp_equal_cong:
  assumes "b \<in> U" "m \<in> U" "r \<in> U" "cmp b m = Some Equal"
  shows "cmp r b = cmp r m" and "cmp b r = cmp m r"
proof -
  have mb: "cmp m b = Some Equal" using assms swap [of b m] by simp
  have "le_by cmp r b \<longleftrightarrow> le_by cmp r m"
    using le_trans [of r b m] le_trans [of r m b] assms mb by (auto simp: le_by_def)
  moreover have "le_by cmp b r \<longleftrightarrow> le_by cmp m r"
    using le_trans [of m b r] le_trans [of b m r] assms mb by (auto simp: le_by_def)
  ultimately show "cmp r b = cmp r m" "cmp b r = cmp m r"
    using assms swap [of b r] swap [of m r]
    by (cases rule: cases_cmp [OF assms(1,3)]; cases rule: cases_cmp [OF assms(2,3)];
        auto simp: le_by_def)+
qed

text \<open>Cutting a list at a bound that lies between its two parts, or at one of its elements.\<close>

lemma cut_between:
  assumes "b \<in> U" "set P \<subseteq> U" "set Q \<subseteq> U"
    and "\<And>p. p \<in> set P \<Longrightarrow> lt_by cmp p b" "\<And>q. q \<in> set Q \<Longrightarrow> lt_by cmp b q"
  shows "filter (\<lambda>r. le_by cmp r b) (P @ Q) = P" "filter (\<lambda>r. lt_by cmp r b) (P @ Q) = P"
    "filter (\<lambda>r. le_by cmp b r) (P @ Q) = Q" "filter (\<lambda>r. lt_by cmp b r) (P @ Q) = Q"
proof -
  have P: "lt_by cmp p b \<and> le_by cmp p b \<and> \<not> lt_by cmp b p \<and> \<not> le_by cmp b p" if "p \<in> set P" for p
    using assms that not_le [of b p] not_lt [of b p] lt_imp_le by blast
  have Q: "lt_by cmp b q \<and> le_by cmp b q \<and> \<not> lt_by cmp q b \<and> \<not> le_by cmp q b" if "q \<in> set Q" for q
    using assms that not_le [of q b] not_lt [of q b] lt_imp_le by blast
  show "filter (\<lambda>r. le_by cmp r b) (P @ Q) = P" "filter (\<lambda>r. lt_by cmp r b) (P @ Q) = P"
    "filter (\<lambda>r. le_by cmp b r) (P @ Q) = Q" "filter (\<lambda>r. lt_by cmp b r) (P @ Q) = Q"
    using P Q by (auto simp: filter_empty_conv filter_id_conv)
qed

lemma cut_at:
  assumes "b \<in> U" "set (P @ m # Q) \<subseteq> U" "sorted_wrt (lt_by cmp) (P @ m # Q)" "cmp b m = Some Equal"
  shows "filter (\<lambda>r. le_by cmp r b) (P @ m # Q) = P @ [m]"
    "filter (\<lambda>r. lt_by cmp r b) (P @ m # Q) = P"
    "filter (\<lambda>r. le_by cmp b r) (P @ m # Q) = m # Q"
    "filter (\<lambda>r. lt_by cmp b r) (P @ m # Q) = Q"
proof -
  have "cmp r b = cmp r m" "cmp b r = cmp m r" if "r \<in> set (P @ m # Q)" for r
    using cmp_equal_cong [of b m r] assms that by auto
  then have "filter (\<lambda>r. le_by cmp r b) (P @ m # Q) = filter (\<lambda>r. le_by cmp r m) (P @ m # Q)"
    "filter (\<lambda>r. lt_by cmp r b) (P @ m # Q) = filter (\<lambda>r. lt_by cmp r m) (P @ m # Q)"
    "filter (\<lambda>r. le_by cmp b r) (P @ m # Q) = filter (\<lambda>r. le_by cmp m r) (P @ m # Q)"
    "filter (\<lambda>r. lt_by cmp b r) (P @ m # Q) = filter (\<lambda>r. lt_by cmp m r) (P @ m # Q)"
    by (auto simp only: le_by_def lt_by_def intro!: filter_cong)
  with strict_split_le [OF assms(2,3)] show
    "filter (\<lambda>r. le_by cmp r b) (P @ m # Q) = P @ [m]"
    "filter (\<lambda>r. lt_by cmp r b) (P @ m # Q) = P"
    "filter (\<lambda>r. le_by cmp b r) (P @ m # Q) = m # Q"
    "filter (\<lambda>r. lt_by cmp b r) (P @ m # Q) = Q"
    by simp_all
qed

end

section \<open>Key-value stores\<close>

text \<open>What a client of a map relies on: it reads back what it wrote.\<close>

locale kv_store =
  fixes ok :: "'s \<Rightarrow> bool" and get' :: "'s \<Rightarrow> 'k \<Rightarrow> 'v option" and put :: "'k \<Rightarrow> 'v \<Rightarrow> 's \<Rightarrow> 's"
    and del :: "'k \<Rightarrow> 's \<Rightarrow> 's"
  assumes ok_put: "ok s \<Longrightarrow> ok (put k v s)"
    and ok_del: "ok s \<Longrightarrow> ok (del k s)"
    and get_put: "ok s \<Longrightarrow> get' (put k v s) l = (if l = k then Some v else get' s l)"
    and get_del: "ok s \<Longrightarrow> get' (del k s) l = (if l = k then None else get' s l)"
begin

lemma put_put_same: "ok s \<Longrightarrow> get' (put k w (put k v s)) l = get' (put k w s) l"
  by (simp add: get_put ok_put)

lemma put_commute: "ok s \<Longrightarrow> k \<noteq> l \<Longrightarrow> get' (put k v (put l w s)) m = get' (put l w (put k v s)) m"
  by (simp add: get_put ok_put)

lemma del_put_same: "ok s \<Longrightarrow> get' s k = None \<Longrightarrow> get' (del k (put k v s)) l = get' s l"
  by (simp add: get_put get_del ok_put)

end

end
