(* ===== verification/Ivm_Data.thy ===== *)
theory Ivm_Data
  imports Prelude Complex_Main
begin

text \<open>
  The value and row vocabulary of the incremental view maintenance (IVM) engine:
  \<open>JsonValue\<close> (\<open>zero-cache-shared/src/bigint_json.rs\<close>), value comparison, row comparators and
  join-key equality (\<open>zero-cache-zql/src/ivm/data.rs\<close>) and column constraints
  (\<open>zero-cache-zql/src/ivm/constraint.rs\<close>). A comparison of values of different kinds panics in
  the code; here it is \<open>None\<close>. The main fact is that on rows whose sort columns are typed, the
  row comparator of every ordering is a total preorder (interpretation \<open>row_cmp\<close>).
\<close>

section \<open>Numbers\<close>

text \<open>
  The values of an IEEE 754 double: not-a-number, the two infinities and the finite values, each
  of which is a rational number. The two zeros are equal under every operation used here, so
  they are one value.
\<close>

datatype f64 = F_NaN | F_NegInf | F_Fin rat | F_PosInf

fun f64_partial_cmp :: "f64 \<Rightarrow> f64 \<Rightarrow> ordering option" where
  "f64_partial_cmp F_NaN y = None"
| "f64_partial_cmp x F_NaN = None"
| "f64_partial_cmp (F_Fin p) (F_Fin q) = Some (cmp_linorder p q)"
| "f64_partial_cmp F_NegInf F_NegInf = Some Equal"
| "f64_partial_cmp F_PosInf F_PosInf = Some Equal"
| "f64_partial_cmp F_NegInf y = Some Less"
| "f64_partial_cmp x F_NegInf = Some Greater"
| "f64_partial_cmp F_PosInf y = Some Greater"
| "f64_partial_cmp x F_PosInf = Some Less"

definition f64_eq :: "f64 \<Rightarrow> f64 \<Rightarrow> bool" where
  "f64_eq x y \<longleftrightarrow> f64_partial_cmp x y = Some Equal"

lemma f64_eq_iff: "f64_eq x y \<longleftrightarrow> x = y \<and> x \<noteq> F_NaN"
  by (cases x; cases y) (auto simp: f64_eq_def)

section \<open>JSON values\<close>

datatype json =
    JNull
  | JBool bool
  | JNumber f64
  | JBigInt int
  | JString string
  | JArray "json list"
  | JObject "(string \<times> json) list"

text \<open>The derived \<open>PartialEq\<close>: structural, but with the equality of doubles at the numbers.\<close>

fun json_eq :: "json \<Rightarrow> json \<Rightarrow> bool"
  and json_list_eq :: "json list \<Rightarrow> json list \<Rightarrow> bool"
  and json_entries_eq :: "(string \<times> json) list \<Rightarrow> (string \<times> json) list \<Rightarrow> bool" where
  "json_eq JNull JNull = True"
| "json_eq (JBool a) (JBool b) = (a = b)"
| "json_eq (JNumber x) (JNumber y) = f64_eq x y"
| "json_eq (JBigInt i) (JBigInt j) = (i = j)"
| "json_eq (JString s) (JString t) = (s = t)"
| "json_eq (JArray xs) (JArray ys) = json_list_eq xs ys"
| "json_eq (JObject xs) (JObject ys) = json_entries_eq xs ys"
| "json_eq _ _ = False"
| "json_list_eq [] [] = True"
| "json_list_eq (x # xs) (y # ys) = (json_eq x y \<and> json_list_eq xs ys)"
| "json_list_eq _ _ = False"
| "json_entries_eq [] [] = True"
| "json_entries_eq ((k, x) # xs) ((l, y) # ys) = (k = l \<and> json_eq x y \<and> json_entries_eq xs ys)"
| "json_entries_eq _ _ = False"

lemma json_eq_imp_eq: "json_eq a b \<Longrightarrow> a = b"
  and json_list_eq_imp_eq: "json_list_eq as bs \<Longrightarrow> as = bs"
  and json_entries_eq_imp_eq: "json_entries_eq xs ys \<Longrightarrow> xs = ys"
  by (induction a b and as bs and xs ys rule: json_eq_json_list_eq_json_entries_eq.induct)
    (auto simp: f64_eq_iff)

lemma json_eq_sym: "json_eq a b \<Longrightarrow> json_eq b a"
  using json_eq_imp_eq by blast

section \<open>Rows and comparators\<close>

type_synonym row = "(string \<times> json) list"

datatype direction = Asc | Desc

type_synonym sort_order = "(string \<times> direction) list"

definition get :: "row \<Rightarrow> string \<Rightarrow> json" where
  "get r field = (case find (\<lambda>(k, v). k = field) r of None \<Rightarrow> JNull | Some (k, v) \<Rightarrow> v)"

fun compare_values :: "json \<Rightarrow> json \<Rightarrow> ordering option" where
  "compare_values JNull JNull = Some Equal"
| "compare_values JNull _ = Some Less"
| "compare_values _ JNull = Some Greater"
| "compare_values (JString x) (JString y) = Some (cmp_linorder x y)"
| "compare_values (JNumber x) (JNumber y) =
     Some (case f64_partial_cmp x y of None \<Rightarrow> Equal | Some c \<Rightarrow> c)"
| "compare_values (JBool x) (JBool y) = Some (cmp_linorder x y)"
| "compare_values _ _ = None"

fun make_comparator :: "sort_order \<Rightarrow> bool \<Rightarrow> row comparator" where
  "make_comparator [] reverse a b = Some Equal"
| "make_comparator ((field, direction) # order) reverse a b =
     do {
       comp \<leftarrow> compare_values (get a field) (get b field);
       if comp \<noteq> Equal then
         (let result = (if direction = Asc then comp else reverse_ordering comp)
          in Some (if reverse then reverse_ordering result else result))
       else make_comparator order reverse a b
     }"

definition values_equal :: "json \<Rightarrow> json \<Rightarrow> bool" where
  "values_equal a b = (if a = JNull \<or> b = JNull then False else json_eq a b)"

lemma make_comparator_reverse: "make_comparator order True = rev_cmp (make_comparator order False)"
proof (intro ext)
  fix a b
  show "make_comparator order True a b = rev_cmp (make_comparator order False) a b"
    by (induction order) (auto simp: rev_cmp_def Let_def split: Option.bind_splits)
qed

subsection \<open>Typed columns\<close>

text \<open>
  What a table's rows hold in the sort columns: every sort column is present, with null or a value
  of the column's own kind, and never a not-a-number. \<open>JBigInt\<close>, arrays and objects are not comparable, so no sort column has them.
\<close>

datatype col_kind = KString | KNumber | KBool

fun has_kind :: "col_kind \<Rightarrow> json \<Rightarrow> bool" where
  "has_kind k JNull = True"
| "has_kind KString (JString s) = True"
| "has_kind KNumber (JNumber x) = (x \<noteq> F_NaN)"
| "has_kind KBool (JBool b) = True"
| "has_kind _ _ = False"

type_synonym col_types = "string \<Rightarrow> col_kind"

definition typed_values :: "col_kind \<Rightarrow> json set" where
  "typed_values k = {v. has_kind k v}"

definition row_typed :: "col_types \<Rightarrow> sort_order \<Rightarrow> row \<Rightarrow> bool" where
  "row_typed \<tau> order r = list_all (\<lambda>(f, d). f \<in> fst ` set r \<and> has_kind (\<tau> f) (get r f)) order"

definition typed_rows :: "col_types \<Rightarrow> sort_order \<Rightarrow> row set" where
  "typed_rows \<tau> order = {r. row_typed \<tau> order r}"

lemma typed_rows_mem [code_unfold]: "r \<in> typed_rows \<tau> order \<longleftrightarrow> row_typed \<tau> order r"
  by (simp add: typed_rows_def)

lemma typed_rows_Nil [simp]: "typed_rows \<tau> [] = UNIV"
  by (simp add: typed_rows_def row_typed_def)

lemma typed_rows_Cons [simp]:
  "r \<in> typed_rows \<tau> ((f, d) # order) \<longleftrightarrow>
     f \<in> fst ` set r \<and> has_kind (\<tau> f) (get r f) \<and> r \<in> typed_rows \<tau> order"
  by (simp add: typed_rows_def row_typed_def)

lemma f64_partial_cmp_total: "x \<noteq> F_NaN \<Longrightarrow> y \<noteq> F_NaN \<Longrightarrow> f64_partial_cmp x y \<noteq> None"
  by (cases x; cases y) auto

lemma f64_partial_cmp_swap:
  "f64_partial_cmp y x = map_option reverse_ordering (f64_partial_cmp x y)"
  by (cases x; cases y) (auto simp: cmp_linorder_def)

lemma f64_le_trans: "le_by f64_partial_cmp x y \<Longrightarrow> le_by f64_partial_cmp y z \<Longrightarrow> le_by f64_partial_cmp x z"
  by (cases x; cases y; cases z) (auto simp: le_by_def)

lemma compare_values_null [simp]:
  "compare_values JNull v = Some (if v = JNull then Equal else Less)"
  "compare_values v JNull = Some (if v = JNull then Equal else Greater)"
  by (cases v; simp)+

lemma compare_numbers:
  "x \<noteq> F_NaN \<Longrightarrow> y \<noteq> F_NaN \<Longrightarrow> compare_values (JNumber x) (JNumber y) = f64_partial_cmp x y"
  using f64_partial_cmp_total [of x y] by auto

lemma compare_values_swap: "compare_values b a = map_option reverse_ordering (compare_values a b)"
proof (cases "(a, b)" rule: compare_values.cases)
  case (5 x y)
  then show ?thesis
    using f64_partial_cmp_swap [of y x] by (cases "f64_partial_cmp x y") auto
qed (auto simp: cmp_linorder_def)

lemma typed_values_cases:
  assumes "v \<in> typed_values k"
  obtains (null) "v = JNull" | (str) s where "k = KString" "v = JString s"
    | (num) x where "k = KNumber" "v = JNumber x" "x \<noteq> F_NaN" | (bool) b where "k = KBool" "v = JBool b"
  using assms by (cases k; cases v) (auto simp: typed_values_def)

lemma compare_values_total: "a \<in> typed_values k \<Longrightarrow> b \<in> typed_values k \<Longrightarrow> compare_values a b \<noteq> None"
  by (elim typed_values_cases) auto

lemma le_numbers:
  "x \<noteq> F_NaN \<Longrightarrow> y \<noteq> F_NaN \<Longrightarrow>
   le_by compare_values (JNumber x) (JNumber y) = le_by f64_partial_cmp x y"
  by (simp add: le_by_def compare_numbers del: compare_values.simps)

lemma not_le_null: "le_by compare_values v JNull \<longleftrightarrow> v = JNull"
  by (simp add: le_by_def)

lemma compare_values_le_trans:
  assumes "a \<in> typed_values k" "b \<in> typed_values k" "c \<in> typed_values k"
    and ab: "le_by compare_values a b" and bc: "le_by compare_values b c"
  shows "le_by compare_values a c"
  using assms(1)
proof (cases rule: typed_values_cases)
  case null
  then show ?thesis by (auto simp: le_by_def)
next
  case (str s)
  with assms(2,3) ab bc show ?thesis by (elim typed_values_cases) (auto simp: le_by_def)
next
  case (num x)
  with assms(2,3) ab bc show ?thesis
    by (elim typed_values_cases)
      (auto simp: le_numbers not_le_null intro: f64_le_trans)
next
  case (bool x)
  with assms(2,3) ab bc show ?thesis by (elim typed_values_cases) (auto simp: le_by_def)
qed

interpretation val_cmp: total_cmp compare_values "typed_values k" for k
  by unfold_locales (rule compare_values_total compare_values_swap compare_values_le_trans; assumption)+

lemma has_kind_typed: "has_kind k v \<longleftrightarrow> v \<in> typed_values k"
  by (simp add: typed_values_def)

lemma typed_rows_get: "r \<in> typed_rows \<tau> order \<Longrightarrow> (f, d) \<in> set order \<Longrightarrow> get r f \<in> typed_values (\<tau> f)"
  by (auto simp: typed_rows_def row_typed_def list_all_iff typed_values_def)

lemma make_comparator_total:
  "a \<in> typed_rows \<tau> order \<Longrightarrow> b \<in> typed_rows \<tau> order \<Longrightarrow> make_comparator order rv a b \<noteq> None"
proof (induction order)
  case (Cons fd order)
  obtain f d where fd: "fd = (f, d)" by force
  with Cons.prems obtain c where "compare_values (get a f) (get b f) = Some c"
    using compare_values_total [of "get a f" "\<tau> f" "get b f"] by (auto simp: has_kind_typed)
  with Cons fd show ?case by (auto simp: Let_def)
qed simp

lemma make_comparator_swap:
  "make_comparator order rv b a = map_option reverse_ordering (make_comparator order rv a b)"
proof (induction order)
  case (Cons fd order)
  obtain f d where fd: "fd = (f, d)" by force
  show ?case
    using Cons compare_values_swap [of "get b f" "get a f"] fd
    by (cases "compare_values (get a f) (get b f)") (auto simp: Let_def)
qed simp

lemma make_comparator_le_Cons:
  "le_by (make_comparator ((f, d) # order) False) a b \<longleftrightarrow>
     (if d = Asc then lt_by compare_values (get a f) (get b f)
      else lt_by compare_values (get b f) (get a f)) \<or>
     compare_values (get a f) (get b f) = Some Equal \<and> le_by (make_comparator order False) a b"
  using compare_values_swap [of "get b f" "get a f"]
  by (cases "compare_values (get a f) (get b f)") (auto simp: le_by_def lt_by_def Let_def)

lemma make_comparator_le_trans:
  assumes "a \<in> typed_rows \<tau> order" "b \<in> typed_rows \<tau> order" "c \<in> typed_rows \<tau> order"
    and "le_by (make_comparator order False) a b" "le_by (make_comparator order False) b c"
  shows "le_by (make_comparator order False) a c"
  using assms
proof (induction order)
  case (Cons fd order)
  obtain f d where fd: "fd = (f, d)" by force
  let ?a = "get a f" and ?b = "get b f" and ?c = "get c f"
  have k: "?a \<in> typed_values (\<tau> f)" "?b \<in> typed_values (\<tau> f)" "?c \<in> typed_values (\<tau> f)"
    using Cons.prems fd by (auto simp: has_kind_typed)
  have le: "le_by compare_values x y" if "compare_values x y = Some Equal" for x y
    using that by (simp add: le_by_def)
  have eq: "compare_values x z = Some Equal"
    if "compare_values x y = Some Equal" "compare_values y z = Some Equal"
      "x \<in> typed_values (\<tau> f)" "y \<in> typed_values (\<tau> f)" "z \<in> typed_values (\<tau> f)" for x y z
    using that val_cmp.le_trans [of x "\<tau> f" y z] val_cmp.le_trans [of z "\<tau> f" y x]
      compare_values_swap [of x y] compare_values_swap [of y z] compare_values_swap [of x z]
    by (auto simp: le_by_def)
  have IH: "le_by (make_comparator order False) a c"
    if "le_by (make_comparator order False) a b" "le_by (make_comparator order False) b c"
    using that Cons fd by auto
  show ?case
    using Cons.prems(4,5) [unfolded fd make_comparator_le_Cons] k IH eq [of ?a ?b ?c] le [of ?a ?b] le [of ?b ?c] le [of ?b ?a] le [of ?c ?b]
      compare_values_swap [of ?a ?b] compare_values_swap [of ?b ?c]
      val_cmp.lt_trans [of ?a "\<tau> f" ?b ?c] val_cmp.lt_trans [of ?c "\<tau> f" ?b ?a]
      val_cmp.lt_le_trans [of ?a "\<tau> f" ?b ?c] val_cmp.le_lt_trans [of ?a "\<tau> f" ?b ?c]
      val_cmp.lt_le_trans [of ?c "\<tau> f" ?b ?a] val_cmp.le_lt_trans [of ?c "\<tau> f" ?b ?a]
    unfolding fd make_comparator_le_Cons
    by (cases "d = Asc") (simp_all, metis+)
qed (simp add: le_by_def)

interpretation row_cmp: total_cmp "make_comparator order False" "typed_rows \<tau> order" for order \<tau>
  by unfold_locales
    (rule make_comparator_total make_comparator_swap make_comparator_le_trans; assumption)+

section \<open>Constraints\<close>

type_synonym constraint = "(string \<times> json) list"

type_synonym primary_key = "string list"

definition get_constraint :: "constraint \<Rightarrow> string \<Rightarrow> json option" where
  "get_constraint c key = map_option snd (find (\<lambda>(k, v). k = key) c)"

definition constraint_matches_row :: "constraint \<Rightarrow> row \<Rightarrow> bool" where
  "constraint_matches_row c r = list_all (\<lambda>(key, value). values_equal (get r key) value) c"

definition constraints_are_compatible :: "constraint \<Rightarrow> constraint \<Rightarrow> bool" where
  "constraints_are_compatible left right =
     list_all (\<lambda>(key, left_value).
       case get_constraint right key of
         Some right_value \<Rightarrow> values_equal left_value right_value
       | None \<Rightarrow> True) left"

definition key_matches_primary_key :: "string list \<Rightarrow> primary_key \<Rightarrow> bool" where
  "key_matches_primary_key key primary =
     (if length key \<noteq> length primary then False else sort key = sort primary)"

definition constraint_matches_primary_key :: "constraint \<Rightarrow> primary_key \<Rightarrow> bool" where
  "constraint_matches_primary_key c primary = key_matches_primary_key (map fst c) primary"

text \<open>A row that satisfies two constraints cannot satisfy incompatible ones.\<close>

lemma values_equal_trans: "values_equal a b \<Longrightarrow> values_equal a c \<Longrightarrow> values_equal b c"
  using json_eq_imp_eq by (auto simp: values_equal_def split: if_splits)

lemma constraint_null_never_matches: "(k, JNull) \<in> set c \<Longrightarrow> \<not> constraint_matches_row c r"
  by (auto simp: constraint_matches_row_def values_equal_def list_all_iff)

lemma find_SomeD: "find P xs = Some x \<Longrightarrow> x \<in> set xs \<and> P x"
  by (induction xs) (auto split: if_splits)

lemma compatible_of_common_row:
  "constraint_matches_row l r \<Longrightarrow> constraint_matches_row m r \<Longrightarrow> constraints_are_compatible l m"
  by (force simp: constraint_matches_row_def constraints_are_compatible_def list_all_iff
      get_constraint_def split: option.splits dest: find_SomeD intro: values_equal_trans)

end
