(* ===== verification/Ivm_Operator.thy ===== *)
theory Ivm_Operator
  imports Ivm_Data
begin

text \<open>
  The operator vocabulary of the IVM engine (\<open>zero-cache-zql/src/ivm/operator.rs\<close>,
  \<open>ivm/change.rs\<close>, \<open>ivm/memory_storage.rs\<close>): nodes, changes, fetch requests, schemas and the
  per-operator storage. On top of it stands the contract that every operator is verified against:
  a consumer that applies the changes an operator emits to the rows it fetched before holds
  exactly the rows a fresh fetch returns (locale \<open>ivm_operator\<close>). Operators that satisfy the
  contract compose (locale \<open>ivm_pair\<close>).
\<close>

section \<open>Nodes, changes and schemas\<close>

datatype node = Node (node_row: row) (relationships: "(string \<times> node list) list")

definition node_new :: "row \<Rightarrow> node" where
  "node_new r = Node r []"

datatype change =
    Add node
  | Remove node
  | Child node child_data
  | Edit node node
  and child_data = ChildData (relationship_name: string) (child_change: change)

definition make_child_change :: "node \<Rightarrow> string \<Rightarrow> change \<Rightarrow> change" where
  "make_child_change node name change = Child node (ChildData name change)"

datatype source_change = SAdd row | SRemove row | SEdit row row

datatype change_type = TAdd | TRemove | TEdit

fun change_type_of :: "source_change \<Rightarrow> change_type" where
  "change_type_of (SAdd _) = TAdd"
| "change_type_of (SRemove _) = TRemove"
| "change_type_of (SEdit _ _) = TEdit"

datatype source_schema = SourceSchema
  (table_name: string) (schema_primary_key: primary_key) (schema_sort: sort_order)
  (schema_relationships: "(string \<times> source_schema) list")

definition compare_rows :: "source_schema \<Rightarrow> row comparator" where
  "compare_rows schema = make_comparator (schema_sort schema) False"

section \<open>Fetch requests\<close>

datatype start_basis = At | After

record start =
  start_row :: row
  basis :: start_basis

type_synonym multi_constraint = "constraint list"

record fetch_request =
  req_constraint :: "constraint option"
  multi_constraints :: "multi_constraint list"
  req_start :: "start option"
  req_reverse :: bool

definition default_request :: fetch_request where
  "default_request = \<lparr>req_constraint = None, multi_constraints = [], req_start = None, req_reverse = False\<rparr>"

type_synonym input = "fetch_request \<Rightarrow> node list option"

text \<open>
  The contract of \<open>Input::fetch\<close>: the rows of the input that satisfy the constraints, from the
  start position on, in the order of the schema (or its reverse). A start row positions by the
  longest prefix of the sort order whose columns it names; one that names no leading sort column
  positions nothing. \<open>rel\<close> gives the relationships the input attaches to its rows.
\<close>

definition req_matches :: "fetch_request \<Rightarrow> row \<Rightarrow> bool" where
  "req_matches req r \<longleftrightarrow>
     (case req_constraint req of None \<Rightarrow> True | Some c \<Rightarrow> constraint_matches_row c r) \<and>
     list_all (\<lambda>batch. batch \<noteq> [] \<and> list_ex (\<lambda>c. constraint_matches_row c r) batch)
       (multi_constraints req)"

definition seek_order :: "sort_order \<Rightarrow> row \<Rightarrow> sort_order" where
  "seek_order order r = takeWhile (\<lambda>(f, d). f \<in> fst ` set r) order"

definition in_start :: "sort_order \<Rightarrow> bool \<Rightarrow> start option \<Rightarrow> row \<Rightarrow> bool" where
  "in_start order reverse st r =
     (case st of
        None \<Rightarrow> True
      | Some s \<Rightarrow>
          (let prefix = seek_order order (start_row s); cmp = make_comparator prefix reverse in
           prefix = [] \<or>
           (case basis s of
              At \<Rightarrow> le_by cmp (start_row s) r
            | After \<Rightarrow> lt_by cmp (start_row s) r)))"

definition fetch_rows :: "sort_order \<Rightarrow> row list \<Rightarrow> fetch_request \<Rightarrow> row list" where
  "fetch_rows order L req =
     filter (\<lambda>r. req_matches req r \<and> in_start order (req_reverse req) (req_start req) r)
       (if req_reverse req then rev L else L)"

definition input_of :: "sort_order \<Rightarrow> (row \<Rightarrow> (string \<times> node list) list) \<Rightarrow> row list \<Rightarrow> input" where
  "input_of order rel L req = Some (map (\<lambda>r. Node r (rel r)) (fetch_rows order L req))"

section \<open>Operator storage\<close>

text \<open>\<open>MemoryStorage\<close> keeps its data in a \<open>BTreeMap\<close>: an association list sorted by key.\<close>

type_synonym storage = "(string \<times> json) list"

fun storage_set :: "string \<Rightarrow> json \<Rightarrow> storage \<Rightarrow> storage" where
  "storage_set key value [] = [(key, value)]"
| "storage_set key value ((k, v) # rest) =
     (if key < k then (key, value) # (k, v) # rest
      else if key = k then (k, value) # rest
      else (k, v) # storage_set key value rest)"

definition storage_get :: "storage \<Rightarrow> string \<Rightarrow> json option \<Rightarrow> json option" where
  "storage_get data key dflt = (case map_of data key of Some v \<Rightarrow> Some v | None \<Rightarrow> dflt)"

fun storage_del :: "string \<Rightarrow> storage \<Rightarrow> storage" where
  "storage_del key [] = []"
| "storage_del key ((k, v) # rest) = (if key = k then rest else (k, v) # storage_del key rest)"

definition starts_with :: "string \<Rightarrow> string \<Rightarrow> bool" where
  "starts_with prefix s = (take (length prefix) s = prefix)"

definition storage_scan :: "storage \<Rightarrow> string option \<Rightarrow> (string \<times> json) list" where
  "storage_scan data prefix =
     (let p = (case prefix of None \<Rightarrow> '''' | Some s \<Rightarrow> s)
      in takeWhile (\<lambda>(k, v). starts_with p k) (dropWhile (\<lambda>(k, v). k < p) data))"

definition storage_ok :: "storage \<Rightarrow> bool" where
  "storage_ok data = sorted_wrt (<) (map fst data)"

section \<open>The view a consumer maintains\<close>

text \<open>
  A view is the list of a query's rows in the order of the schema, strictly sorted: no two rows
  compare equal, because every ordering ends in the primary key. A change is legal for a view when
  it adds a row that is absent, removes or edits one that is present, and leaves a view.
\<close>

definition view_ok :: "col_types \<Rightarrow> sort_order \<Rightarrow> row list \<Rightarrow> bool" where
  "view_ok \<tau> order V \<longleftrightarrow>
     list_all (row_typed \<tau> order) V \<and> sorted_wrt (lt_by (make_comparator order False)) V"

fun change_view :: "sort_order \<Rightarrow> change \<Rightarrow> row list \<Rightarrow> row list option" where
  "change_view order (Add n) V =
     (if node_row n \<in> set V then None else Some (ins_by (make_comparator order False) (node_row n) V))"
| "change_view order (Remove n) V =
     (if node_row n \<in> set V then Some (remove1 (node_row n) V) else None)"
| "change_view order (Child n c) V = (if node_row n \<in> set V then Some V else None)"
| "change_view order (Edit n old) V =
     (if node_row old \<in> set V
      then Some (ins_by (make_comparator order False) (node_row n) (remove1 (node_row old) V))
      else None)"

definition apply_change :: "col_types \<Rightarrow> sort_order \<Rightarrow> change \<Rightarrow> row list \<Rightarrow> row list option" where
  "apply_change \<tau> order c V =
     do { V' \<leftarrow> change_view order c V; if view_ok \<tau> order V' then Some V' else None }"

fun apply_changes :: "col_types \<Rightarrow> sort_order \<Rightarrow> change list \<Rightarrow> row list \<Rightarrow> row list option" where
  "apply_changes \<tau> order [] V = Some V"
| "apply_changes \<tau> order (c # cs) V = do { V' \<leftarrow> apply_change \<tau> order c V; apply_changes \<tau> order cs V' }"

text \<open>
  Pushing a sequence of changes through an operator. \<open>push s V c\<close> is the operator's push of \<open>c\<close>
  in state \<open>s\<close>, its input showing the view that \<open>c\<close> makes of \<open>V\<close>; it returns the new state and
  the changes emitted, in order, or \<open>None\<close> for a panic.
\<close>

type_synonym 's op_push = "'s \<Rightarrow> row list \<Rightarrow> change \<Rightarrow> ('s \<times> change list) option"

fun push_all :: "col_types \<Rightarrow> sort_order \<Rightarrow> 's op_push \<Rightarrow> 's \<Rightarrow> row list \<Rightarrow> change list
    \<Rightarrow> ('s \<times> change list) option" where
  "push_all \<tau> order push s V [] = Some (s, [])"
| "push_all \<tau> order push s V (c # cs) =
     do {
       (s', ds) \<leftarrow> push s V c;
       V' \<leftarrow> apply_change \<tau> order c V;
       (s'', es) \<leftarrow> push_all \<tau> order push s' V' cs;
       Some (s'', ds @ es)
     }"

text \<open>An operator wired to the output of another: it is pushed each change the first one emits.\<close>

definition pair_push :: "col_types \<Rightarrow> sort_order \<Rightarrow> ('s \<Rightarrow> row list \<Rightarrow> row list) \<Rightarrow> 's op_push \<Rightarrow> 't op_push
    \<Rightarrow> ('s \<times> 't) op_push" where
  "pair_push \<tau> order out1 push1 push2 st L c =
     (case st of (s, t) \<Rightarrow>
        do {
          (s', cs) \<leftarrow> push1 s L c;
          (t', ds) \<leftarrow> push_all \<tau> order push2 t (out1 s L) cs;
          Some ((s', t'), ds)
        })"

section \<open>Laws of the storage\<close>

lemma set_keys_storage_set: "fst ` set (storage_set k v data) = insert k (fst ` set data)"
  by (induction k v data rule: storage_set.induct) auto

lemma storage_ok_set: "storage_ok data \<Longrightarrow> storage_ok (storage_set k v data)"
proof (induction k v data rule: storage_set.induct)
  case (2 key v0 k v rest)
  then show ?case
    using set_keys_storage_set [of key v0 rest]
    by (auto simp: storage_ok_def)
qed (simp add: storage_ok_def)

lemma set_storage_del: "set (storage_del k data) \<subseteq> set data"
  by (induction k data rule: storage_del.induct) auto

lemma storage_ok_del: "storage_ok data \<Longrightarrow> storage_ok (storage_del k data)"
  by (induction k data rule: storage_del.induct)
    (auto simp: storage_ok_def dest!: subsetD [OF set_storage_del])

lemma map_of_storage_set: "map_of (storage_set k v data) = (map_of data)(k \<mapsto> v)"
  by (induction k v data rule: storage_set.induct) auto

lemma map_of_storage_del: "storage_ok data \<Longrightarrow> map_of (storage_del k data) = (map_of data)(k := None)"
proof (induction k data rule: storage_del.induct)
  case (2 key k v rest)
  have "map_of rest key = None" if "key = k"
    using 2(2) that by (auto simp: storage_ok_def map_of_eq_None_iff)
  with 2 show ?case by (auto simp: storage_ok_def)
qed auto

interpretation mem: kv_store storage_ok "\<lambda>d k. storage_get d k None" storage_set storage_del
  by unfold_locales
    (auto simp: storage_ok_set storage_ok_del storage_get_def map_of_storage_set map_of_storage_del
      split: option.splits)

text \<open>A prefix scan: the keys with the prefix are the first ones that are not below it.\<close>

lemma starts_with_append: "starts_with p s \<longleftrightarrow> (\<exists>t. s = p @ t)"
  unfolding starts_with_def by (metis append_eq_conv_conj append_take_drop_id)

lemma starts_with_le: "starts_with p s \<Longrightarrow> p \<le> s"
proof (induction p arbitrary: s)
  case (Cons a p)
  then obtain s' where "s = a # s'" "starts_with p s'" by (auto simp: starts_with_append)
  then show ?case using Cons.IH [of s'] by simp
qed simp

lemma starts_with_between:
  "p \<le> s \<Longrightarrow> s \<le> t \<Longrightarrow> starts_with p t \<Longrightarrow> starts_with p s"
proof (induction p arbitrary: s t)
  case (Cons a p)
  then obtain b s' where s: "s = b # s'" by (cases s) auto
  from Cons obtain t' where t: "t = a # t'" "starts_with p t'"
    by (auto simp: starts_with_append)
  show ?case
    using Cons.prems Cons.IH [of s' t'] s t by (auto simp: starts_with_def)
qed (simp add: starts_with_def)

lemma takeWhile_eq_filter_if:
  "sorted_wrt (\<lambda>x y. P y \<longrightarrow> P x) xs \<Longrightarrow> takeWhile P xs = filter P xs"
  by (induction xs) (auto simp: filter_empty_conv)

lemma dropWhile_eq_filter_if:
  "sorted_wrt (\<lambda>x y. P y \<longrightarrow> P x) xs \<Longrightarrow> dropWhile P xs = filter (\<lambda>x. \<not> P x) xs"
  by (induction xs) (auto simp: filter_id_conv)

lemma storage_scan_spec:
  assumes "storage_ok data"
  shows "storage_scan data prefix =
    filter (\<lambda>(k, v). starts_with (case prefix of None \<Rightarrow> '''' | Some p \<Rightarrow> p) k) data"
proof -
  define p where "p = (case prefix of None \<Rightarrow> '''' | Some p \<Rightarrow> p)"
  have srt: "sorted_wrt (\<lambda>x y. fst x < fst y) data"
    using assms by (simp add: storage_ok_def sorted_wrt_map)
  let ?D = "filter (\<lambda>(k, v). \<not> k < p) data"
  have "sorted_wrt (\<lambda>x y. (case y of (k, v) \<Rightarrow> k < p) \<longrightarrow> (case x of (k, v) \<Rightarrow> k < p)) data"
    by (rule sorted_wrt_mono_rel [OF _ srt]) auto
  then have "dropWhile (\<lambda>(k, v). k < p) data = ?D"
    by (subst dropWhile_eq_filter_if) (auto intro!: filter_cong)
  moreover have "takeWhile (\<lambda>(k, v). starts_with p k) ?D = filter (\<lambda>(k, v). starts_with p k) ?D"
  proof (rule takeWhile_eq_filter_if, rule sorted_wrt_mono_rel)
    show "sorted_wrt (\<lambda>x y. fst x < fst y) ?D" by (rule sorted_wrt_filter [OF srt])
    show "(case y of (k, v) \<Rightarrow> starts_with p k) \<longrightarrow> (case x of (k, v) \<Rightarrow> starts_with p k)"
      if "x \<in> set ?D" "y \<in> set ?D" "fst x < fst y" for x y
      using that starts_with_between [of p "fst x" "fst y"] by auto
  qed
  moreover have "filter (\<lambda>(k, v). starts_with p k) ?D = filter (\<lambda>(k, v). starts_with p k) data"
    using starts_with_le by (auto simp: not_less intro!: filter_cong)
  ultimately show ?thesis by (simp add: storage_scan_def p_def)
qed

section \<open>Laws of views\<close>

lemma view_ok_iff:
  "view_ok \<tau> order V \<longleftrightarrow>
     set V \<subseteq> typed_rows \<tau> order \<and> sorted_wrt (lt_by (make_comparator order False)) V"
  by (auto simp: view_ok_def list_all_iff typed_rows_def)

lemma view_ok_Nil [simp]: "view_ok \<tau> order []"
  by (simp add: view_ok_def)

lemma view_ok_filter: "view_ok \<tau> order V \<Longrightarrow> view_ok \<tau> order (filter P V)"
  by (auto simp: view_ok_iff sorted_wrt_filter)

lemma view_ok_take: "view_ok \<tau> order V \<Longrightarrow> view_ok \<tau> order (take n V)"
  using set_take_subset [of n V] by (auto simp: view_ok_iff sorted_wrt_take)

lemma view_ok_distinct: "view_ok \<tau> order V \<Longrightarrow> distinct V"
  by (auto simp: view_ok_iff intro: row_cmp.strict_distinct)

lemma view_ok_unique: "view_ok \<tau> order V \<Longrightarrow> view_ok \<tau> order W \<Longrightarrow> set V = set W \<Longrightarrow> V = W"
  using row_cmp.strict_sorted_unique [of V \<tau> order W] by (auto simp: view_ok_iff)

lemma sorted_wrt_cmp_cases:
  "sorted_wrt R V \<Longrightarrow> a \<in> set V \<Longrightarrow> b \<in> set V \<Longrightarrow> a = b \<or> R a b \<or> R b a"
  by (induction V) auto

lemma view_ok_equal_eq:
  assumes "view_ok \<tau> order V" "a \<in> set V" "b \<in> set V" "make_comparator order False a b = Some Equal"
  shows "a = b"
  using assms sorted_wrt_cmp_cases [of "lt_by (make_comparator order False)" V a b]
    row_cmp.swap [of a \<tau> order b] subsetD [of "set V" "typed_rows \<tau> order"]
  by (auto simp: view_ok_iff lt_by_def)

lemma view_ok_ins:
  assumes V: "view_ok \<tau> order V" and W: "view_ok \<tau> order W"
    and s: "set W = insert r (set V)" and r: "r \<notin> set V"
  shows "ins_by (make_comparator order False) r V = W"
proof (rule view_ok_unique [OF _ W])
  have "make_comparator order False r y \<noteq> Some Equal" if "y \<in> set V" for y
    using view_ok_equal_eq [OF W, of r y] s r that by auto
  moreover have "r \<in> typed_rows \<tau> order" using W s by (auto simp: view_ok_iff)
  ultimately show "view_ok \<tau> order (ins_by (make_comparator order False) r V)"
    using V by (auto simp: view_ok_iff intro!: row_cmp.strict_ins_by)
qed (simp add: s)

lemma distinct_ins_by: "distinct (ins_by cmp x ys) \<longleftrightarrow> x \<notin> set ys \<and> distinct ys"
  by (induction ys) auto

lemma view_ok_remove1: "view_ok \<tau> order V \<Longrightarrow> view_ok \<tau> order (remove1 r V)"
  using view_ok_filter [of \<tau> order V "\<lambda>x. r \<noteq> x"] view_ok_distinct [of \<tau> order V]
  by (simp add: distinct_remove1_removeAll removeAll_filter_not_eq)

text \<open>A change on the level of sets: what is legal and what it results in.\<close>

fun change_set :: "change \<Rightarrow> row set \<Rightarrow> row set option" where
  "change_set (Add n) S = (if node_row n \<in> S then None else Some (insert (node_row n) S))"
| "change_set (Remove n) S = (if node_row n \<in> S then Some (S - {node_row n}) else None)"
| "change_set (Child n c) S = (if node_row n \<in> S then Some S else None)"
| "change_set (Edit n old) S =
     (if node_row old \<in> S \<and> (node_row n = node_row old \<or> node_row n \<notin> S)
      then Some (insert (node_row n) (S - {node_row old})) else None)"

lemma apply_change_ok: "apply_change \<tau> order c V = Some V' \<Longrightarrow> view_ok \<tau> order V'"
  by (auto simp: apply_change_def option_mono split: if_splits)

lemma apply_change_set:
  assumes "view_ok \<tau> order V" "apply_change \<tau> order c V = Some V'"
  shows "change_set c (set V) = Some (set V')"
proof -
  have "distinct V" "distinct V'"
    using assms view_ok_distinct apply_change_ok by blast+
  with assms(2) show ?thesis
    by (cases c) (auto simp: apply_change_def option_mono distinct_ins_by split: if_splits)
qed

lemma apply_change_intro:
  assumes V: "view_ok \<tau> order V" and V': "view_ok \<tau> order V'"
    and c: "change_set c (set V) = Some (set V')"
  shows "apply_change \<tau> order c V = Some V'"
proof -
  have d: "distinct V" using V by (rule view_ok_distinct)
  have "change_view order c V = Some V'"
  proof (cases c)
    case (Add n)
    with c view_ok_ins [OF V V', of "node_row n"] show ?thesis by (simp split: if_splits)
  next
    case (Remove n)
    with c d view_ok_unique [OF view_ok_remove1 [OF V] V', of "node_row n"] show ?thesis
      by (simp split: if_splits)
  next
    case (Child n x)
    with c view_ok_unique [OF V V'] show ?thesis by (simp split: if_splits)
  next
    case (Edit n old)
    with c d view_ok_ins [OF view_ok_remove1 [OF V] V', of "node_row n" "node_row old"]
    show ?thesis by (auto split: if_splits)
  qed
  with V' show ?thesis by (simp add: apply_change_def)
qed

lemma apply_change_iff:
  "view_ok \<tau> order V \<Longrightarrow>
   apply_change \<tau> order c V = Some V' \<longleftrightarrow> view_ok \<tau> order V' \<and> change_set c (set V) = Some (set V')"
  using apply_change_ok apply_change_set apply_change_intro by blast

lemma apply_changes_append:
  "apply_changes \<tau> order (cs @ ds) V = apply_changes \<tau> order cs V \<bind> apply_changes \<tau> order ds"
  by (induction cs arbitrary: V) (auto split: Option.bind_splits)

lemma apply_changes_ok:
  "apply_changes \<tau> order cs V = Some V' \<Longrightarrow> view_ok \<tau> order V \<Longrightarrow> view_ok \<tau> order V'"
  by (induction cs arbitrary: V) (auto simp: option_mono dest: apply_change_ok)

section \<open>Fetching from a start row\<close>

lemma seek_order_typed: "r \<in> typed_rows \<tau> order \<Longrightarrow> seek_order order r = order"
  by (auto simp: seek_order_def typed_rows_def row_typed_def list_all_iff takeWhile_eq_all_conv)

lemma rev_cmp_iff:
  assumes "s \<in> typed_rows \<tau> order" "r \<in> typed_rows \<tau> order"
  shows "le_by (make_comparator order True) s r \<longleftrightarrow> le_by (make_comparator order False) r s"
    and "lt_by (make_comparator order True) s r \<longleftrightarrow> lt_by (make_comparator order False) r s"
  using row_cmp.swap [OF assms]
  by (auto simp: make_comparator_reverse rev_cmp_def le_by_def lt_by_def)

lemma in_start_typed:
  assumes "order \<noteq> []" "start_row st \<in> typed_rows \<tau> order" "r \<in> typed_rows \<tau> order"
  shows "in_start order rv (Some st) r \<longleftrightarrow>
    (if rv
     then (if basis st = At then le_by (make_comparator order False) r (start_row st)
           else lt_by (make_comparator order False) r (start_row st))
     else (if basis st = At then le_by (make_comparator order False) (start_row st) r
           else lt_by (make_comparator order False) (start_row st) r))"
  using assms rev_cmp_iff [OF assms(2,3)]
  by (cases "basis st") (auto simp: in_start_def seek_order_typed Let_def)

section \<open>The operator contract\<close>

text \<open>
  \<open>out s L\<close> is the view the operator shows over an input view \<open>L\<close>. The contract: every legal
  change of the input is pushed without a panic, keeps the operator's invariant, and the changes
  emitted, each legal where it is emitted, turn the old output view into the new one.
\<close>

locale ivm_operator =
  fixes \<tau> :: col_types and order :: sort_order
    and inv :: "'s \<Rightarrow> row list \<Rightarrow> bool"
    and out :: "'s \<Rightarrow> row list \<Rightarrow> row list"
    and push :: "'s op_push"
  assumes out_ok: "view_ok \<tau> order L \<Longrightarrow> inv s L \<Longrightarrow> view_ok \<tau> order (out s L)"
    and push_ok: "view_ok \<tau> order L \<Longrightarrow> inv s L \<Longrightarrow> apply_change \<tau> order c L = Some L' \<Longrightarrow>
      \<exists>s' cs. push s L c = Some (s', cs) \<and> inv s' L' \<and>
        apply_changes \<tau> order cs (out s L) = Some (out s' L')"
begin

lemma push_all_ok:
  "view_ok \<tau> order L \<Longrightarrow> inv s L \<Longrightarrow> apply_changes \<tau> order cs L = Some L' \<Longrightarrow>
   \<exists>s' ds. push_all \<tau> order push s L cs = Some (s', ds) \<and> inv s' L' \<and>
     apply_changes \<tau> order ds (out s L) = Some (out s' L')"
proof (induction cs arbitrary: s L)
  case (Cons c cs)
  then obtain M where M: "apply_change \<tau> order c L = Some M" "apply_changes \<tau> order cs M = Some L'"
    by (auto simp: option_mono)
  obtain s1 ds where s1: "push s L c = Some (s1, ds)" "inv s1 M"
    "apply_changes \<tau> order ds (out s L) = Some (out s1 M)"
    using push_ok [OF Cons.prems(1,2) M(1)] by blast
  obtain s2 es where "push_all \<tau> order push s1 M cs = Some (s2, es)" "inv s2 L'"
    "apply_changes \<tau> order es (out s1 M) = Some (out s2 L')"
    using Cons.IH [OF apply_change_ok [OF M(1)] s1(2) M(2)] by blast
  with M s1 show ?case by (auto simp: apply_changes_append)
qed simp

text \<open>A push of a legal change never panics and its emissions are a legal sequence.\<close>

lemma push_no_panic:
  "view_ok \<tau> order L \<Longrightarrow> inv s L \<Longrightarrow> apply_change \<tau> order c L \<noteq> None \<Longrightarrow> push s L c \<noteq> None"
  using push_ok by fastforce

end

locale ivm_pair = a: ivm_operator \<tau> order inv1 out1 push1 + b: ivm_operator \<tau> order inv2 out2 push2
  for \<tau> order and inv1 :: "'s \<Rightarrow> row list \<Rightarrow> bool" and out1 push1
    and inv2 :: "'t \<Rightarrow> row list \<Rightarrow> bool" and out2 push2
begin

lemma pair_push_ok:
  assumes L: "view_ok \<tau> order L" and inv: "inv1 s L" "inv2 t (out1 s L)"
    and c: "apply_change \<tau> order c L = Some L'"
  shows "\<exists>s' t' ds. pair_push \<tau> order out1 push1 push2 (s, t) L c = Some ((s', t'), ds) \<and>
    inv1 s' L' \<and> inv2 t' (out1 s' L') \<and>
    apply_changes \<tau> order ds (out2 t (out1 s L)) = Some (out2 t' (out1 s' L'))"
proof -
  obtain s' cs where s': "push1 s L c = Some (s', cs)" "inv1 s' L'"
    "apply_changes \<tau> order cs (out1 s L) = Some (out1 s' L')"
    using a.push_ok [OF L inv(1) c] by blast
  obtain t' ds where "push_all \<tau> order push2 t (out1 s L) cs = Some (t', ds)"
    "inv2 t' (out1 s' L')" "apply_changes \<tau> order ds (out2 t (out1 s L)) = Some (out2 t' (out1 s' L'))"
    using b.push_all_ok [OF a.out_ok [OF L inv(1)] inv(2) s'(3)] by blast
  with s' show ?thesis by (auto simp: pair_push_def)
qed

end

sublocale ivm_pair \<subseteq> pipe: ivm_operator \<tau> order
  "\<lambda>st L. inv1 (fst st) L \<and> inv2 (snd st) (out1 (fst st) L)"
  "\<lambda>st L. out2 (snd st) (out1 (fst st) L)"
  "pair_push \<tau> order out1 push1 push2"
proof (unfold_locales, goal_cases)
  case (1 L s)
  then show ?case by (blast intro: b.out_ok a.out_ok)
next
  case (2 L s c L')
  then show ?case using pair_push_ok [of L "fst s" "snd s" c L'] by fastforce
qed

section \<open>Sample tables\<close>

text \<open>The table the witnesses of the operator theories run on: two numeric columns, sorted by both.\<close>

definition sample_row :: "rat \<Rightarrow> rat \<Rightarrow> row" where
  "sample_row a i = [(''a'', JNumber (F_Fin a)), (''id'', JNumber (F_Fin i))]"

definition sample_order :: sort_order where
  "sample_order = [(''a'', Asc), (''id'', Asc)]"

definition sample_types :: col_types where
  "sample_types f = KNumber"

definition sample_table :: "row list" where
  "sample_table = [sample_row 1 1, sample_row 1 2, sample_row 1 3, sample_row 2 4]"

end
