(* ===== verification/Radix.thy ===== *)
theory Radix
  imports Prelude Complex_Main
begin

text \<open>
  Positional number text: the digits of a number in a radix, their value, and the facts that the
  order of equally long digit strings is the order of the numbers. The big-integer crate is not
  part of the repository: its two operations the code calls, \<open>to_str_radix\<close> and \<open>parse_bytes\<close>,
  and Rust's rendering of a double are fields of the parameter \<open>text_lib\<close>, and \<open>text_lib_ok\<close>
  states what they document. The locale \<open>text_codec\<close> holds what follows from it.
\<close>

section \<open>Digits\<close>

function radix_digits :: "nat \<Rightarrow> nat \<Rightarrow> nat list" where
  "radix_digits r n = (if n < r \<or> r < 2 then [n] else radix_digits r (n div r) @ [n mod r])"
  by pat_completeness auto
termination by (relation "measure snd") auto

declare radix_digits.simps [simp del]

definition digits_value :: "nat \<Rightarrow> nat list \<Rightarrow> nat" where
  "digits_value r ds = foldl (\<lambda>a d. a * r + d) 0 ds"

lemma digits_value_Nil [simp]: "digits_value r [] = 0"
  by (simp add: digits_value_def)

lemma digits_value_snoc [simp]: "digits_value r (ds @ [d]) = digits_value r ds * r + d"
  by (simp add: digits_value_def)

lemma digits_value_Cons: "digits_value r (d # ds) = d * r ^ length ds + digits_value r ds"
proof (induction ds rule: rev_induct)
  case (snoc x xs)
  have "digits_value r (d # xs @ [x]) = digits_value r (d # xs) * r + x"
    using digits_value_snoc [of r "d # xs" x] by simp
  with snoc show ?case by (simp add: algebra_simps)
qed (simp add: digits_value_def)

lemma digits_value_radix [simp]: "digits_value r (radix_digits r n) = n"
proof (induction r n rule: radix_digits.induct)
  case (1 r n)
  then show ?case by (subst radix_digits.simps) (auto simp: digits_value_Cons)
qed

lemma radix_digits_less: "2 \<le> r \<Longrightarrow> d \<in> set (radix_digits r n) \<Longrightarrow> d < r"
proof (induction r n rule: radix_digits.induct)
  case (1 r n)
  then show ?case by (auto simp: radix_digits.simps [of r n] split: if_splits)
qed

lemma radix_digits_nonempty [simp]: "radix_digits r n \<noteq> []"
  by (subst radix_digits.simps) simp

lemma digits_value_bound: "\<forall>d\<in>set ds. d < r \<Longrightarrow> digits_value r ds < r ^ length ds"
proof (induction ds)
  case (Cons d ds)
  then have "digits_value r ds < r ^ length ds" "Suc d \<le> r" by auto
  then have "d * r ^ length ds + digits_value r ds < Suc d * r ^ length ds" by simp
  also have "\<dots> \<le> r * r ^ length ds" using \<open>Suc d \<le> r\<close> by (rule mult_le_mono1)
  finally show ?case by (simp add: digits_value_Cons)
qed simp

lemma digits_less_iff:
  "length xs = length ys \<Longrightarrow> \<forall>d\<in>set xs. d < r \<Longrightarrow> \<forall>d\<in>set ys. d < r \<Longrightarrow>
   xs < ys \<longleftrightarrow> digits_value r xs < digits_value r ys"
proof (induction xs ys rule: list_induct2)
  case (Cons x xs y ys)
  let ?R = "r ^ length xs" and ?u = "digits_value r xs" and ?v = "digits_value r ys"
  have b: "?u < ?R" using Cons.prems by (intro digits_value_bound) simp
  have b': "?v < ?R" unfolding Cons.hyps(1) using Cons.prems by (intro digits_value_bound) simp
  have step: "a * ?R + w < c * ?R + z" if "a < c" "w < ?R" for a c w z
  proof -
    have "a * ?R + w < Suc a * ?R" using that by simp
    also have "\<dots> \<le> c * ?R" using that by (intro mult_le_mono1) simp
    finally show ?thesis by simp
  qed
  show ?case
    using Cons step [OF _ b, of x y ?v] step [OF _ b', of y x ?u]
    by (cases x y rule: linorder_cases) (auto simp: digits_value_Cons)
qed simp

lemma length_radix_digits: "2 \<le> r \<Longrightarrow> length (radix_digits r n) \<le> Suc k \<longleftrightarrow> n < r ^ Suc k"
proof (induction k arbitrary: n)
  case 0
  show ?case using 0 by (subst radix_digits.simps) (auto simp: Suc_le_eq)
next
  case (Suc k)
  have "n < r ^ Suc (Suc k)" if "n < r"
  proof -
    have "r ^ 1 \<le> r ^ Suc (Suc k)" using Suc.prems by (intro power_increasing) auto
    then show ?thesis using that by (simp only: power_one_right)
  qed
  moreover have "n div r < r ^ Suc k \<longleftrightarrow> n < r ^ Suc (Suc k)"
    using Suc.prems by (simp add: div_less_iff_less_mult mult.commute)
  ultimately show ?case using Suc by (subst radix_digits.simps) auto
qed

lemma length_radix_mono: "2 \<le> r \<Longrightarrow> a \<le> b \<Longrightarrow> length (radix_digits r a) \<le> length (radix_digits r b)"
  using length_radix_digits [of r a "length (radix_digits r b) - 1"]
    length_radix_digits [of r b "length (radix_digits r b) - 1"]
  by (cases "radix_digits r b") auto

section \<open>Digit characters\<close>

definition digit_char :: "nat \<Rightarrow> char" where
  "digit_char d = (if d < 10 then char_of (48 + d) else char_of (87 + d))"

definition to_upper :: "char \<Rightarrow> char" where
  "to_upper c = (if 97 \<le> (of_char c :: nat) \<and> (of_char c :: nat) \<le> 122 then char_of (of_char c - 32 :: nat) else c)"

definition to_digit :: "nat \<Rightarrow> char \<Rightarrow> nat option" where
  "to_digit r c =
     (let n = of_char c :: nat;
          d = if 48 \<le> n \<and> n \<le> 57 then n - 48
              else if 97 \<le> n \<and> n \<le> 122 then n - 87
              else if 65 \<le> n \<and> n \<le> 90 then n - 55 else r
      in if d < r then Some d else None)"

lemma of_digit_char: "d < 36 \<Longrightarrow> (of_char (digit_char d) :: nat) = (if d < 10 then 48 + d else 87 + d)"
  by (simp add: digit_char_def)

lemma digit_char_less: "d < 36 \<Longrightarrow> e < 36 \<Longrightarrow> digit_char d < digit_char e \<longleftrightarrow> d < e"
  by (auto simp: less_char_def of_digit_char)

lemma digit_char_inj: "d < 36 \<Longrightarrow> e < 36 \<Longrightarrow> digit_char d = digit_char e \<longleftrightarrow> d = e"
  using digit_char_less [of d e] digit_char_less [of e d] by (auto simp: linorder_neq_iff)

lemma to_digit_char [simp]: "d < r \<Longrightarrow> r \<le> 36 \<Longrightarrow> to_digit r (digit_char d) = Some d"
  by (auto simp: to_digit_def of_digit_char Let_def)

lemma to_digit_upper [simp]: "to_digit r (to_upper c) = to_digit r c"
  by (auto simp: to_digit_def to_upper_def Let_def)

lemma map_digit_char_less:
  "length xs = length ys \<Longrightarrow> \<forall>d\<in>set xs. d < 36 \<Longrightarrow> \<forall>d\<in>set ys. d < 36 \<Longrightarrow>
   map digit_char xs < map digit_char ys \<longleftrightarrow> xs < ys"
  by (induction xs ys rule: list_induct2) (auto simp: digit_char_less digit_char_inj)

section \<open>The text library\<close>

record text_lib =
  to_str_radix :: "int \<Rightarrow> nat \<Rightarrow> string"
  parse_bytes :: "string \<Rightarrow> nat \<Rightarrow> int option"
  fmt_f64 :: "rat \<Rightarrow> string"

definition radix_text :: "int \<Rightarrow> nat \<Rightarrow> string" where
  "radix_text i r = (if i < 0 then ''-'' else '''') @ map digit_char (radix_digits r (nat \<bar>i\<bar>))"

definition text_lib_ok :: "'a text_lib_scheme \<Rightarrow> bool" where
  "text_lib_ok B \<longleftrightarrow>
     (\<forall>i r. 2 \<le> r \<and> r \<le> 36 \<longrightarrow> to_str_radix B i r = radix_text i r) \<and>
     (\<forall>s ds r. 2 \<le> r \<and> r \<le> 36 \<and> s \<noteq> [] \<and> map (to_digit r) s = map Some ds \<longrightarrow>
        parse_bytes B s r = Some (int (digits_value r ds)))"

definition std_text :: "text_lib" where
  "std_text = \<lparr>to_str_radix = radix_text,
     parse_bytes = (\<lambda>s r. if s \<noteq> [] \<and> None \<notin> set (map (to_digit r) s)
       then Some (int (digits_value r (map (the \<circ> to_digit r) s))) else None),
     fmt_f64 = (\<lambda>_. '''')\<rparr>"

locale text_codec =
  fixes B :: "'a text_lib_scheme"
  assumes ok: "text_lib_ok B"
begin

lemma print: "2 \<le> r \<Longrightarrow> r \<le> 36 \<Longrightarrow> 0 \<le> i \<Longrightarrow> to_str_radix B i r = map digit_char (radix_digits r (nat i))"
  using ok by (auto simp: text_lib_ok_def radix_text_def)

lemma parse: "2 \<le> r \<Longrightarrow> r \<le> 36 \<Longrightarrow> s \<noteq> [] \<Longrightarrow> map (to_digit r) s = map Some ds \<Longrightarrow>
   parse_bytes B s r = Some (int (digits_value r ds))"
  using ok by (auto simp: text_lib_ok_def)

lemma digits_parse:
  assumes "2 \<le> r" "r \<le> 36"
  shows "map (to_digit r) (map digit_char (radix_digits r n)) = map Some (radix_digits r n)"
  using assms by (auto dest: radix_digits_less)

lemma parse_print: "2 \<le> r \<Longrightarrow> r \<le> 36 \<Longrightarrow> 0 \<le> i \<Longrightarrow> parse_bytes B (to_str_radix B i r) r = Some i"
  using parse [of r _ "radix_digits r (nat i)"] by (simp add: print digits_parse del: map_map)

lemma parse_print_upper:
  "2 \<le> r \<Longrightarrow> r \<le> 36 \<Longrightarrow> 0 \<le> i \<Longrightarrow> parse_bytes B (map to_upper (to_str_radix B i r)) r = Some i"
  using parse [of r "map to_upper (to_str_radix B i r)" "radix_digits r (nat i)"] digits_parse [of r "nat i"]
  by (simp add: print comp_def)

end

interpretation std: text_codec std_text
proof (unfold_locales, unfold text_lib_ok_def, intro conjI allI impI, goal_cases)
  case (2 s ds r)
  then have "to_digit r ` set s = Some ` set ds" by (metis list.set_map)
  moreover have "map (the \<circ> to_digit r) s = map (the \<circ> Some) ds"
    using 2 by (metis list.map_comp)
  ultimately show ?case using 2 by (auto simp: std_text_def comp_def)
qed (simp add: std_text_def)

section \<open>Splitting text\<close>

text \<open>\<open>str::split\<close> at a character.\<close>

fun split_on :: "char \<Rightarrow> string \<Rightarrow> string list" where
  "split_on c [] = [[]]"
| "split_on c (x # xs) =
     (if x = c then [] # split_on c xs
      else case split_on c xs of [] \<Rightarrow> [[x]] | p # ps \<Rightarrow> (x # p) # ps)"

lemma split_on_none: "c \<notin> set s \<Longrightarrow> split_on c s = [s]"
  by (induction s) auto

lemma split_on_append: "c \<notin> set s \<Longrightarrow> split_on c (s @ c # t) = s # split_on c t"
  by (induction s) auto

lemma split_on_two: "c \<notin> set s \<Longrightarrow> c \<notin> set t \<Longrightarrow> split_on c (s @ c # t) = [s, t]"
  by (simp add: split_on_append split_on_none)

text \<open>The order of texts with an equally long prefix.\<close>

lemma append_less_iff:
  fixes s t x y :: "'a::linorder list"
  shows "length s = length t \<Longrightarrow> s @ x < t @ y \<longleftrightarrow> s < t \<or> s = t \<and> x < y"
  by (induction s t rule: list_induct2) auto

lemma Nil_less_iff [simp]: "([] :: 'a::linorder list) < s \<longleftrightarrow> s \<noteq> []"
  by (cases s) auto

text \<open>The characters of a UTF-8 text, each as its bytes.\<close>

definition is_cont :: "char \<Rightarrow> bool" where
  "is_cont b \<longleftrightarrow> 128 \<le> (of_char b :: nat) \<and> (of_char b :: nat) < 192"

function chars :: "string \<Rightarrow> string list" where
  "chars [] = []"
| "chars (b # bs) = (b # takeWhile is_cont bs) # chars (dropWhile is_cont bs)"
  by pat_completeness auto
termination by (relation "measure length") (auto simp: le_imp_less_Suc length_dropWhile_le)

text \<open>A byte index is a character boundary when no continuation byte stands there.\<close>

definition char_boundary :: "string \<Rightarrow> nat \<Rightarrow> bool" where
  "char_boundary s i \<longleftrightarrow>
     i = 0 \<or> i = length s \<or> i < length s \<and> \<not> is_cont (s ! i)"

end
