(* ===== verification/Json_Text.thy ===== *)
theory Json_Text
  imports Ivm_Data Radix
begin

text \<open>
  The JSON text format of \<open>zero-cache-shared/src/bigint_json.rs\<close>. A Rust \<open>String\<close> is its UTF-8
  bytes. The decimal rendering of a fractional or very large double (Rust's float formatting) is
  a parameter \<open>fmt\<close>; integers below \<open>10 ^ 21\<close> are printed here.
\<close>

section \<open>Writing\<close>

definition nat_digits :: "nat \<Rightarrow> string" where
  "nat_digits n = map digit_char (radix_digits 10 n)"

definition int_to_string :: "int \<Rightarrow> string" where
  "int_to_string i = (if i < 0 then ''-'' @ nat_digits (nat (- i)) else nat_digits (nat i))"

definition format_number :: "(rat \<Rightarrow> string) \<Rightarrow> f64 \<Rightarrow> string" where
  "format_number fmt n =
     (case n of
        F_Fin q \<Rightarrow>
          if q = 0 then ''0''
          else if of_int \<lfloor>q\<rfloor> = q \<and> \<bar>q\<bar> < 10 ^ 21 then int_to_string \<lfloor>q\<rfloor>
          else fmt q
      | _ \<Rightarrow> ''null'')"



definition escape_char :: "char \<Rightarrow> string" where
  "escape_char c =
     (if c = CHR 0x22 then [CHR 0x5C, CHR 0x22]
      else if c = CHR 0x5C then [CHR 0x5C, CHR 0x5C]
      else if c = CHR 0x08 then [CHR 0x5C, CHR ''b'']
      else if c = CHR 0x0C then [CHR 0x5C, CHR ''f'']
      else if c = CHR 0x0A then [CHR 0x5C, CHR ''n'']
      else if c = CHR 0x0D then [CHR 0x5C, CHR ''r'']
      else if c = CHR 0x09 then [CHR 0x5C, CHR ''t'']
      else if (of_char c :: nat) < 32
        then [CHR 0x5C, CHR ''u'', CHR ''0'', CHR ''0'',
              digit_char (of_char c div 16), digit_char (of_char c mod 16)]
      else [c])"

definition write_json_string :: "string \<Rightarrow> string" where
  "write_json_string s = [CHR 0x22] @ concat (map escape_char s) @ [CHR 0x22]"

fun json_write :: "(rat \<Rightarrow> string) \<Rightarrow> json \<Rightarrow> string"
  and json_write_items :: "(rat \<Rightarrow> string) \<Rightarrow> bool \<Rightarrow> json list \<Rightarrow> string"
  and json_write_entries :: "(rat \<Rightarrow> string) \<Rightarrow> bool \<Rightarrow> (string \<times> json) list \<Rightarrow> string" where
  "json_write fmt JNull = ''null''"
| "json_write fmt (JBool True) = ''true''"
| "json_write fmt (JBool False) = ''false''"
| "json_write fmt (JNumber n) = format_number fmt n"
| "json_write fmt (JBigInt b) = int_to_string b"
| "json_write fmt (JString s) = write_json_string s"
| "json_write fmt (JArray items) = ''['' @ json_write_items fmt True items @ '']''"
| "json_write fmt (JObject entries) = ''{'' @ json_write_entries fmt True entries @ ''}''"
| "json_write_items fmt first [] = ''''"
| "json_write_items fmt first (item # items) =
     (if first then '''' else '','') @ json_write fmt item @ json_write_items fmt False items"
| "json_write_entries fmt first [] = ''''"
| "json_write_entries fmt first ((k, v) # entries) =
     (if first then '''' else '','') @ write_json_string k @ '':'' @ json_write fmt v @
     json_write_entries fmt False entries"

definition stringify :: "(rat \<Rightarrow> string) \<Rightarrow> json \<Rightarrow> string" where
  "stringify fmt v = json_write fmt v"

end
