(* ===== verification/Machine.thy ===== *)
theory Machine
  imports Ivm_Data
begin

text \<open>
  Machine numbers: \<open>usize\<close> and \<open>i64\<close> arithmetic of a release build, which wraps around, and the
  casts between integers and doubles.
\<close>

section \<open>The type usize\<close>

definition usize_add :: "nat \<Rightarrow> nat \<Rightarrow> nat" where
  "usize_add a b = (a + b) mod 2 ^ 64"

definition usize_sub :: "nat \<Rightarrow> nat \<Rightarrow> nat" where
  "usize_sub a b = (a + (2 ^ 64 - b)) mod 2 ^ 64"

fun bit_len :: "nat \<Rightarrow> nat" where
  "bit_len n = (if n = 0 then 0 else Suc (bit_len (n div 2)))"

declare bit_len.simps [simp del]

definition f64_of_usize :: "nat \<Rightarrow> f64" where
  "f64_of_usize n =
     (if n < 2 ^ 53 then F_Fin (of_nat n)
      else let e = bit_len n - 53; q = n div 2 ^ e; r = n mod 2 ^ e;
               up = (2 * r > 2 ^ e \<or> (2 * r = 2 ^ e \<and> odd q))
           in F_Fin (of_nat ((if up then Suc q else q) * 2 ^ e)))"

definition usize_of_f64 :: "f64 \<Rightarrow> nat" where
  "usize_of_f64 x =
     (case x of
        F_NaN \<Rightarrow> 0
      | F_NegInf \<Rightarrow> 0
      | F_PosInf \<Rightarrow> 2 ^ 64 - 1
      | F_Fin q \<Rightarrow> min (nat \<lfloor>q\<rfloor>) (2 ^ 64 - 1))"

text \<open>Code equations that keep the large constants binary.\<close>

lemma usize_add_code [code]: "usize_add a b = nat ((int a + int b) mod 2 ^ 64)"
  by (simp add: usize_add_def nat_mod_distrib nat_add_distrib)

lemma f64_of_usize_code [code]:
  "f64_of_usize n =
     (if int n < 2 ^ 53 then F_Fin (of_nat n)
      else let e = bit_len n - 53; q = n div 2 ^ e; r = n mod 2 ^ e;
               up = (2 * r > 2 ^ e \<or> (2 * r = 2 ^ e \<and> odd q))
           in F_Fin (of_nat ((if up then Suc q else q) * 2 ^ e)))"
proof -
  have "int n < 2 ^ 53 \<longleftrightarrow> n < 2 ^ 53" by (metis of_nat_less_iff of_nat_numeral of_nat_power)
  then show ?thesis by (simp only: f64_of_usize_def)
qed

lemma min_nat_code: "min (nat z) N = (if int N \<le> z then N else nat z)"
  by (auto simp: min_def)

lemma usize_of_f64_code [code]:
  "usize_of_f64 (F_Fin q) = (if 2 ^ 64 - 1 \<le> \<lfloor>q\<rfloor> then 2 ^ 64 - 1 else nat \<lfloor>q\<rfloor>)"
  "usize_of_f64 F_NaN = 0" "usize_of_f64 F_NegInf = 0" "usize_of_f64 F_PosInf = 2 ^ 64 - 1"
proof -
  have "int (2 ^ 64 - 1) = 2 ^ 64 - 1" by simp
  then show "usize_of_f64 (F_Fin q) = (if 2 ^ 64 - 1 \<le> \<lfloor>q\<rfloor> then 2 ^ 64 - 1 else nat \<lfloor>q\<rfloor>)"
    by (simp only: usize_of_f64_def f64.case min_nat_code)
qed (simp_all add: usize_of_f64_def)

section \<open>The type i64\<close>

definition wrap_i64 :: "int \<Rightarrow> int" where
  "wrap_i64 x = (x + 2 ^ 63) mod 2 ^ 64 - 2 ^ 63"

definition i64_add :: "int \<Rightarrow> int \<Rightarrow> int" where
  "i64_add a b = wrap_i64 (a + b)"

definition i64_sub :: "int \<Rightarrow> int \<Rightarrow> int" where
  "i64_sub a b = wrap_i64 (a - b)"

definition f64_of_i64 :: "int \<Rightarrow> f64" where
  "f64_of_i64 i =
     (if 0 \<le> i then f64_of_usize (nat i)
      else case f64_of_usize (nat (- i)) of F_Fin q \<Rightarrow> F_Fin (- q) | x \<Rightarrow> x)"

lemma wrap_i64_small [simp]: "- (2 ^ 63) \<le> x \<Longrightarrow> x < 2 ^ 63 \<Longrightarrow> wrap_i64 x = x"
  by (simp add: wrap_i64_def)

lemma i64_add_small [simp]: "- (2 ^ 62) \<le> a \<Longrightarrow> a < 2 ^ 62 \<Longrightarrow> - (2 ^ 62) \<le> b \<Longrightarrow> b < 2 ^ 62 \<Longrightarrow> i64_add a b = a + b"
  by (simp add: i64_add_def)

lemma i64_sub_small [simp]: "- (2 ^ 62) \<le> a \<Longrightarrow> a < 2 ^ 62 \<Longrightarrow> - (2 ^ 62) \<le> b \<Longrightarrow> b < 2 ^ 62 \<Longrightarrow> i64_sub a b = a - b"
  by (simp add: i64_sub_def)

lemma f64_of_i64_small: "0 \<le> i \<Longrightarrow> i < 2 ^ 53 \<Longrightarrow> f64_of_i64 i = F_Fin (of_int i)"
  by (simp add: f64_of_i64_def f64_of_usize_def nat_less_iff)

section \<open>Arithmetic on doubles\<close>

text \<open>
  The double nearest to a rational, ties to the even significand: \<open>2 ^ e \<le> |q| < 2 ^ (e + 1)\<close> fixes
  the unit in the last place.
\<close>

definition pow2 :: "int \<Rightarrow> rat" where
  "pow2 k = (if 0 \<le> k then 2 ^ nat k else 1 / 2 ^ nat (- k))"

function int_bits :: "int \<Rightarrow> int" where
  "int_bits n = (if n \<le> 0 then 0 else 1 + int_bits (n div 2))"
  by pat_completeness auto
termination by (relation "measure nat") auto

declare int_bits.simps [simp del]

definition log2_floor :: "rat \<Rightarrow> int" where
  "log2_floor q =
     (let (a, b) = quotient_of \<bar>q\<bar>; e = int_bits a - int_bits b
      in if pow2 e \<le> \<bar>q\<bar> then e else e - 1)"

definition round_half_even :: "rat \<Rightarrow> int" where
  "round_half_even x =
     (let f = \<lfloor>x\<rfloor>; d = x - of_int f
      in if d < 1 / 2 then f else if d > 1 / 2 then f + 1 else if even f then f else f + 1)"

definition f64_round :: "rat \<Rightarrow> f64" where
  "f64_round q =
     (if q = 0 then F_Fin 0
      else let ulp = pow2 (max (log2_floor q) (- 1022) - 52);
               r = of_int (round_half_even (q / ulp)) * ulp
           in if r \<ge> pow2 1024 then F_PosInf else if r \<le> - pow2 1024 then F_NegInf else F_Fin r)"

fun f64_add :: "f64 \<Rightarrow> f64 \<Rightarrow> f64" where
  "f64_add (F_Fin p) (F_Fin q) = f64_round (p + q)"
| "f64_add F_NaN y = F_NaN"
| "f64_add x F_NaN = F_NaN"
| "f64_add F_PosInf F_NegInf = F_NaN"
| "f64_add F_NegInf F_PosInf = F_NaN"
| "f64_add F_PosInf y = F_PosInf"
| "f64_add x F_PosInf = F_PosInf"
| "f64_add F_NegInf y = F_NegInf"
| "f64_add x F_NegInf = F_NegInf"

definition f64_signed_inf :: "rat \<Rightarrow> f64" where
  "f64_signed_inf s = (if s > 0 then F_PosInf else if s < 0 then F_NegInf else F_NaN)"

fun f64_mul :: "f64 \<Rightarrow> f64 \<Rightarrow> f64" where
  "f64_mul (F_Fin p) (F_Fin q) = f64_round (p * q)"
| "f64_mul F_NaN y = F_NaN"
| "f64_mul x F_NaN = F_NaN"
| "f64_mul F_PosInf (F_Fin q) = f64_signed_inf q"
| "f64_mul F_NegInf (F_Fin q) = f64_signed_inf (- q)"
| "f64_mul (F_Fin p) F_PosInf = f64_signed_inf p"
| "f64_mul (F_Fin p) F_NegInf = f64_signed_inf (- p)"
| "f64_mul F_PosInf F_PosInf = F_PosInf"
| "f64_mul F_PosInf F_NegInf = F_NegInf"
| "f64_mul F_NegInf F_PosInf = F_NegInf"
| "f64_mul F_NegInf F_NegInf = F_PosInf"

lemma pow2_pos [simp]: "0 < pow2 k"
  by (simp add: pow2_def)

lemma int_bits_bounds: "0 < n \<Longrightarrow> 2 ^ nat (int_bits n - 1) \<le> n \<and> n < 2 ^ nat (int_bits n) \<and> 0 < int_bits n"
proof (induction n rule: int_bits.induct)
  case (1 n)
  show ?case
  proof (cases "n = 1")
    case True
    then show ?thesis by (simp add: int_bits.simps [of 1] int_bits.simps [of 0])
  next
    case False
    then have m: "0 < n div 2" using 1(2) by auto
    let ?m = "n div 2" and ?k = "int_bits (n div 2)"
    have IH: "2 ^ nat (?k - 1) \<le> ?m" "?m < 2 ^ nat ?k" "0 < ?k" using 1(1) 1(2) m by auto
    have b: "int_bits n = 1 + ?k" using 1(2) by (subst int_bits.simps) simp
    have e: "nat ?k = Suc (nat (?k - 1))" "nat (1 + ?k) = Suc (nat ?k)" using IH(3) by linarith+
    have "2 * ?m \<le> n" "n \<le> 2 * ?m + 1" by auto
    moreover have "(2::int) ^ nat ?k = 2 * 2 ^ nat (?k - 1)" "(2::int) ^ nat (1 + ?k) = 2 * 2 ^ nat ?k" unfolding e by simp_all
    ultimately show ?thesis using IH b by auto
  qed
qed

lemma round_half_even_int [simp]: "round_half_even (of_int n) = n"
  by (simp add: round_half_even_def)

lemma log2_floor_int: "0 < n \<Longrightarrow> log2_floor (of_int n) = int_bits n - 1"
proof -
  assume n: "0 < n"
  have b: "2 ^ nat (int_bits n - 1) \<le> n" "n < 2 ^ nat (int_bits n)" "0 < int_bits n"
    using int_bits_bounds [OF n] by auto
  have q: "quotient_of \<bar>of_int n :: rat\<bar> = (n, 1)" using n by simp
  have one: "int_bits 1 = 1" by (simp add: int_bits.simps [of 1] int_bits.simps [of 0])
  have "pow2 (int_bits n - 1) = of_int (2 ^ nat (int_bits n - 1))" using b(3) by (simp add: pow2_def)
  also have "\<dots> \<le> of_int n" using b(1) by (simp only: of_int_le_iff)
  finally show ?thesis using n by (simp add: log2_floor_def q one)
qed

lemma log2_floor_neg: "log2_floor (- q) = log2_floor q"
  by (simp add: log2_floor_def)

lemma f64_round_int:
  assumes "\<bar>n\<bar> < 2 ^ 53"
  shows "f64_round (of_int n) = F_Fin (of_int n)"
proof (cases "n = 0")
  case False
  let ?e = "int_bits \<bar>n\<bar> - 1"
  have b: "2 ^ nat ?e \<le> \<bar>n\<bar>" "0 \<le> ?e" using int_bits_bounds [of "\<bar>n\<bar>"] False by auto
  have "?e \<le> 52"
  proof (rule ccontr)
    assume "\<not> ?e \<le> 52"
    then have "(2::int) ^ 53 \<le> 2 ^ nat ?e" by (intro power_increasing) auto
    then show False using b(1) assms by linarith
  qed
  have l: "log2_floor (of_int n) = ?e"
    using log2_floor_int [of "\<bar>n\<bar>"] False log2_floor_neg [of "of_int n"] by (cases "0 < n") auto
  have p: "pow2 (?e - 52) = 1 / 2 ^ nat (52 - ?e)" using \<open>?e \<le> 52\<close> by (simp add: pow2_def)
  then have d: "(of_int n :: rat) / pow2 (?e - 52) = of_int (n * 2 ^ nat (52 - ?e))" by simp
  have "round_half_even (of_int n / pow2 (?e - 52)) = n * 2 ^ nat (52 - ?e)"
    unfolding d by (rule round_half_even_int)
  then have r: "of_int (round_half_even (of_int n / pow2 (?e - 52))) * pow2 (?e - 52) = (of_int n :: rat)"
    by (simp only: p) simp
  have "(of_int \<bar>n\<bar> :: rat) < of_int (2 ^ 53)" using assms by (simp only: of_int_less_iff)
  also have "(of_int (2 ^ 53) :: rat) \<le> pow2 1024" by (simp add: pow2_def)
  finally have "\<bar>of_int n :: rat\<bar> < pow2 1024" by simp
  then have "\<not> (of_int n :: rat) \<ge> pow2 1024" "\<not> (of_int n :: rat) \<le> - pow2 1024" by linarith+
  moreover have "max ?e (- 1022) = ?e" using b(2) by simp
  ultimately show ?thesis using False r by (simp only: f64_round_def l Let_def) simp
qed (simp add: f64_round_def)

end
