(* ===== verification/Ivm_Take.thy ===== *)
theory Ivm_Take
  imports Ivm_Operator Json_Text Machine
begin

text \<open>
  The \<open>Take\<close> operator (\<open>zero-cache-zql/src/ivm/take.rs\<close>): a \<open>limit\<close>, global or per partition,
  maintained with a bound row kept in the operator's storage. A push returns the new storage and
  its emissions; an emission records the storage and the hidden row at the moment the change is
  pushed downstream, which is what a fetch the consumer makes at that moment sees.
\<close>

section \<open>State\<close>

record take_cfg =
  tk_limit :: nat
  tk_partition_key :: "primary_key option"
  tk_schema :: source_schema
  tk_fmt :: "rat \<Rightarrow> string"

record take_state =
  ts_size :: nat
  ts_bound :: "row option"

record emission =
  em_store :: storage
  em_hidden :: "row option"
  em_change :: change

definition max_bound_key :: string where
  "max_bound_key = ''maxBound''"

section \<open>Storage helpers\<close>

definition take_cmp :: "take_cfg \<Rightarrow> row \<Rightarrow> row \<Rightarrow> ordering option" where
  "take_cmp cfg a b = compare_rows (tk_schema cfg) a b"

definition get_take_state :: "storage \<Rightarrow> string \<Rightarrow> take_state option option" where
  "get_take_state st key =
     (case storage_get st key None of
        Some (JObject fs) \<Rightarrow>
          (case find (\<lambda>(k, _). k = ''size'') fs of
             Some (_, JNumber n) \<Rightarrow>
               Some (Some \<lparr>ts_size = usize_of_f64 n,
                 ts_bound = (case find (\<lambda>(k, _). k = ''bound'') fs of
                   Some (_, JObject r) \<Rightarrow> Some r
                 | _ \<Rightarrow> None)\<rparr>)
           | _ \<Rightarrow> None)
      | _ \<Rightarrow> Some None)"

definition get_max_bound :: "storage \<Rightarrow> row option" where
  "get_max_bound st =
     (case storage_get st max_bound_key None of Some (JObject r) \<Rightarrow> Some r | _ \<Rightarrow> None)"

definition set_take_state ::
  "take_cfg \<Rightarrow> storage \<Rightarrow> string \<Rightarrow> nat \<Rightarrow> row option \<Rightarrow> row option \<Rightarrow> storage option" where
  "set_take_state cfg st key sz bound max_bound =
     (let bound_json = (case bound of Some r \<Rightarrow> JObject r | None \<Rightarrow> JNull);
          state = JObject [(''size'', JNumber (f64_of_usize sz)), (''bound'', bound_json)];
          st' = storage_set key state st
      in case bound of
           None \<Rightarrow> Some st'
         | Some b \<Rightarrow>
             (case max_bound of
                None \<Rightarrow> Some (storage_set max_bound_key (JObject b) st')
              | Some mb \<Rightarrow>
                  do {
                    c \<leftarrow> take_cmp cfg b mb;
                    Some (if c = Greater then storage_set max_bound_key (JObject b) st' else st')
                  }))"

definition get_take_state_key ::
  "(rat \<Rightarrow> string) \<Rightarrow> primary_key option \<Rightarrow> (string \<times> json) list option \<Rightarrow> string" where
  "get_take_state_key fmt partition_key row_or_constraint =
     stringify fmt (JArray (JString ''take'' #
       (case (partition_key, row_or_constraint) of
          (Some pk, Some rc) \<Rightarrow> map (get rc) pk
        | _ \<Rightarrow> [])))"

definition constraint_matches_partition_key :: "constraint option \<Rightarrow> primary_key option \<Rightarrow> bool" where
  "constraint_matches_partition_key c partition_key =
     (case (c, partition_key) of
        (None, None) \<Rightarrow> True
      | (Some c, Some pk) \<Rightarrow>
          (if length pk \<noteq> length c then False
           else list_all (\<lambda>k. list_ex (\<lambda>(ck, _). ck = k) c) pk)
      | _ \<Rightarrow> False)"

definition partition_constraint :: "take_cfg \<Rightarrow> row \<Rightarrow> constraint option" where
  "partition_constraint cfg r = map_option (map (\<lambda>k. (k, get r k))) (tk_partition_key cfg)"

definition get_state_and_constraint ::
  "take_cfg \<Rightarrow> storage \<Rightarrow> row \<Rightarrow> (take_state option \<times> string \<times> row option \<times> constraint option) option" where
  "get_state_and_constraint cfg st r =
     (let key = get_take_state_key (tk_fmt cfg) (tk_partition_key cfg) (Some r)
      in do {
        take_state \<leftarrow> get_take_state st key;
        Some (if take_state \<noteq> None
          then (take_state, key, get_max_bound st, partition_constraint cfg r)
          else (take_state, key, None, None))
      })"

definition fetch_bounded ::
  "input \<Rightarrow> row \<Rightarrow> start_basis \<Rightarrow> constraint option \<Rightarrow> bool \<Rightarrow> node list option" where
  "fetch_bounded input bound b c reverse =
     input \<lparr>req_constraint = c, multi_constraints = [],
       req_start = Some \<lparr>start_row = bound, basis = b\<rparr>, req_reverse = reverse\<rparr>"

section \<open>Push transitions\<close>

definition nth_opt :: "nat \<Rightarrow> 'a list \<Rightarrow> 'a option" where
  "nth_opt i xs = (if i < length xs then Some (xs ! i) else None)"

definition emit :: "storage \<Rightarrow> row option \<Rightarrow> change \<Rightarrow> emission" where
  "emit st hidden c = \<lparr>em_store = st, em_hidden = hidden, em_change = c\<rparr>"

type_synonym push_result = "(storage \<times> emission list) option"

definition push_add ::
  "take_cfg \<Rightarrow> input \<Rightarrow> storage \<Rightarrow> node \<Rightarrow> take_state \<Rightarrow> string \<Rightarrow> row option \<Rightarrow> constraint option \<Rightarrow> push_result" where
  "push_add cfg input st node ts key max_bound c =
     (let r = node_row node in
      if ts_size ts < tk_limit cfg then
        do {
          new_bound \<leftarrow> (case ts_bound ts of
              None \<Rightarrow> Some r
            | Some b \<Rightarrow> do { o' \<leftarrow> take_cmp cfg b r; Some (if o' = Less then r else b) });
          st' \<leftarrow> set_take_state cfg st key (usize_add (ts_size ts) 1) (Some new_bound) max_bound;
          Some (st', [emit st' None (Add node)])
        }
      else
        (case ts_bound ts of
           None \<Rightarrow> Some (st, [])
         | Some bound \<Rightarrow>
             do {
               o' \<leftarrow> take_cmp cfg r bound;
               if o' \<noteq> Less then Some (st, [])
               else
                 do {
                   (before_bound_node, bn) \<leftarrow>
                     (if tk_limit cfg = 1
                      then do { ns \<leftarrow> fetch_bounded input bound At c False; Some (None, nth_opt 0 ns) }
                      else do { ns \<leftarrow> fetch_bounded input bound At c True; Some (nth_opt 1 ns, nth_opt 0 ns) });
                   bound_node \<leftarrow> bn;
                   new_bound \<leftarrow> (case before_bound_node of
                       None \<Rightarrow> Some r
                     | Some bb \<Rightarrow>
                         do {
                           o2 \<leftarrow> take_cmp cfg r (node_row bb);
                           Some (if o2 = Greater then r else node_row bb)
                         });
                   st' \<leftarrow> set_take_state cfg st key (ts_size ts) (Some new_bound) max_bound;
                   Some (st', [emit st' (Some r) (Remove bound_node), emit st' None (Add node)])
                 }
             }))"

text \<open>The candidate loop of \<open>push_remove\<close>: it stops at the first row past the bound.\<close>

fun scan_candidates ::
  "take_cfg \<Rightarrow> row \<Rightarrow> (node \<times> bool) option \<Rightarrow> node list \<Rightarrow> (node \<times> bool) option option" where
  "scan_candidates cfg bound new_bound [] = Some new_bound"
| "scan_candidates cfg bound new_bound (candidate # rest) =
     do {
       o' \<leftarrow> take_cmp cfg (node_row candidate) bound;
       if o' = Greater then Some (Some (candidate, True))
       else scan_candidates cfg bound (Some (candidate, False)) rest
     }"

definition push_remove ::
  "take_cfg \<Rightarrow> input \<Rightarrow> storage \<Rightarrow> node \<Rightarrow> take_state \<Rightarrow> string \<Rightarrow> row option \<Rightarrow> constraint option \<Rightarrow> push_result" where
  "push_remove cfg input st node ts key max_bound c =
     (case ts_bound ts of
        None \<Rightarrow> Some (st, [])
      | Some bound \<Rightarrow>
          do {
            o' \<leftarrow> take_cmp cfg (node_row node) bound;
            if o' = Greater then Some (st, [])
            else
              do {
                before \<leftarrow> fetch_bounded input bound After c True;
                nb0 \<leftarrow> (case nth_opt 0 before of
                    None \<Rightarrow> Some None
                  | Some bn \<Rightarrow>
                      do { o2 \<leftarrow> take_cmp cfg (node_row bn) bound; Some (Some (bn, o2 = Greater)) });
                nb \<leftarrow> (case nb0 of
                    Some (bn, True) \<Rightarrow> Some nb0
                  | _ \<Rightarrow>
                      do {
                        candidates \<leftarrow> fetch_bounded input bound At c False;
                        scan_candidates cfg bound nb0 candidates
                      });
                case nb of
                  Some (n, True) \<Rightarrow>
                    do {
                      st' \<leftarrow> set_take_state cfg st key (ts_size ts) (Some (node_row n)) max_bound;
                      Some (st', [emit st None (Remove node), emit st' None (Add n)])
                    }
                | other \<Rightarrow>
                    do {
                      st' \<leftarrow> set_take_state cfg st key (usize_sub (ts_size ts) 1)
                        (map_option (\<lambda>(n, _). node_row n) other) max_bound;
                      Some (st', [emit st' None (Remove node)])
                    }
              }
          })"

definition same_partition :: "take_cfg \<Rightarrow> row \<Rightarrow> row \<Rightarrow> bool option" where
  "same_partition cfg old_row r =
     (case tk_partition_key cfg of
        None \<Rightarrow> Some True
      | Some pk \<Rightarrow>
          map_option (list_all (\<lambda>o'. o' = Equal))
            (map_opt (\<lambda>k. compare_values (get old_row k) (get r k)) pk))"

definition push_edit_at_bound ::
  "take_cfg \<Rightarrow> input \<Rightarrow> storage \<Rightarrow> node \<Rightarrow> node \<Rightarrow> take_state \<Rightarrow> row \<Rightarrow> string \<Rightarrow> row option \<Rightarrow> constraint option
    \<Rightarrow> ordering \<Rightarrow> push_result" where
  "push_edit_at_bound cfg input st node old_node ts bound key max_bound c new_cmp =
     (let change = Edit node old_node; r = node_row node in
      case new_cmp of
        Equal \<Rightarrow> Some (st, [emit st None change])
      | Less \<Rightarrow>
          if tk_limit cfg = 1 then
            do {
              st' \<leftarrow> set_take_state cfg st key (ts_size ts) (Some r) max_bound;
              Some (st', [emit st' None change])
            }
          else
            do {
              ns \<leftarrow> fetch_bounded input bound After c True;
              before_bound_node \<leftarrow> nth_opt 0 ns;
              st' \<leftarrow> set_take_state cfg st key (ts_size ts) (Some (node_row before_bound_node)) max_bound;
              Some (st', [emit st' None change])
            }
      | Greater \<Rightarrow>
          do {
            ns \<leftarrow> fetch_bounded input bound At c False;
            new_bound_node \<leftarrow> nth_opt 0 ns;
            o' \<leftarrow> take_cmp cfg (node_row new_bound_node) r;
            if o' = Equal then
              do {
                st' \<leftarrow> set_take_state cfg st key (ts_size ts) (Some r) max_bound;
                Some (st', [emit st' None change])
              }
            else
              do {
                st' \<leftarrow> set_take_state cfg st key (ts_size ts) (Some (node_row new_bound_node)) max_bound;
                Some (st', [emit st' (Some (node_row new_bound_node)) (Remove old_node),
                            emit st' None (Add new_bound_node)])
              }
          })"

definition push_edit_outside ::
  "take_cfg \<Rightarrow> input \<Rightarrow> storage \<Rightarrow> node \<Rightarrow> take_state \<Rightarrow> row \<Rightarrow> string \<Rightarrow> row option \<Rightarrow> constraint option
    \<Rightarrow> ordering \<Rightarrow> push_result" where
  "push_edit_outside cfg input st node ts bound key max_bound c new_cmp =
     do {
       assert_ok (new_cmp \<noteq> Equal);
       if new_cmp = Greater then Some (st, [])
       else
         do {
           ns \<leftarrow> fetch_bounded input bound At c True;
           old_bound_node \<leftarrow> nth_opt 0 ns;
           new_bound_node \<leftarrow> nth_opt 1 ns;
           st' \<leftarrow> set_take_state cfg st key (ts_size ts) (Some (node_row new_bound_node)) max_bound;
           Some (st', [emit st' (Some (node_row node)) (Remove old_bound_node), emit st' None (Add node)])
         }
     }"

definition push_edit_inside ::
  "take_cfg \<Rightarrow> input \<Rightarrow> storage \<Rightarrow> node \<Rightarrow> node \<Rightarrow> take_state \<Rightarrow> row \<Rightarrow> string \<Rightarrow> row option \<Rightarrow> constraint option
    \<Rightarrow> ordering \<Rightarrow> push_result" where
  "push_edit_inside cfg input st node old_node ts bound key max_bound c new_cmp =
     (let change = Edit node old_node; r = node_row node in
      do {
        assert_ok (new_cmp \<noteq> Equal);
        if new_cmp = Less then Some (st, [emit st None change])
        else
          do {
            ns \<leftarrow> fetch_bounded input bound After c False;
            after_bound_node \<leftarrow> nth_opt 0 ns;
            o' \<leftarrow> take_cmp cfg (node_row after_bound_node) r;
            if o' = Equal then
              do {
                st' \<leftarrow> set_take_state cfg st key (ts_size ts) (Some r) max_bound;
                Some (st', [emit st' None change])
              }
            else
              do {
                st' \<leftarrow> set_take_state cfg st key (ts_size ts) (Some (node_row after_bound_node)) max_bound;
                Some (st', [emit st None (Remove old_node), emit st' None (Add after_bound_node)])
              }
          }
      })"

definition push_edit :: "take_cfg \<Rightarrow> input \<Rightarrow> storage \<Rightarrow> node \<Rightarrow> node \<Rightarrow> push_result" where
  "push_edit cfg input st node old_node =
     do {
       same \<leftarrow> same_partition cfg (node_row old_node) (node_row node);
       assert_ok same;
       (take_state, key, max_bound, c) \<leftarrow> get_state_and_constraint cfg st (node_row old_node);
       case take_state of
         None \<Rightarrow> Some (st, [])
       | Some ts \<Rightarrow>
           do {
             bound \<leftarrow> ts_bound ts;
             old_cmp \<leftarrow> take_cmp cfg (node_row old_node) bound;
             new_cmp \<leftarrow> take_cmp cfg (node_row node) bound;
             case old_cmp of
               Equal \<Rightarrow> push_edit_at_bound cfg input st node old_node ts bound key max_bound c new_cmp
             | Greater \<Rightarrow> push_edit_outside cfg input st node ts bound key max_bound c new_cmp
             | Less \<Rightarrow> push_edit_inside cfg input st node old_node ts bound key max_bound c new_cmp
           }
     }"

definition take_push :: "take_cfg \<Rightarrow> input \<Rightarrow> storage \<Rightarrow> change \<Rightarrow> push_result" where
  "take_push cfg input st change =
     (case change of
        Edit node old_node \<Rightarrow> push_edit cfg input st node old_node
      | Add node \<Rightarrow>
          do {
            (take_state, key, max_bound, c) \<leftarrow> get_state_and_constraint cfg st (node_row node);
            case take_state of
              None \<Rightarrow> Some (st, [])
            | Some ts \<Rightarrow> push_add cfg input st node ts key max_bound c
          }
      | Remove node \<Rightarrow>
          do {
            (take_state, key, max_bound, c) \<leftarrow> get_state_and_constraint cfg st (node_row node);
            case take_state of
              None \<Rightarrow> Some (st, [])
            | Some ts \<Rightarrow> push_remove cfg input st node ts key max_bound c
          }
      | Child node child \<Rightarrow>
          do {
            (take_state, key, max_bound, c) \<leftarrow> get_state_and_constraint cfg st (node_row node);
            case take_state of
              None \<Rightarrow> Some (st, [])
            | Some ts \<Rightarrow>
                (case ts_bound ts of
                   None \<Rightarrow> Some (st, [])
                 | Some b \<Rightarrow>
                     do {
                       o' \<leftarrow> take_cmp cfg (node_row node) b;
                       Some (st, if o' \<noteq> Greater then [emit st None change] else [])
                     })
          })"

section \<open>Fetching\<close>

text \<open>
  The loop of \<open>initial_fetch\<close>: take nodes up to the limit, remembering the last one as the bound.
  The limit is not zero here, so the loop can stop after a node whenever the limit is reached.
\<close>

fun initial_loop :: "nat \<Rightarrow> nat \<Rightarrow> row option \<Rightarrow> node list \<Rightarrow> node list \<Rightarrow> nat \<times> row option \<times> node list" where
  "initial_loop limit sz bound out [] = (sz, bound, out)"
| "initial_loop limit sz bound out (node # nodes) =
     (if usize_add sz 1 = limit then (usize_add sz 1, Some (node_row node), out @ [node])
      else initial_loop limit (usize_add sz 1) (Some (node_row node)) (out @ [node]) nodes)"

definition initial_fetch ::
  "take_cfg \<Rightarrow> input \<Rightarrow> storage \<Rightarrow> fetch_request \<Rightarrow> (storage \<times> node list) option" where
  "initial_fetch cfg input st req =
     do {
       assert_ok (req_start req = None);
       assert_ok (\<not> req_reverse req);
       if tk_limit cfg = 0 then Some (st, [])
       else
         do {
           assert_ok (constraint_matches_partition_key (req_constraint req) (tk_partition_key cfg));
           let key = get_take_state_key (tk_fmt cfg) (tk_partition_key cfg) (req_constraint req);
           ts \<leftarrow> get_take_state st key;
           assert_ok (ts = None);
           nodes \<leftarrow> input req;
           let (sz, bound, out) = initial_loop (tk_limit cfg) 0 None [] nodes;
           st' \<leftarrow> set_take_state cfg st key sz bound (get_max_bound st);
           Some (st', out)
         }
     }"

fun bounded_loop :: "take_cfg \<Rightarrow> row \<Rightarrow> row option \<Rightarrow> node list \<Rightarrow> node list option" where
  "bounded_loop cfg bound hidden [] = Some []"
| "bounded_loop cfg bound hidden (node # nodes) =
     do {
       o' \<leftarrow> take_cmp cfg bound (node_row node);
       if o' = Less then Some []
       else
         do {
           hide \<leftarrow> (case hidden of
               None \<Rightarrow> Some False
             | Some h \<Rightarrow> do { o2 \<leftarrow> take_cmp cfg h (node_row node); Some (o2 = Equal) });
           rest \<leftarrow> bounded_loop cfg bound hidden nodes;
           Some (if hide then rest else node # rest)
         }
     }"

fun partitioned_loop :: "take_cfg \<Rightarrow> storage \<Rightarrow> row \<Rightarrow> node list \<Rightarrow> node list option" where
  "partitioned_loop cfg st max_bound [] = Some []"
| "partitioned_loop cfg st max_bound (node # nodes) =
     do {
       o' \<leftarrow> take_cmp cfg (node_row node) max_bound;
       if o' = Greater then Some []
       else
         do {
           ts \<leftarrow> get_take_state st
             (get_take_state_key (tk_fmt cfg) (tk_partition_key cfg) (Some (node_row node)));
           admit \<leftarrow> (case ts of
               Some t \<Rightarrow>
                 (case ts_bound t of
                    Some b \<Rightarrow> do { o2 \<leftarrow> take_cmp cfg b (node_row node); Some (o2 \<noteq> Less) }
                  | None \<Rightarrow> Some False)
             | None \<Rightarrow> Some False);
           rest \<leftarrow> partitioned_loop cfg st max_bound nodes;
           Some (if admit then node # rest else rest)
         }
     }"

definition take_fetch ::
  "take_cfg \<Rightarrow> row option \<Rightarrow> input \<Rightarrow> storage \<Rightarrow> fetch_request \<Rightarrow> (storage \<times> node list) option" where
  "take_fetch cfg hidden input st req =
     (if tk_partition_key cfg = None \<or>
         (req_constraint req \<noteq> None \<and>
          constraint_matches_partition_key (req_constraint req) (tk_partition_key cfg))
      then
        do {
          let key = get_take_state_key (tk_fmt cfg) (tk_partition_key cfg) (req_constraint req);
          take_state \<leftarrow> get_take_state st key;
          case take_state of
            None \<Rightarrow> initial_fetch cfg input st req
          | Some ts \<Rightarrow>
              (case ts_bound ts of
                 None \<Rightarrow> Some (st, [])
               | Some bound \<Rightarrow>
                   do { nodes \<leftarrow> input req; out \<leftarrow> bounded_loop cfg bound hidden nodes; Some (st, out) })
        }
      else
        (case get_max_bound st of
           None \<Rightarrow> Some (st, [])
         | Some max_bound \<Rightarrow>
             do { nodes \<leftarrow> input req; out \<leftarrow> partitioned_loop cfg st max_bound nodes; Some (st, out) }))"

end
