(* ===== verification/Ivm_Take_Window.thy ===== *)
theory Ivm_Take_Window
  imports Ivm_Take
begin

text \<open>
  The proof library for \<open>Take\<close>: reading back the stored state, bounded fetches over a partition,
  the invariant that ties the stored size and bound to the window (the first \<open>limit\<close> rows of the
  partition), and the transitions that add and remove a row.
\<close>

section \<open>Reading back the stored state\<close>

lemma usize_roundtrip [simp]: "n < 2 ^ 53 \<Longrightarrow> usize_of_f64 (f64_of_usize n) = n"
  by (simp add: usize_of_f64_def f64_of_usize_def)

lemma usize_add_small [simp]: "n < 2 ^ 53 \<Longrightarrow> usize_add n (Suc 0) = Suc n"
  by (simp add: usize_add_def)

lemma usize_sub_small [simp]: "0 < n \<Longrightarrow> n < 2 ^ 53 \<Longrightarrow> usize_sub n (Suc 0) = n - 1"
proof -
  assume "0 < n" "n < 2 ^ 53"
  then have "n + (2 ^ 64 - Suc 0) = (n - 1) + 2 ^ 64" by simp
  then have "usize_sub n (Suc 0) = ((n - 1) + 2 ^ 64) mod 2 ^ 64" by (simp only: usize_sub_def)
  then show ?thesis using \<open>n < 2 ^ 53\<close> by simp
qed

lemma take_key_neq_max [simp]: "get_take_state_key fmt pk rc \<noteq> max_bound_key"
  by (simp add: get_take_state_key_def stringify_def max_bound_key_def)

lemma take_cmp_eq: "take_cmp cfg = make_comparator (schema_sort (tk_schema cfg)) False"
  by (simp add: fun_eq_iff take_cmp_def compare_rows_def)

definition max_bound_ok :: "take_cfg \<Rightarrow> col_types \<Rightarrow> row option \<Rightarrow> bool" where
  "max_bound_ok cfg \<tau> mb \<longleftrightarrow> (\<forall>r. mb = Some r \<longrightarrow> r \<in> typed_rows \<tau> (schema_sort (tk_schema cfg)))"

lemma set_take_state_ok:
  assumes st: "storage_ok st" and key: "key \<noteq> max_bound_key" and n: "n < 2 ^ 53"
    and mb: "max_bound_ok cfg \<tau> mb" and b: "max_bound_ok cfg \<tau> b"
    and cur: "max_bound_ok cfg \<tau> (get_max_bound st)"
  shows "\<exists>st'. set_take_state cfg st key n b mb = Some st' \<and> storage_ok st' \<and>
    get_take_state st' key = Some (Some \<lparr>ts_size = n, ts_bound = b\<rparr>) \<and>
    max_bound_ok cfg \<tau> (get_max_bound st')"
proof -
  let ?v = "JObject [(''size'', JNumber (f64_of_usize n)),
    (''bound'', case b of Some r \<Rightarrow> JObject r | None \<Rightarrow> JNull)]"
  let ?st = "storage_set key ?v st"
  have s: "storage_ok ?st" using st by (rule mem.ok_put)
  have g: "get_take_state ?st key = Some (Some \<lparr>ts_size = n, ts_bound = b\<rparr>)"
    using st n by (cases b) (auto simp: get_take_state_def mem.get_put)
  have m: "get_max_bound ?st = get_max_bound st"
    using st key by (simp add: get_max_bound_def mem.get_put)
  show ?thesis
  proof (cases b)
    case None
    then show ?thesis using s g m cur by (simp add: set_take_state_def)
  next
    case (Some r)
    let ?st2 = "storage_set max_bound_key (JObject r) ?st"
    have s2: "storage_ok ?st2" using s by (rule mem.ok_put)
    have g2: "get_take_state ?st2 key = Some (Some \<lparr>ts_size = n, ts_bound = b\<rparr>)"
      using g s key by (simp add: get_take_state_def mem.get_put)
    have m2: "get_max_bound ?st2 = Some r"
      using s by (simp add: get_max_bound_def mem.get_put)
    have c: "take_cmp cfg r q \<noteq> None" if "mb = Some q" for q
      using that mb b Some row_cmp.total [of r \<tau> "schema_sort (tk_schema cfg)" q]
      by (simp add: max_bound_ok_def take_cmp_eq)
    show ?thesis
    proof (cases mb)
      case None
      then show ?thesis using Some s2 g2 m2 b by (simp add: set_take_state_def)
    next
      case (Some q)
      with c obtain o' where "take_cmp cfg r q = Some o'" by blast
      with Some \<open>b = Some r\<close> s g m cur s2 g2 m2 b show ?thesis
        by (cases "o' = Greater") (simp_all add: set_take_state_def)
    qed
  qed
qed

text \<open>Only the partition's own key and \<open>maxBound\<close> are written.\<close>

lemma set_take_state_frame:
  assumes "storage_ok st" "set_take_state cfg st key n b mb = Some st'" "k \<noteq> key" "k \<noteq> max_bound_key"
  shows "storage_get st' k None = storage_get st k None"
  using assms mem.ok_put [OF assms(1)]
  by (auto simp: set_take_state_def Let_def option_mono mem.get_put split: option.splits if_splits)

section \<open>Bounded fetches\<close>

definition slice :: "constraint option \<Rightarrow> row list \<Rightarrow> row list" where
  "slice c L = filter (\<lambda>r. case c of None \<Rightarrow> True | Some c \<Rightarrow> constraint_matches_row c r) L"

lemma slice_None [simp]: "slice None L = L"
  by (simp add: slice_def)

lemma fetch_bounded_eq:
  assumes "order \<noteq> []" "b \<in> typed_rows \<tau> order" "set L \<subseteq> typed_rows \<tau> order"
  shows "fetch_bounded (input_of order rel L) b bs c rv =
    Some (map (\<lambda>r. Node r (rel r))
      (if rv then rev (filter (\<lambda>r. if bs = At then le_by (make_comparator order False) r b
                                  else lt_by (make_comparator order False) r b) (slice c L))
       else filter (\<lambda>r. if bs = At then le_by (make_comparator order False) b r
                        else lt_by (make_comparator order False) b r) (slice c L)))"
proof -
  have "in_start order rv (Some \<lparr>start_row = b, basis = bs\<rparr>) r =
      (if rv
       then (if bs = At then le_by (make_comparator order False) r b
             else lt_by (make_comparator order False) r b)
       else (if bs = At then le_by (make_comparator order False) b r
             else lt_by (make_comparator order False) b r))" if "r \<in> set L" for r
    using in_start_typed [of order "\<lparr>start_row = b, basis = bs\<rparr>" \<tau> r rv] assms that by auto
  then show ?thesis
    by (auto simp: fetch_bounded_def input_of_def fetch_rows_def req_matches_def slice_def rev_filter
        intro!: arg_cong [where f = "map (\<lambda>r. Node r (rel r))"] filter_cong split: option.splits)
qed

lemma slice_fetch_eq:
  "input_of order rel L (default_request\<lparr>req_constraint := c\<rparr>) = Some (map (\<lambda>r. Node r (rel r)) (slice c L))"
  by (simp add: input_of_def fetch_rows_def default_request_def req_matches_def in_start_def slice_def)

section \<open>The invariant of a partition\<close>

abbreviation tk_order :: "take_cfg \<Rightarrow> sort_order" where
  "tk_order cfg \<equiv> schema_sort (tk_schema cfg)"

abbreviation tk_less :: "take_cfg \<Rightarrow> row \<Rightarrow> row \<Rightarrow> bool" where
  "tk_less cfg \<equiv> lt_by (make_comparator (tk_order cfg) False)"

definition cfg_ok :: "take_cfg \<Rightarrow> bool" where
  "cfg_ok cfg \<longleftrightarrow> tk_order cfg \<noteq> [] \<and> 0 < tk_limit cfg \<and> tk_limit cfg < 2 ^ 53"

definition state_for :: "take_cfg \<Rightarrow> col_types \<Rightarrow> row list \<Rightarrow> take_state \<Rightarrow> bool" where
  "state_for cfg \<tau> S ts \<longleftrightarrow>
     ts_size ts = min (tk_limit cfg) (length S) \<and>
     (case ts_bound ts of
        None \<Rightarrow> S = []
      | Some b \<Rightarrow> S \<noteq> [] \<and> b \<in> typed_rows \<tau> (tk_order cfg) \<and>
          take_cmp cfg b (last (take (tk_limit cfg) S)) = Some Equal)"

definition store_ok :: "take_cfg \<Rightarrow> col_types \<Rightarrow> storage \<Rightarrow> bool" where
  "store_ok cfg \<tau> st \<longleftrightarrow> storage_ok st \<and> max_bound_ok cfg \<tau> (get_max_bound st)"

definition slice_inv :: "take_cfg \<Rightarrow> col_types \<Rightarrow> string \<Rightarrow> row list \<Rightarrow> storage \<Rightarrow> bool" where
  "slice_inv cfg \<tau> key S st \<longleftrightarrow>
     store_ok cfg \<tau> st \<and> (\<exists>ts. get_take_state st key = Some (Some ts) \<and> state_for cfg \<tau> S ts)"

lemma cfg_ok_code [code]:
  "cfg_ok cfg \<longleftrightarrow> tk_order cfg \<noteq> [] \<and> 0 < tk_limit cfg \<and> int (tk_limit cfg) < 2 ^ 53"
proof -
  have "int (tk_limit cfg) < 2 ^ 53 \<longleftrightarrow> tk_limit cfg < 2 ^ 53" by (metis of_nat_less_iff of_nat_numeral of_nat_power)
  then show ?thesis by (simp only: cfg_ok_def)
qed

lemma max_bound_ok_code [code]:
  "max_bound_ok cfg \<tau> mb = (case mb of None \<Rightarrow> True | Some r \<Rightarrow> row_typed \<tau> (tk_order cfg) r)"
  by (auto simp: max_bound_ok_def typed_rows_mem split: option.splits)

lemma slice_inv_code [code]:
  "slice_inv cfg \<tau> key S st \<longleftrightarrow>
     store_ok cfg \<tau> st \<and>
     (case get_take_state st key of Some (Some ts) \<Rightarrow> state_for cfg \<tau> S ts | _ \<Rightarrow> False)"
  by (auto simp: slice_inv_def split: option.splits)

text \<open>The rows of the partition that a fetch shows, given the stored state and the hidden row.\<close>

definition shown :: "take_cfg \<Rightarrow> string \<Rightarrow> row list \<Rightarrow> storage \<Rightarrow> row option \<Rightarrow> row list" where
  "shown cfg key S st hidden =
     (case get_take_state st key of
        Some (Some ts) \<Rightarrow>
          (case ts_bound ts of
             None \<Rightarrow> []
           | Some b \<Rightarrow>
               filter (\<lambda>r. take_cmp cfg b r \<noteq> Some Less \<and>
                 (case hidden of None \<Rightarrow> True | Some h \<Rightarrow> take_cmp cfg h r \<noteq> Some Equal)) S)
      | _ \<Rightarrow> [])"

text \<open>
  A sequence of emissions carries one view to another, and at each emission a fetch shows exactly
  the view the consumer holds once it has applied that emission, of at most \<open>limit\<close> rows.
\<close>

definition readable :: "take_cfg \<Rightarrow> col_types \<Rightarrow> string \<Rightarrow> emission \<Rightarrow> bool" where
  "readable cfg \<tau> key e \<longleftrightarrow>
     (\<exists>ts. get_take_state (em_store e) key = Some (Some ts) \<and> max_bound_ok cfg \<tau> (ts_bound ts)) \<and>
     max_bound_ok cfg \<tau> (em_hidden e)"

fun emissions_ok ::
  "take_cfg \<Rightarrow> col_types \<Rightarrow> string \<Rightarrow> row list \<Rightarrow> row list \<Rightarrow> emission list \<Rightarrow> row list \<Rightarrow> bool" where
  "emissions_ok cfg \<tau> key S V [] V' \<longleftrightarrow> V' = V"
| "emissions_ok cfg \<tau> key S V (e # es) V' \<longleftrightarrow>
     readable cfg \<tau> key e \<and> length (shown cfg key S (em_store e) (em_hidden e)) \<le> tk_limit cfg \<and>
     apply_change \<tau> (tk_order cfg) (em_change e) V = Some (shown cfg key S (em_store e) (em_hidden e)) \<and>
     emissions_ok cfg \<tau> key S (shown cfg key S (em_store e) (em_hidden e)) es V'"

definition push_ok :: "take_cfg \<Rightarrow> col_types \<Rightarrow> string \<Rightarrow> row list \<Rightarrow> row list \<Rightarrow> push_result \<Rightarrow> bool" where
  "push_ok cfg \<tau> key S S' res \<longleftrightarrow>
     (\<exists>st' ems. res = Some (st', ems) \<and> slice_inv cfg \<tau> key S' st' \<and>
        emissions_ok cfg \<tau> key S' (take (tk_limit cfg) S) ems (take (tk_limit cfg) S'))"

lemma window_cases:
  assumes "view_ok \<tau> order S" "S \<noteq> []" "0 < n"
  obtains A m B where "S = A @ m # B" "take n S = A @ [m]" "B \<noteq> [] \<Longrightarrow> Suc (length A) = n" "Suc (length A) \<le> n"
    "m \<in> typed_rows \<tau> order" "set A \<subseteq> typed_rows \<tau> order" "set B \<subseteq> typed_rows \<tau> order"
    "\<And>a. a \<in> set A \<Longrightarrow> lt_by (make_comparator order False) a m"
    "\<And>b. b \<in> set B \<Longrightarrow> lt_by (make_comparator order False) m b"
proof -
  have "\<exists>A m B. S = A @ m # B \<and> take n S = A @ [m] \<and> (B \<noteq> [] \<longrightarrow> Suc (length A) = n) \<and> Suc (length A) \<le> n"
  proof (cases "length S \<le> n")
    case True
    then show ?thesis
      using assms(2) by (intro exI [of _ "butlast S"] exI [of _ "last S"] exI [of _ "[]"]) simp
  next
    case False
    then have "n - 1 < length S" by simp
    then have "S = take (n - 1) S @ S ! (n - 1) # drop n S"
      using id_take_nth_drop [of "n - 1" S] assms(3) by simp
    moreover have "take n S = take (n - 1) S @ [S ! (n - 1)]"
      using take_Suc_conv_app_nth [of "n - 1" S] assms(3) False by simp
    ultimately show ?thesis
      using False assms(3)
      by (intro exI [of _ "take (n - 1) S"] exI [of _ "S ! (n - 1)"] exI [of _ "drop n S"]) simp
  qed
  then obtain A m B where *: "S = A @ m # B" "take n S = A @ [m]" "B \<noteq> [] \<Longrightarrow> Suc (length A) = n"
    "Suc (length A) \<le> n" by blast
  with assms(1) show thesis
    by (intro that [of A m B]) (auto simp: view_ok_iff sorted_wrt_append)
qed

lemma typed_shown:
  assumes "view_ok \<tau> (tk_order cfg) S" "S \<noteq> []" "0 < tk_limit cfg" "b \<in> typed_rows \<tau> (tk_order cfg)"
    and "take_cmp cfg b (last (take (tk_limit cfg) S)) = Some Equal"
  shows "filter (\<lambda>r. take_cmp cfg b r \<noteq> Some Less) S = take (tk_limit cfg) S"
proof -
  obtain A m B where W: "S = A @ m # B" "take (tk_limit cfg) S = A @ [m]"
    using window_cases [OF assms(1-3)] by metis
  have "filter (\<lambda>r. take_cmp cfg b r \<noteq> Some Less) S = filter (\<lambda>r. le_by (make_comparator (tk_order cfg) False) r b) S"
  proof (rule filter_cong [OF refl])
    fix r assume "r \<in> set S"
    then have "r \<in> typed_rows \<tau> (tk_order cfg)" using assms(1) by (auto simp: view_ok_iff)
    then show "(take_cmp cfg b r \<noteq> Some Less) = le_by (make_comparator (tk_order cfg) False) r b"
      using row_cmp.not_lt [OF assms(4), of r] by (simp add: take_cmp_eq lt_by_def)
  qed
  also have "\<dots> = A @ [m]"
    using row_cmp.cut_at(1) [of b \<tau> "tk_order cfg" A m B] assms W by (simp add: view_ok_iff take_cmp_eq)
  finally show ?thesis using W by simp
qed

text \<open>Storing a bound at the end of the new window shows the new window.\<close>

lemma put_state:
  assumes cfg: "cfg_ok cfg" and st: "store_ok cfg \<tau> st" and key: "key \<noteq> max_bound_key"
    and S: "view_ok \<tau> (tk_order cfg) S" "S \<noteq> []" and n: "n = min (tk_limit cfg) (length S)"
    and nb: "nb \<in> typed_rows \<tau> (tk_order cfg)" "take_cmp cfg nb (last (take (tk_limit cfg) S)) = Some Equal"
  obtains st' where "set_take_state cfg st key n (Some nb) (get_max_bound st) = Some st'"
    "slice_inv cfg \<tau> key S st'" "shown cfg key S st' None = take (tk_limit cfg) S"
    "\<And>h. shown cfg key S st' (Some h) =
      filter (\<lambda>r. take_cmp cfg h r \<noteq> Some Equal) (take (tk_limit cfg) S)"
proof -
  have "n < 2 ^ 53" using cfg n by (simp add: cfg_ok_def min_less_iff_disj)
  moreover have "max_bound_ok cfg \<tau> (Some nb)" using nb by (simp add: max_bound_ok_def)
  ultimately obtain st' where st': "set_take_state cfg st key n (Some nb) (get_max_bound st) = Some st'"
    "storage_ok st'" "get_take_state st' key = Some (Some \<lparr>ts_size = n, ts_bound = Some nb\<rparr>)"
    "max_bound_ok cfg \<tau> (get_max_bound st')"
    using set_take_state_ok [of st key n cfg \<tau> "get_max_bound st" "Some nb"] st key
    by (auto simp: store_ok_def)
  have sh: "filter (\<lambda>r. take_cmp cfg nb r \<noteq> Some Less) S = take (tk_limit cfg) S"
    using typed_shown [OF S _ nb] cfg by (simp add: cfg_ok_def)
  show thesis
  proof (rule that [OF st'(1)])
    show "slice_inv cfg \<tau> key S st'"
      using st' S nb n by (simp add: slice_inv_def store_ok_def state_for_def)
    show "shown cfg key S st' None = take (tk_limit cfg) S"
      using st'(3) sh by (simp add: shown_def)
    show "shown cfg key S st' (Some h) = filter (\<lambda>r. take_cmp cfg h r \<noteq> Some Equal) (take (tk_limit cfg) S)" for h
      using st'(3) by (simp add: shown_def conj_commute flip: sh)
  qed
qed

lemma hide_one:
  assumes "view_ok \<tau> (tk_order cfg) V" "x \<in> set V"
  shows "set (filter (\<lambda>r. take_cmp cfg x r \<noteq> Some Equal) V) = set V - {x}"
    and "view_ok \<tau> (tk_order cfg) (filter (\<lambda>r. take_cmp cfg x r \<noteq> Some Equal) V)"
proof -
  have "x \<in> typed_rows \<tau> (tk_order cfg)" using assms by (auto simp: view_ok_iff)
  then show "set (filter (\<lambda>r. take_cmp cfg x r \<noteq> Some Equal) V) = set V - {x}"
    using view_ok_equal_eq [OF assms(1,2)] by (auto simp: take_cmp_eq)
qed (rule view_ok_filter [OF assms(1)])

text \<open>One emission, or a removal with the entering row hidden and then its addition.\<close>

lemma slice_inv_readable:
  "slice_inv cfg \<tau> key S st \<Longrightarrow> max_bound_ok cfg \<tau> hidden \<Longrightarrow> readable cfg \<tau> key (emit st hidden c)"
  by (auto simp: slice_inv_def state_for_def readable_def emit_def max_bound_ok_def split: option.splits)

lemma max_bound_ok_None [simp]: "max_bound_ok cfg \<tau> None"
  by (simp add: max_bound_ok_def)

lemma emit_one:
  assumes S: "view_ok \<tau> (tk_order cfg) S" "view_ok \<tau> (tk_order cfg) S'"
    and "change_set c (set (take (tk_limit cfg) S)) = Some (set (take (tk_limit cfg) S'))"
    and "shown cfg key S' st' None = take (tk_limit cfg) S'" "slice_inv cfg \<tau> key S' st'"
  shows "push_ok cfg \<tau> key S S' (Some (st', [emit st' None c]))"
  using apply_change_intro [OF view_ok_take [OF S(1)] view_ok_take [OF S(2)]] assms
    slice_inv_readable [OF assms(5), of None c]
  by (simp add: push_ok_def emit_def)

lemma emit_swap:
  assumes S: "view_ok \<tau> (tk_order cfg) S" "view_ok \<tau> (tk_order cfg) S'"
    and x: "node_row n = x" "x \<in> set (take (tk_limit cfg) S')" "x \<notin> set (take (tk_limit cfg) S)"
    and o': "node_row o' \<in> set (take (tk_limit cfg) S)"
    and sets: "set (take (tk_limit cfg) S') = insert x (set (take (tk_limit cfg) S) - {node_row o'})"
    and sh: "shown cfg key S' st' None = take (tk_limit cfg) S'"
      "shown cfg key S' st' (Some x) = filter (\<lambda>r. take_cmp cfg x r \<noteq> Some Equal) (take (tk_limit cfg) S')"
    and inv: "slice_inv cfg \<tau> key S' st'"
  shows "push_ok cfg \<tau> key S S' (Some (st', [emit st' (Some x) (Remove o'), emit st' None (Add n)]))"
proof -
  note V = view_ok_take [OF S(1), of "tk_limit cfg"] view_ok_take [OF S(2), of "tk_limit cfg"]
  have h: "set (shown cfg key S' st' (Some x)) = set (take (tk_limit cfg) S) - {node_row o'}"
    "view_ok \<tau> (tk_order cfg) (shown cfg key S' st' (Some x))"
    using hide_one [OF V(2) x(2)] sets x(3) unfolding sh(2) by auto
  have "apply_change \<tau> (tk_order cfg) (Remove o') (take (tk_limit cfg) S) = Some (shown cfg key S' st' (Some x))"
    using h o' by (intro apply_change_intro [OF V(1)]) auto
  moreover have "apply_change \<tau> (tk_order cfg) (Add n) (shown cfg key S' st' (Some x)) = Some (take (tk_limit cfg) S')"
    using h x sets by (intro apply_change_intro [OF h(2) V(2)]) auto
  moreover have "max_bound_ok cfg \<tau> (Some x)" using V(2) x(2) by (auto simp: view_ok_iff max_bound_ok_def)
  moreover have "length (shown cfg key S' st' (Some x)) \<le> tk_limit cfg"
    unfolding sh(2) by (rule order_trans [OF length_filter_le]) simp
  ultimately show ?thesis
    using sh(1) inv slice_inv_readable [OF inv, of "Some x" "Remove o'"] slice_inv_readable [OF inv, of None "Add n"]
    by (simp add: push_ok_def emit_def)
qed

text \<open>Two emissions, the first in the old state: a removal, then the row that moves up.\<close>

lemma emit_refill:
  assumes S: "view_ok \<tau> (tk_order cfg) S" "view_ok \<tau> (tk_order cfg) S'"
    and o': "node_row o' \<in> set (take (tk_limit cfg) S)" "node_row n \<notin> set (take (tk_limit cfg) S)"
    and sets: "set (take (tk_limit cfg) S') = insert (node_row n) (set (take (tk_limit cfg) S) - {node_row o'})"
    and st: "set (shown cfg key S' st None) = set (take (tk_limit cfg) S) - {node_row o'}"
      "view_ok \<tau> (tk_order cfg) (shown cfg key S' st None)"
    and sh: "shown cfg key S' st' None = take (tk_limit cfg) S'"
    and inv: "slice_inv cfg \<tau> key S' st'" and old: "slice_inv cfg \<tau> key S st"
  shows "push_ok cfg \<tau> key S S' (Some (st', [emit st None (Remove o'), emit st' None (Add n)]))"
proof -
  note V = view_ok_take [OF S(1), of "tk_limit cfg"] view_ok_take [OF S(2), of "tk_limit cfg"]
  have "apply_change \<tau> (tk_order cfg) (Remove o') (take (tk_limit cfg) S) = Some (shown cfg key S' st None)"
    using st o' by (intro apply_change_intro [OF V(1)]) auto
  moreover have "apply_change \<tau> (tk_order cfg) (Add n) (shown cfg key S' st None) = Some (take (tk_limit cfg) S')"
    using st o' sets by (intro apply_change_intro [OF st(2) V(2)]) auto
  moreover have "length (shown cfg key S' st None) \<le> tk_limit cfg"
  proof -
    have "shown cfg key S' st None = remove1 (node_row o') (take (tk_limit cfg) S)"
      using calculation(1) by (auto simp: apply_change_def option_mono split: if_splits)
    then show ?thesis by (auto simp: length_remove1 min_def)
  qed
  ultimately show ?thesis
    using sh(1) inv slice_inv_readable [OF old, of None "Remove o'"] slice_inv_readable [OF inv, of None "Add n"]
    by (simp add: push_ok_def emit_def)
qed

lemma emit_none:
  "slice_inv cfg \<tau> key S' st \<Longrightarrow> take (tk_limit cfg) S' = take (tk_limit cfg) S \<Longrightarrow>
   push_ok cfg \<tau> key S S' (Some (st, []))"
  by (simp add: push_ok_def)

lemma slice_inv_same_window:
  "slice_inv cfg \<tau> key S st \<Longrightarrow> S \<noteq> [] \<Longrightarrow> S' \<noteq> [] \<Longrightarrow> take (tk_limit cfg) S' = take (tk_limit cfg) S \<Longrightarrow>
   min (tk_limit cfg) (length S') = min (tk_limit cfg) (length S) \<Longrightarrow> slice_inv cfg \<tau> key S' st"
  by (auto simp: slice_inv_def state_for_def split: option.splits)

text \<open>Bounded fetches at a row of the partition, and at a bound whose row has gone.\<close>

lemma fetch_at_row:
  assumes "tk_order cfg \<noteq> []" "b \<in> typed_rows \<tau> (tk_order cfg)" "view_ok \<tau> (tk_order cfg) L"
    and "slice c L = P @ m # Q" "take_cmp cfg b m = Some Equal"
  shows "fetch_bounded (input_of (tk_order cfg) rel L) b At c False = Some (map (\<lambda>r. Node r (rel r)) (m # Q))"
    "fetch_bounded (input_of (tk_order cfg) rel L) b After c False = Some (map (\<lambda>r. Node r (rel r)) Q)"
    "fetch_bounded (input_of (tk_order cfg) rel L) b At c True = Some (map (\<lambda>r. Node r (rel r)) (m # rev P))"
    "fetch_bounded (input_of (tk_order cfg) rel L) b After c True = Some (map (\<lambda>r. Node r (rel r)) (rev P))"
proof -
  have L: "set L \<subseteq> typed_rows \<tau> (tk_order cfg)" using assms(3) by (simp add: view_ok_iff)
  have "view_ok \<tau> (tk_order cfg) (P @ m # Q)"
    using view_ok_filter [OF assms(3)] assms(4) by (metis slice_def)
  then have "set (P @ m # Q) \<subseteq> typed_rows \<tau> (tk_order cfg)" "sorted_wrt (tk_less cfg) (P @ m # Q)"
    by (auto simp: view_ok_iff)
  note cut = row_cmp.cut_at [OF assms(2) this assms(5) [unfolded take_cmp_eq]]
  show "fetch_bounded (input_of (tk_order cfg) rel L) b At c False = Some (map (\<lambda>r. Node r (rel r)) (m # Q))"
    "fetch_bounded (input_of (tk_order cfg) rel L) b After c False = Some (map (\<lambda>r. Node r (rel r)) Q)"
    "fetch_bounded (input_of (tk_order cfg) rel L) b At c True = Some (map (\<lambda>r. Node r (rel r)) (m # rev P))"
    "fetch_bounded (input_of (tk_order cfg) rel L) b After c True = Some (map (\<lambda>r. Node r (rel r)) (rev P))"
    by (simp_all only: fetch_bounded_eq [OF assms(1,2) L] assms(4) if_True if_False simp_thms start_basis.distinct cut rev.simps rev_append append_Nil append_Cons)
qed

lemma fetch_at_gap:
  assumes "tk_order cfg \<noteq> []" "b \<in> typed_rows \<tau> (tk_order cfg)" "view_ok \<tau> (tk_order cfg) L"
    and "slice c L = P @ Q" "\<And>p. p \<in> set P \<Longrightarrow> tk_less cfg p b" "\<And>q. q \<in> set Q \<Longrightarrow> tk_less cfg b q"
  shows "fetch_bounded (input_of (tk_order cfg) rel L) b bs c False = Some (map (\<lambda>r. Node r (rel r)) Q)"
    "fetch_bounded (input_of (tk_order cfg) rel L) b bs c True = Some (map (\<lambda>r. Node r (rel r)) (rev P))"
proof -
  have L: "set L \<subseteq> typed_rows \<tau> (tk_order cfg)" using assms(3) by (simp add: view_ok_iff)
  then have "set P \<subseteq> typed_rows \<tau> (tk_order cfg)" "set Q \<subseteq> typed_rows \<tau> (tk_order cfg)"
    using arg_cong [OF assms(4), of set] by (auto simp: slice_def)
  note cut = row_cmp.cut_between [OF assms(2) this assms(5,6)]
  show "fetch_bounded (input_of (tk_order cfg) rel L) b bs c False = Some (map (\<lambda>r. Node r (rel r)) Q)"
    "fetch_bounded (input_of (tk_order cfg) rel L) b bs c True = Some (map (\<lambda>r. Node r (rel r)) (rev P))"
    by (cases bs; simp only: fetch_bounded_eq [OF assms(1,2) L] assms(4) if_True if_False simp_thms start_basis.distinct cut)+
qed

lemma sorted_wrt_last: "sorted_wrt R xs \<Longrightarrow> x \<in> set xs \<Longrightarrow> x = last xs \<or> R x (last xs)"
  by (induction xs) auto

lemma nth_opt_simps [simp]:
  "nth_opt 0 (x # xs) = Some x" "nth_opt (Suc i) (x # xs) = nth_opt i xs" "nth_opt i [] = None"
  "nth_opt 0 (map f xs) = (if xs = [] then None else Some (f (hd xs)))"
  by (auto simp: nth_opt_def hd_conv_nth)

section \<open>Adding a row\<close>

lemma add_view:
  assumes S: "view_ok \<tau> order S" and c: "apply_change \<tau> order (Add node) S = Some S'"
  shows "node_row node \<notin> set S" "S' = ins_by (make_comparator order False) (node_row node) S"
    "view_ok \<tau> order S'" "node_row node \<in> typed_rows \<tau> order"
    "\<And>r. r \<in> set S \<Longrightarrow> make_comparator order False (node_row node) r \<noteq> Some Equal"
proof -
  show *: "node_row node \<notin> set S" "S' = ins_by (make_comparator order False) (node_row node) S"
    "view_ok \<tau> order S'"
    using c by (auto simp: apply_change_def option_mono split: if_splits)
  then show "node_row node \<in> typed_rows \<tau> order" by (auto simp: view_ok_iff)
  show "make_comparator order False (node_row node) r \<noteq> Some Equal" if "r \<in> set S" for r
    using view_ok_equal_eq [OF *(3), of "node_row node" r] * that by auto
qed

lemma add_empty_ok:
  assumes cfg: "cfg_ok cfg" and st: "store_ok cfg \<tau> st" and key: "key \<noteq> max_bound_key"
    and ts: "ts_bound ts = None" "ts_size ts = 0"
    and c: "apply_change \<tau> (tk_order cfg) (Add node) [] = Some S'"
  shows "push_ok cfg \<tau> key [] S' (push_add cfg input st node ts key (get_max_bound st) c)"
proof -
  let ?x = "node_row node" and ?n = "tk_limit cfg"
  note add = add_view [OF view_ok_Nil c]
  have n: "0 < ?n" using cfg by (simp add: cfg_ok_def)
  have S': "S' = [?x]" and t: "take ?n S' = [?x]" using add n by (auto simp: take_Cons')
  have "S' \<noteq> []" "1 = min ?n (length S')" "take_cmp cfg ?x (last (take ?n S')) = Some Equal"
    using S' t n add(4) by (auto simp: take_cmp_eq)
  then obtain st' where st': "set_take_state cfg st key 1 (Some ?x) (get_max_bound st) = Some st'"
      "slice_inv cfg \<tau> key S' st'" "shown cfg key S' st' None = take ?n S'"
    using put_state [OF cfg st key add(3)] add(4) by metis
  have "push_ok cfg \<tau> key [] S' (Some (st', [emit st' None (Add node)]))"
    using st' t by (intro emit_one [OF view_ok_Nil add(3)]) auto
  with st' ts n show ?thesis by (simp add: push_add_def)
qed

text \<open>A non-empty partition \<open>A @ m # B\<close> with window \<open>A @ [m]\<close> and a bound that is in the place of \<open>m\<close>.\<close>

definition window_ctx where
  "window_ctx cfg \<tau> key st ts S A m B b \<longleftrightarrow>
     cfg_ok cfg \<and> store_ok cfg \<tau> st \<and> key \<noteq> max_bound_key \<and>
     get_take_state st key = Some (Some ts) \<and> view_ok \<tau> (tk_order cfg) S \<and>
     S = A @ m # B \<and> take (tk_limit cfg) S = A @ [m] \<and>
     (B \<noteq> [] \<longrightarrow> Suc (length A) = tk_limit cfg) \<and> Suc (length A) \<le> tk_limit cfg \<and>
     ts_size ts = Suc (length A) \<and>
     ts_bound ts = Some b \<and> b \<in> typed_rows \<tau> (tk_order cfg) \<and> take_cmp cfg b m = Some Equal"

lemma window_ctx_intro:
  assumes "cfg_ok cfg" "store_ok cfg \<tau> st" "key \<noteq> max_bound_key" "get_take_state st key = Some (Some ts)"
    and "state_for cfg \<tau> S ts" "view_ok \<tau> (tk_order cfg) S" "S \<noteq> []"
  obtains A m B b where "window_ctx cfg \<tau> key st ts S A m B b"
proof -
  have n: "0 < tk_limit cfg" using assms by (simp add: cfg_ok_def)
  obtain A m B where W: "S = A @ m # B" "take (tk_limit cfg) S = A @ [m]"
    "B \<noteq> [] \<Longrightarrow> Suc (length A) = tk_limit cfg" "Suc (length A) \<le> tk_limit cfg"
    using window_cases [OF assms(6,7) n] by metis
  moreover obtain b where "ts_bound ts = Some b" "b \<in> typed_rows \<tau> (tk_order cfg)" "take_cmp cfg b m = Some Equal"
    using assms(5,7) W(2) by (auto simp: state_for_def split: option.splits)
  moreover have "ts_size ts = Suc (length A)"
  proof -
    have "length (take (tk_limit cfg) S) = Suc (length A)" using W(2) by simp
    then show ?thesis using assms(5) by (simp add: state_for_def min.commute)
  qed
  ultimately have "window_ctx cfg \<tau> key st ts S A m B b"
    using assms by (simp add: window_ctx_def)
  then show thesis by (rule that)
qed

lemma window_ctxD:
  assumes "window_ctx cfg \<tau> key st ts S A m B b"
  shows "cfg_ok cfg" "store_ok cfg \<tau> st" "key \<noteq> max_bound_key" "view_ok \<tau> (tk_order cfg) S"
    "S = A @ m # B" "take (tk_limit cfg) S = A @ [m]" "B \<noteq> [] \<Longrightarrow> tk_limit cfg = Suc (length A)"
    "Suc (length A) \<le> tk_limit cfg" "ts_size ts = Suc (length A)" "ts_bound ts = Some b"
    "b \<in> typed_rows \<tau> (tk_order cfg)" "take_cmp cfg b m = Some Equal"
    "m \<in> typed_rows \<tau> (tk_order cfg)" "set A \<subseteq> typed_rows \<tau> (tk_order cfg)"
    "set B \<subseteq> typed_rows \<tau> (tk_order cfg)" "tk_order cfg \<noteq> []" "Suc (length A) < 2 ^ 53"
    "slice_inv cfg \<tau> key S st"
proof -
  show "slice_inv cfg \<tau> key S st"
    using assms by (auto simp: window_ctx_def slice_inv_def state_for_def min_def)
qed (use assms in \<open>auto simp: window_ctx_def view_ok_iff cfg_ok_def\<close>)

lemma window_ctx_less:
  assumes "window_ctx cfg \<tau> key st ts S A m B b"
  shows "a \<in> set A \<Longrightarrow> tk_less cfg a m" and "q \<in> set B \<Longrightarrow> tk_less cfg m q"
  using window_ctxD(4,5) [OF assms] by (auto simp: view_ok_iff sorted_wrt_append)

text \<open>Comparisons with the bound are comparisons with the last row of the window.\<close>

lemma window_ctx_cmp:
  assumes "window_ctx cfg \<tau> key st ts S A m B b" "r \<in> typed_rows \<tau> (tk_order cfg)"
  shows "take_cmp cfg r b = take_cmp cfg r m" and "take_cmp cfg b r = take_cmp cfg m r"
  using row_cmp.cmp_equal_cong [OF window_ctxD(11,13) [OF assms(1)] assms(2)] window_ctxD(12) [OF assms(1)]
  by (auto simp: take_cmp_eq)

lemma add_room_ok:
  assumes W: "window_ctx cfg \<tau> key st ts S A m B b" and room: "ts_size ts < tk_limit cfg"
    and c: "apply_change \<tau> (tk_order cfg) (Add node) S = Some S'"
  shows "push_ok cfg \<tau> key S S' (push_add cfg input st node ts key (get_max_bound st) c)"
proof -
  let ?x = "node_row node" and ?n = "tk_limit cfg"
  note D = window_ctxD [OF W] and add = add_view [OF window_ctxD(4) [OF W] c]
  have B: "B = []" using D(7,9) room by auto
  then have S: "S = A @ [m]" "last S = m" "S \<noteq> []" "length S = Suc (length A)" using D(5) by auto
  have t: "take ?n S' = S'" "take ?n S = S" "min ?n (length S') = Suc (ts_size ts)"
    using add(2) S room D(9) by auto
  have l: "last S' = (if tk_less cfg m ?x then ?x else m)"
    using row_cmp.last_ins_by [of ?x \<tau> "tk_order cfg" S] add S(2,3) D(4) by (simp add: view_ok_iff)
  define nb where "nb = (if tk_less cfg m ?x then ?x else b)"
  have nb: "nb \<in> typed_rows \<tau> (tk_order cfg)" "take_cmp cfg nb (last (take ?n S')) = Some Equal"
    using l t D(11,12) add(4) by (auto simp: nb_def take_cmp_eq)
  have bx: "take_cmp cfg b ?x = take_cmp cfg m ?x" by (rule window_ctx_cmp [OF W add(4)])
  have "take_cmp cfg m ?x \<noteq> None" using row_cmp.total [OF D(13) add(4)] by (simp add: take_cmp_eq)
  then obtain o' where o': "take_cmp cfg b ?x = Some o'" "(if o' = Less then ?x else b) = nb"
    unfolding bx by (auto simp: nb_def take_cmp_eq lt_by_def)
  have "S' \<noteq> []" using add(2) by simp
  then obtain st' where st': "set_take_state cfg st key (Suc (ts_size ts)) (Some nb) (get_max_bound st) = Some st'"
      "slice_inv cfg \<tau> key S' st'" "shown cfg key S' st' None = take ?n S'"
    using put_state [OF D(1-3) add(3) _ _ nb] t(3) by metis
  have "push_ok cfg \<tau> key S S' (Some (st', [emit st' None (Add node)]))"
    using st' t add by (intro emit_one [OF D(4) add(3)]) auto
  with st' room o' D(9,10,17) show ?thesis by (simp add: push_add_def Let_def)
qed

lemma add_after_ok:
  assumes W: "window_ctx cfg \<tau> key st ts S A m B b" and full: "\<not> ts_size ts < tk_limit cfg"
    and x: "tk_less cfg m (node_row node)"
    and c: "apply_change \<tau> (tk_order cfg) (Add node) S = Some S'"
  shows "push_ok cfg \<tau> key S S' (push_add cfg input st node ts key (get_max_bound st) c)"
proof -
  let ?x = "node_row node" and ?n = "tk_limit cfg" and ?c = "make_comparator (tk_order cfg) False"
  note D = window_ctxD [OF W] and add = add_view [OF window_ctxD(4) [OF W] c]
  have n: "?n = Suc (length A)" using D(8,9) full by simp
  have less: "tk_less cfg a ?x" if "a \<in> set (A @ [m])" for a
    using that x window_ctx_less(1) [OF W, of a] D(13,14) add(4)
      row_cmp.lt_trans [of a \<tau> "tk_order cfg" m ?x] by auto
  have "S' = (A @ [m]) @ ins_by ?c ?x B"
    unfolding add(2) D(5) using row_cmp.ins_by_append_gt [OF add(4) _ less, of "A @ [m]" B] D(13,14) by simp
  then have t: "take ?n S' = take ?n S" "S' \<noteq> []" "min ?n (length S') = min ?n (length S)"
    using n D(5,6) by auto
  have "take_cmp cfg ?x b = Some Greater"
    using window_ctx_cmp(1) [OF W add(4)] row_cmp.gt_iff [OF add(4) D(13)] x by (simp add: take_cmp_eq)
  moreover have "push_ok cfg \<tau> key S S' (Some (st, []))"
    using slice_inv_same_window [OF D(18)] D(5) t by (intro emit_none) auto
  ultimately show ?thesis using full D(10) by (simp add: push_add_def)
qed

lemma add_inside_ok:
  assumes W: "window_ctx cfg \<tau> key st ts S A m B b" and full: "\<not> ts_size ts < tk_limit cfg"
    and x: "tk_less cfg (node_row node) m" and L: "view_ok \<tau> (tk_order cfg) L'"
    and c: "apply_change \<tau> (tk_order cfg) (Add node) S = Some (slice c L')"
  shows "push_ok cfg \<tau> key S (slice c L')
    (push_add cfg (input_of (tk_order cfg) rel L') st node ts key (get_max_bound st) c)"
proof -
  let ?x = "node_row node" and ?n = "tk_limit cfg" and ?c = "make_comparator (tk_order cfg) False"
  let ?S' = "slice c L'" and ?A' = "ins_by (make_comparator (tk_order cfg) False) (node_row node) A"
  note D = window_ctxD [OF W] and add = add_view [OF window_ctxD(4) [OF W] c]
  have n: "?n = Suc (length A)" using D(8,9) full by simp
  have S': "?S' = ?A' @ m # B"
    unfolding add(2) D(5) by (rule row_cmp.ins_by_append_lt [OF add(4) D(13,14) x])
  have t: "take ?n ?S' = ?A'" "take ?n S = A @ [m]" "ts_size ts = min ?n (length ?S')" "?S' \<noteq> []"
    using S' n D(6,9) by auto
  have typed: "last ?A' \<in> typed_rows \<tau> (tk_order cfg)"
    using D(14) add(4) last_in_set [OF ins_by_neq_Nil, of ?c ?x A] by (simp only: set_ins_by) auto
  have "sorted_wrt (tk_less cfg) ?A'" using add(3) S' by (simp add: view_ok_iff sorted_wrt_append)
  then have le: "take_cmp cfg ?x (last ?A') \<noteq> Some Greater" "take_cmp cfg ?x (last ?A') \<noteq> None"
    using sorted_wrt_last [of "tk_less cfg" ?A' ?x] add(4) by (auto simp: take_cmp_eq lt_by_def)
  have nb: "take_cmp cfg (last ?A') (last (take ?n ?S')) = Some Equal"
    using typed t(1) by (simp add: take_cmp_eq)
  obtain st' where st': "set_take_state cfg st key (ts_size ts) (Some (last ?A')) (get_max_bound st) = Some st'"
    "slice_inv cfg \<tau> key ?S' st'" "shown cfg key ?S' st' None = take ?n ?S'"
    "shown cfg key ?S' st' (Some ?x) = filter (\<lambda>r. take_cmp cfg ?x r \<noteq> Some Equal) (take ?n ?S')"
    using put_state [OF D(1-3) add(3) t(4,3) typed nb] by metis
  have ok: "push_ok cfg \<tau> key S ?S' (Some (st', [emit st' (Some ?x) (Remove (Node m (rel m))), emit st' None (Add node)]))"
  proof (rule emit_swap [OF D(4) add(3) refl])
    have "m \<notin> set A" using view_ok_distinct [OF D(4)] D(5) by simp
    then show "set (take ?n ?S') = insert ?x (set (take ?n S) - {node_row (Node m (rel m))})"
      using t by auto
  qed (use st' t add(1) D(5) in auto)
  have cmp: "take_cmp cfg ?x b = Some Less"
    using window_ctx_cmp(1) [OF W add(4)] x by (simp add: take_cmp_eq lt_by_def)
  note fetch = fetch_at_row [OF D(16,11) L S' D(12), of rel]
  show ?thesis
  proof (cases "?n = 1")
    case True
    then have "last ?A' = ?x" using n by simp
    with True ok st' cmp full D(10) fetch show ?thesis by (simp add: push_add_def)
  next
    case False
    obtain o' where "take_cmp cfg ?x (last ?A') = Some o'" "o' \<noteq> Greater" using le by auto
    with False ok st' cmp full D(10) fetch show ?thesis by (simp add: push_add_def hd_rev)
  qed
qed

lemma push_add_ok:
  assumes cfg: "cfg_ok cfg" and st: "store_ok cfg \<tau> st" and key: "key \<noteq> max_bound_key"
    and get: "get_take_state st key = Some (Some ts)" and ts: "state_for cfg \<tau> S ts"
    and S: "view_ok \<tau> (tk_order cfg) S" and L: "view_ok \<tau> (tk_order cfg) L'"
    and c: "apply_change \<tau> (tk_order cfg) (Add node) S = Some (slice c L')"
  shows "push_ok cfg \<tau> key S (slice c L')
    (push_add cfg (input_of (tk_order cfg) rel L') st node ts key (get_max_bound st) c)"
proof (cases "S = []")
  case True
  then show ?thesis
    using ts c by (auto simp: state_for_def split: option.splits intro!: add_empty_ok [OF cfg st key])
next
  case False
  obtain A m B b where W: "window_ctx cfg \<tau> key st ts S A m B b"
    by (rule window_ctx_intro [OF cfg st key get ts S False])
  note D = window_ctxD [OF W] and add = add_view [OF S c]
  have "tk_less cfg (node_row node) m \<or> tk_less cfg m (node_row node)"
    using row_cmp.lt_or_eq_or_gt [OF add(4) D(13)] add(5) [of m] D(5) by auto
  then show ?thesis
    using add_room_ok [OF W _ c] add_after_ok [OF W _ _ c] add_inside_ok [OF W _ _ L c] by blast
qed

section \<open>Removing a row\<close>

lemma remove_view:
  assumes "apply_change \<tau> order (Remove node) S = Some S'"
  shows "node_row node \<in> set S" "S' = remove1 (node_row node) S" "view_ok \<tau> order S'"
  using assms by (auto simp: apply_change_def option_mono split: if_splits)

text \<open>The row that the search of \<open>push_remove\<close> ends with, over \<open>P\<close> in the window and \<open>B\<close> past it.\<close>

definition refill :: "(row \<Rightarrow> (string \<times> node list) list) \<Rightarrow> row list \<Rightarrow> row list \<Rightarrow> (node \<times> bool) option" where
  "refill rel P B =
     (if B \<noteq> [] then Some (Node (hd B) (rel (hd B)), True)
      else if P = [] then None else Some (Node (last P) (rel (last P)), False))"

lemma scan_past_bound:
  assumes "\<And>q. q \<in> set B \<Longrightarrow> take_cmp cfg q b = Some Greater"
  shows "scan_candidates cfg b nb (map (\<lambda>r. Node r (rel r)) B) =
    Some (if B = [] then nb else Some (Node (hd B) (rel (hd B)), True))"
  using assms by (cases B) auto

lemma push_remove_search:
  assumes W: "window_ctx cfg \<tau> key st ts S A m B b" and L: "view_ok \<tau> (tk_order cfg) L'"
    and x: "x \<in> set (A @ [m])" and S': "slice c L' = remove1 x (A @ [m]) @ B"
  obtains before candidates nb0 where
    "fetch_bounded (input_of (tk_order cfg) rel L') b After c True = Some before"
    "fetch_bounded (input_of (tk_order cfg) rel L') b At c False = Some candidates"
    "(case nth_opt 0 before of None \<Rightarrow> Some None
      | Some bn \<Rightarrow> do { o2 \<leftarrow> take_cmp cfg (node_row bn) b; Some (Some (bn, o2 = Greater)) }) = Some nb0"
    "\<And>bn. nb0 \<noteq> Some (bn, True)"
    "scan_candidates cfg b nb0 candidates = Some (refill rel (remove1 x (A @ [m])) B)"
proof -
  note D = window_ctxD [OF W]
  have mA: "m \<notin> set A" using view_ok_distinct [OF D(4)] D(5) by simp
  have below: "take_cmp cfg a b = Some Less" if "a \<in> set A" for a
    using window_ctx_cmp(1) [OF W, of a] window_ctx_less(1) [OF W that] D(14) that
    by (auto simp: take_cmp_eq lt_by_def)
  have above: "take_cmp cfg q b = Some Greater" "take_cmp cfg b q = Some Less" if "q \<in> set B" for q
    using window_ctx_cmp [OF W, of q] window_ctx_less(2) [OF W that] D(13,15) that
      row_cmp.gt_iff [of q \<tau> "tk_order cfg" m] by (auto simp: take_cmp_eq lt_by_def)
  have hd_in: "hd (rev X) \<in> set A" if "set X \<subseteq> set A" "X \<noteq> []" for X
    using that by (simp add: hd_rev) (metis last_in_set subsetD)
  show thesis
  proof (cases "x = m")
    case True
    then have P: "remove1 x (A @ [m]) = A" using mA by (simp add: remove1_append)
    note f = fetch_at_gap [OF D(16,11) L S' [unfolded P], of rel]
    show thesis
      using f below above scan_past_bound [of B cfg b _ rel] hd_in [of A] P
      by (intro that [of _ _ "if A = [] then None else Some (Node (last A) (rel (last A)), False)"])
        (auto simp: take_cmp_eq lt_by_def hd_rev refill_def)
  next
    case False
    with x have P: "remove1 x (A @ [m]) = remove1 x A @ [m]" by (simp add: remove1_append)
    have "slice c L' = remove1 x A @ m # B" using S' P by simp
    note f = fetch_at_row [OF D(16,11) L this D(12), of rel]
    have bm: "take_cmp cfg m b = Some Equal"
      using window_ctx_cmp(1) [OF W D(13)] D(13) by (simp add: take_cmp_eq)
    let ?X = "remove1 x A"
    show thesis
      using f below above scan_past_bound [of B cfg b _ rel] hd_in [of ?X] P bm
        set_remove1_subset [of x A]
      by (intro that [of _ _ "if ?X = [] then None else Some (Node (last ?X) (rel (last ?X)), False)"])
        (auto simp: hd_rev refill_def)
  qed
qed

definition remove_finish ::
  "take_cfg \<Rightarrow> storage \<Rightarrow> node \<Rightarrow> take_state \<Rightarrow> string \<Rightarrow> (node \<times> bool) option \<Rightarrow> push_result" where
  "remove_finish cfg st node ts key nb =
     (case nb of
        Some (n, True) \<Rightarrow>
          do {
            st' \<leftarrow> set_take_state cfg st key (ts_size ts) (Some (node_row n)) (get_max_bound st);
            Some (st', [emit st None (Remove node), emit st' None (Add n)])
          }
      | other \<Rightarrow>
          do {
            st' \<leftarrow> set_take_state cfg st key (usize_sub (ts_size ts) 1)
              (map_option (\<lambda>(n, _). node_row n) other) (get_max_bound st);
            Some (st', [emit st' None (Remove node)])
          })"

text \<open>In the old state a fetch shows what is left of the old window.\<close>

lemma shown_old_state:
  assumes W: "window_ctx cfg \<tau> key st ts S A m B b"
    and P: "\<And>p. p \<in> set P \<Longrightarrow> p \<in> typed_rows \<tau> (tk_order cfg) \<and> \<not> tk_less cfg m p"
    and Q: "\<And>q. q \<in> set Q \<Longrightarrow> q \<in> typed_rows \<tau> (tk_order cfg) \<and> tk_less cfg m q"
  shows "shown cfg key (P @ Q) st None = P"
proof -
  have "get_take_state st key = Some (Some ts)" "ts_bound ts = Some b"
    using W by (simp_all add: window_ctx_def)
  then have "shown cfg key (P @ Q) st None = filter (\<lambda>r. take_cmp cfg b r \<noteq> Some Less) (P @ Q)"
    by (simp add: shown_def)
  also have "\<dots> = filter (\<lambda>r. take_cmp cfg m r \<noteq> Some Less) (P @ Q)"
    by (rule filter_cong [OF refl]) (use P Q window_ctx_cmp(2) [OF W] in auto)
  finally show ?thesis using P Q by (auto simp: lt_by_def take_cmp_eq filter_empty_conv filter_id_conv)
qed

lemma window_rows:
  assumes W: "window_ctx cfg \<tau> key st ts S A m B b"
  shows "p \<in> set (A @ [m]) \<Longrightarrow> p \<in> typed_rows \<tau> (tk_order cfg) \<and> \<not> tk_less cfg m p"
    and "q \<in> set B \<Longrightarrow> q \<in> typed_rows \<tau> (tk_order cfg) \<and> tk_less cfg m q"
  using window_ctxD(13-15) [OF W] window_ctx_less [OF W] row_cmp.lt_asym [of _ \<tau> "tk_order cfg" m]
  by (fastforce simp: row_cmp.lt_irrefl)+

lemma remove_refill_ok:
  assumes W: "window_ctx cfg \<tau> key st ts S A m B b" and L: "view_ok \<tau> (tk_order cfg) L'"
    and x: "node_row node \<in> set (A @ [m])" and S': "slice c L' = remove1 (node_row node) (A @ [m]) @ B"
    and V: "view_ok \<tau> (tk_order cfg) (slice c L')" and B: "B \<noteq> []"
  shows "push_ok cfg \<tau> key S (slice c L')
    (remove_finish cfg st node ts key (refill rel (remove1 (node_row node) (A @ [m])) B))"
proof -
  let ?x = "node_row node" and ?n = "tk_limit cfg" and ?S' = "slice c L'" and ?P = "remove1 (node_row node) (A @ [m])"
  note D = window_ctxD [OF W]
  have dist: "distinct (A @ m # B)" using view_ok_distinct [OF D(4)] D(5) by simp
  have len: "length ?P = length A" using x by (simp add: length_remove1)
  have n: "?n = Suc (length A)" using D(7) B by auto
  have t: "take ?n ?S' = ?P @ [hd B]" "?S' \<noteq> []" "ts_size ts = min ?n (length ?S')"
    using S' n len D(9) B by (cases B; simp)+
  have hd: "hd B \<in> set B" "hd B \<in> typed_rows \<tau> (tk_order cfg)" using B D(15) by (auto simp: subset_eq)
  obtain st' where st': "set_take_state cfg st key (ts_size ts) (Some (hd B)) (get_max_bound st) = Some st'"
    "slice_inv cfg \<tau> key ?S' st'" "shown cfg key ?S' st' None = take ?n ?S'"
    using put_state [OF D(1-3) V t(2,3) hd(2)] t(1) hd(2) by (metis last_snoc row_cmp.refl take_cmp_eq)
  have old: "shown cfg key ?S' st None = ?P"
    unfolding S' using window_rows [OF W] set_remove1_subset [of ?x "A @ [m]"]
    by (intro shown_old_state [OF W]) blast+
  have sP: "set ?P = set (A @ [m]) - {?x}" using dist by (subst set_remove1_eq) auto
  have "push_ok cfg \<tau> key S ?S' (Some (st', [emit st None (Remove node), emit st' None (Add (Node (hd B) (rel (hd B))))]))"
  proof (rule emit_refill [OF D(4) V])
    show "view_ok \<tau> (tk_order cfg) (shown cfg key ?S' st None)"
      using V [unfolded S'] unfolding old by (auto simp: view_ok_iff sorted_wrt_append)
  qed (use old sP t(1) D(6,18) x hd(1) dist st' in auto)
  with st' B show ?thesis by (simp add: remove_finish_def refill_def)
qed

lemma remove_shrink_ok:
  assumes W: "window_ctx cfg \<tau> key st ts S A m B b"
    and x: "node_row node \<in> set (A @ [m])" and S': "S' = remove1 (node_row node) (A @ [m]) @ B"
    and V: "view_ok \<tau> (tk_order cfg) S'" and B: "B = []"
  shows "push_ok cfg \<tau> key S S'
    (remove_finish cfg st node ts key (refill rel (remove1 (node_row node) (A @ [m])) B))"
proof -
  let ?x = "node_row node" and ?n = "tk_limit cfg"
  note D = window_ctxD [OF W]
  have dist: "distinct (A @ [m])" using view_ok_distinct [OF D(4)] D(5) B by simp
  have len: "length S' = length A" using x S' B by (simp add: length_remove1)
  have t: "take ?n S' = S'" "usize_sub (ts_size ts) (Suc 0) = min ?n (length S')" using len D(8,9,17) by auto
  have sets: "set S' = set (A @ [m]) - {?x}" using dist S' B by (subst S', subst B) (simp add: set_remove1_eq)
  define nb where "nb = (if S' = [] then None else Some (last S'))"
  obtain st' where st': "set_take_state cfg st key (length A) nb (get_max_bound st) = Some st'"
    "slice_inv cfg \<tau> key S' st'" "shown cfg key S' st' None = take ?n S'"
  proof (cases "S' = []")
    case True
    obtain st' where "set_take_state cfg st key 0 None (get_max_bound st) = Some st'" "storage_ok st'"
      "get_take_state st' key = Some (Some \<lparr>ts_size = 0, ts_bound = None\<rparr>)" "max_bound_ok cfg \<tau> (get_max_bound st')"
      using set_take_state_ok [of st key 0 cfg \<tau> "get_max_bound st" None] D(2,3) by (auto simp: store_ok_def)
    with True len show thesis
      by (intro that [of st']) (auto simp: nb_def slice_inv_def store_ok_def state_for_def shown_def)
  next
    case False
    then have l: "last S' \<in> typed_rows \<tau> (tk_order cfg)" using V by (auto simp: view_ok_iff subset_eq)
    have "length A = min ?n (length S')" using len D(8) by simp
    moreover have "take_cmp cfg (last S') (last (take ?n S')) = Some Equal" using t(1) l by (simp add: take_cmp_eq)
    ultimately show thesis
      using put_state [OF D(1-3) V False _ l] that False by (metis nb_def)
  qed
  have "push_ok cfg \<tau> key S S' (Some (st', [emit st' None (Remove node)]))"
    using st' t(1) sets D(6) x by (intro emit_one [OF D(4) V]) auto
  moreover have "map_option (\<lambda>(n, _). node_row n) (refill rel (remove1 ?x (A @ [m])) B) = nb"
    using B S' by (auto simp: refill_def nb_def)
  moreover have "\<nexists>n. refill rel (remove1 ?x (A @ [m])) B = Some (n, True)"
    using B by (auto simp: refill_def)
  moreover have "usize_sub (ts_size ts) 1 = length A" using t(2) len D(8) by simp
  ultimately show ?thesis
    using st'(1) by (auto simp: remove_finish_def split: option.split bool.split)
qed

lemma push_remove_ok:
  assumes cfg: "cfg_ok cfg" and st: "store_ok cfg \<tau> st" and key: "key \<noteq> max_bound_key"
    and get: "get_take_state st key = Some (Some ts)" and ts: "state_for cfg \<tau> S ts"
    and S: "view_ok \<tau> (tk_order cfg) S" and L: "view_ok \<tau> (tk_order cfg) L'"
    and c: "apply_change \<tau> (tk_order cfg) (Remove node) S = Some (slice c L')"
  shows "push_ok cfg \<tau> key S (slice c L')
    (push_remove cfg (input_of (tk_order cfg) rel L') st node ts key (get_max_bound st) c)"
proof -
  let ?x = "node_row node" and ?n = "tk_limit cfg" and ?S' = "slice c L'"
  note rem = remove_view [OF c]
  obtain A m B b where W: "window_ctx cfg \<tau> key st ts S A m B b"
    using window_ctx_intro [OF cfg st key get ts S] rem(1) by (metis empty_iff list.set(1))
  note D = window_ctxD [OF W]
  have dist: "distinct S" using view_ok_distinct [OF S] .
  show ?thesis
  proof (cases "?x \<in> set (A @ [m])")
    case False
    then have xB: "?x \<in> set B" and S': "?S' = (A @ [m]) @ remove1 ?x B"
      using rem(1,2) D(5) by (auto simp: remove1_append)
    then have "?n = Suc (length A)" using D(7) by (cases B) auto
    then have "take ?n ?S' = take ?n S" "?S' \<noteq> []" "min ?n (length ?S') = min ?n (length S)"
      using D(5,6) S' by auto
    then have "push_ok cfg \<tau> key S ?S' (Some (st, []))"
      using slice_inv_same_window [OF D(18)] D(5) by (intro emit_none) auto
    moreover have "take_cmp cfg ?x b = Some Greater"
      using window_ctx_cmp(1) [OF W, of ?x] window_ctx_less(2) [OF W xB] D(13,15) xB
        row_cmp.gt_iff [of ?x \<tau> "tk_order cfg" m] by (auto simp: take_cmp_eq)
    ultimately show ?thesis using D(10) by (simp add: push_remove_def)
  next
    case True
    then have S': "?S' = remove1 ?x (A @ [m]) @ B"
      using rem(2) D(5) by (auto simp: remove1_append)
    obtain before candidates nb0 where f:
      "fetch_bounded (input_of (tk_order cfg) rel L') b After c True = Some before"
      "fetch_bounded (input_of (tk_order cfg) rel L') b At c False = Some candidates"
      "(case nth_opt 0 before of None \<Rightarrow> Some None
        | Some bn \<Rightarrow> do { o2 \<leftarrow> take_cmp cfg (node_row bn) b; Some (Some (bn, o2 = Greater)) }) = Some nb0"
      "\<And>bn. nb0 \<noteq> Some (bn, True)"
      "scan_candidates cfg b nb0 candidates = Some (refill rel (remove1 ?x (A @ [m])) B)"
      by (rule push_remove_search [OF W L True S', of rel]) (rule that)
    have skip_scan: "(case nb0 of Some (bn, True) \<Rightarrow> Some nb0 | _ \<Rightarrow> X) = X" for X
      using f(4) by (cases nb0) (auto split: bool.split)
    have x_le: "take_cmp cfg ?x b \<noteq> Some Greater" "take_cmp cfg ?x b \<noteq> None"
      using window_ctx_cmp(1) [OF W, of ?x] window_ctx_less(1) [OF W, of ?x] True D(13,14)
      by (auto simp: take_cmp_eq lt_by_def)
    then obtain o' where "take_cmp cfg ?x b = Some o'" "o' \<noteq> Greater" by auto
    then have "push_remove cfg (input_of (tk_order cfg) rel L') st node ts key (get_max_bound st) c =
        remove_finish cfg st node ts key (refill rel (remove1 ?x (A @ [m])) B)"
      unfolding push_remove_def remove_finish_def
      by (simp only: D(10) option.case Option.bind_lunit f(1) f(2) f(3) f(5) skip_scan if_False)
    then show ?thesis
      using remove_refill_ok [OF W L True S' rem(3)] remove_shrink_ok [OF W True S' rem(3)]
      by (simp only:) metis
  qed
qed

end
