(* ===== verification/Ivm_Filter.thy ===== *)
theory Ivm_Filter
  imports Ivm_Operator
begin

text \<open>
  The \<open>Filter\<close> and \<open>Skip\<close> operators (\<open>zero-cache-zql/src/ivm/filter.rs\<close>, \<open>ivm/skip.rs\<close>). A
  predicate is a closure that may panic, so it returns \<open>bool option\<close>. Both operators are shown to
  satisfy the operator contract (interpretations \<open>flt\<close> and \<open>skp\<close>) and their fetches to be fetches
  of the restricted view; for \<open>Skip\<close> the latter needs a bound row that names every sort column.
\<close>

section \<open>Filter\<close>

fun filter_push :: "(row \<Rightarrow> bool option) \<Rightarrow> change \<Rightarrow> change option option" where
  "filter_push predicate (Add node) =
     do { m \<leftarrow> predicate (node_row node); Some (if m then Some (Add node) else None) }"
| "filter_push predicate (Remove node) =
     do { m \<leftarrow> predicate (node_row node); Some (if m then Some (Remove node) else None) }"
| "filter_push predicate (Child node child) =
     do { m \<leftarrow> predicate (node_row node); Some (if m then Some (Child node child) else None) }"
| "filter_push predicate (Edit node old_node) =
     do {
       new_matches \<leftarrow> predicate (node_row node);
       old_matches \<leftarrow> predicate (node_row old_node);
       Some (case (old_matches, new_matches) of
           (True, True) \<Rightarrow> Some (Edit node old_node)
         | (True, False) \<Rightarrow> Some (Remove old_node)
         | (False, True) \<Rightarrow> Some (Add node)
         | (False, False) \<Rightarrow> None)
     }"

fun filter_opt :: "('a \<Rightarrow> bool option) \<Rightarrow> 'a list \<Rightarrow> 'a list option" where
  "filter_opt p [] = Some []"
| "filter_opt p (x # xs) = do { m \<leftarrow> p x; ys \<leftarrow> filter_opt p xs; Some (if m then x # ys else ys) }"

definition graph_filter_fetch :: "(row \<Rightarrow> bool option) \<Rightarrow> input \<Rightarrow> input" where
  "graph_filter_fetch predicate input req =
     do { nodes \<leftarrow> input req; filter_opt (\<lambda>n. predicate (node_row n)) nodes }"

definition graph_filter_push :: "(row \<Rightarrow> bool option) \<Rightarrow> change \<Rightarrow> change list option" where
  "graph_filter_push predicate change =
     do {
       r \<leftarrow> filter_push predicate change;
       Some (case r of Some change \<Rightarrow> [change] | None \<Rightarrow> [])
     }"

section \<open>Skip\<close>

record bound =
  bound_row :: row
  exclusive :: bool

record skip =
  skip_bound :: bound
  bound_sort :: sort_order

definition skip_new :: "source_schema \<Rightarrow> bound \<Rightarrow> skip option" where
  "skip_new schema b =
     do {
       assert_ok (schema_sort schema \<noteq> []);
       let prefix = takeWhile (\<lambda>(field, _). list_ex (\<lambda>(key, _). key = field) (bound_row b))
           (schema_sort schema);
       Some \<lparr>skip_bound = b, bound_sort = (if prefix = [] then schema_sort schema else prefix)\<rparr>
     }"

definition compare_bound_to :: "skip \<Rightarrow> row \<Rightarrow> ordering option" where
  "compare_bound_to sk r = make_comparator (bound_sort sk) False (bound_row (skip_bound sk)) r"

definition should_be_present :: "skip \<Rightarrow> row \<Rightarrow> bool option" where
  "should_be_present sk r =
     do {
       cmp \<leftarrow> compare_bound_to sk r;
       Some (cmp = Less \<or> (cmp = Equal \<and> \<not> exclusive (skip_bound sk)))
     }"

datatype get_start = GetEmpty | GetUse "start option"

definition skip_get_start :: "skip \<Rightarrow> fetch_request \<Rightarrow> get_start option" where
  "skip_get_start sk req =
     (let b = skip_bound sk;
          bound_start = \<lparr>start_row = bound_row b, basis = (if exclusive b then After else At)\<rparr>
      in case req_start req of
           None \<Rightarrow> Some (if req_reverse req then GetUse None else GetUse (Some bound_start))
         | Some rs \<Rightarrow>
             do {
               cmp \<leftarrow> compare_bound_to sk (start_row rs);
               Some (if \<not> req_reverse req then
                   (case cmp of
                      Greater \<Rightarrow> GetUse (Some bound_start)
                    | Equal \<Rightarrow>
                        if exclusive b \<or> basis rs = After
                        then GetUse (Some \<lparr>start_row = bound_row b, basis = After\<rparr>)
                        else GetUse (Some bound_start)
                    | Less \<Rightarrow> GetUse (Some rs))
                 else
                   (case cmp of
                      Greater \<Rightarrow> GetEmpty
                    | Equal \<Rightarrow>
                        if \<not> exclusive b \<and> basis rs = At then GetUse (Some bound_start) else GetEmpty
                    | Less \<Rightarrow> GetUse (Some rs)))
             })"

fun take_while_opt :: "('a \<Rightarrow> bool option) \<Rightarrow> 'a list \<Rightarrow> 'a list option" where
  "take_while_opt p [] = Some []"
| "take_while_opt p (x # xs) =
     do { m \<leftarrow> p x; if m then do { ys \<leftarrow> take_while_opt p xs; Some (x # ys) } else Some [] }"

definition skip_fetch :: "skip \<Rightarrow> input \<Rightarrow> input" where
  "skip_fetch sk input req =
     do {
       gs \<leftarrow> skip_get_start sk req;
       case gs of
         GetEmpty \<Rightarrow> Some []
       | GetUse start \<Rightarrow>
           do {
             nodes \<leftarrow> input (req\<lparr>req_start := start\<rparr>);
             if \<not> req_reverse req then Some nodes
             else take_while_opt (\<lambda>n. should_be_present sk (node_row n)) nodes
           }
     }"

definition skip_push :: "skip \<Rightarrow> change \<Rightarrow> change list option" where
  "skip_push sk change = graph_filter_push (should_be_present sk) change"

section \<open>Filter satisfies the operator contract\<close>

lemma filter_opt_total: "(\<And>x. x \<in> set xs \<Longrightarrow> p x = Some (q x)) \<Longrightarrow> filter_opt p xs = Some (filter q xs)"
  by (induction xs) auto

lemma take_while_opt_total:
  "(\<And>x. x \<in> set xs \<Longrightarrow> p x = Some (q x)) \<Longrightarrow> take_while_opt p xs = Some (takeWhile q xs)"
  by (induction xs) auto

text \<open>The rows of a change, on which the predicate is evaluated.\<close>

fun change_rows :: "change \<Rightarrow> row set" where
  "change_rows (Add n) = {node_row n}"
| "change_rows (Remove n) = {node_row n}"
| "change_rows (Child n c) = {node_row n}"
| "change_rows (Edit n old) = {node_row n, node_row old}"

lemma change_rows_subset: "change_set c S = Some S' \<Longrightarrow> change_rows c \<subseteq> S \<union> S'"
  by (cases c) (auto split: if_splits)

lemma filter_push_total:
  "(\<And>r. r \<in> change_rows c \<Longrightarrow> p r = Some (q r)) \<Longrightarrow>
   filter_push p c = filter_push (\<lambda>r. Some (q r)) c"
  by (cases c) auto

lemma filter_push_dropped:
  "filter_push (\<lambda>r. Some (q r)) c = Some None \<Longrightarrow> change_set c S = Some S' \<Longrightarrow>
   {r \<in> S. q r} = {r \<in> S'. q r}"
  by (cases c) (auto split: if_splits bool.splits)

lemma filter_push_kept:
  assumes "filter_push (\<lambda>r. Some (q r)) c = Some (Some d)" "change_set c S = Some S'"
  shows "change_set d {r \<in> S. q r} = Some {r \<in> S'. q r}"
proof (cases c)
  case (Edit n old)
  with assms show ?thesis
    by (cases "q (node_row n)"; cases "q (node_row old)") (auto split: if_splits)
qed (use assms in \<open>auto split: if_splits\<close>)

lemma filter_push_no_panic: "filter_push (\<lambda>r. Some (q r)) c \<noteq> None"
  by (cases c) auto

lemma graph_filter_push_ok:
  assumes L: "view_ok \<tau> order L" and c: "apply_change \<tau> order c L = Some L'"
    and p: "\<And>r. r \<in> typed_rows \<tau> order \<Longrightarrow> p r = Some (q r)"
  shows "\<exists>cs. graph_filter_push p c = Some cs \<and>
    apply_changes \<tau> order cs (filter q L) = Some (filter q L')"
proof -
  have L': "view_ok \<tau> order L'" and S: "change_set c (set L) = Some (set L')"
    using c L by (simp_all add: apply_change_iff)
  note V = view_ok_filter [OF L, of q] view_ok_filter [OF L', of q]
  have "p r = Some (q r)" if "r \<in> change_rows c" for r
    using that change_rows_subset [OF S] L L' p by (auto simp: view_ok_iff)
  then have p_q: "filter_push p c = filter_push (\<lambda>r. Some (q r)) c" by (rule filter_push_total)
  from filter_push_no_panic [of q c] obtain d where d: "filter_push (\<lambda>r. Some (q r)) c = Some d"
    by blast
  show ?thesis
  proof (cases d)
    case None
    then have "filter q L = filter q L'"
      using filter_push_dropped [OF _ S] d by (intro view_ok_unique [OF V]) simp
    with d None p_q show ?thesis by (simp add: graph_filter_push_def)
  next
    case (Some e)
    then have "apply_change \<tau> order e (filter q L) = Some (filter q L')"
      using filter_push_kept [OF _ S] d by (intro apply_change_intro [OF V]) simp
    with d Some p_q show ?thesis by (simp add: graph_filter_push_def)
  qed
qed

definition filter_op :: "(row \<Rightarrow> bool) \<Rightarrow> unit op_push" where
  "filter_op q s L c = map_option (\<lambda>cs. ((), cs)) (graph_filter_push (\<lambda>r. Some (q r)) c)"

interpretation flt: ivm_operator \<tau> order "\<lambda>_ _. True" "\<lambda>_. filter q" "filter_op q" for \<tau> order q
proof (unfold_locales, goal_cases)
  case (2 L s c L')
  then show ?case
    using graph_filter_push_ok [of \<tau> order L c L' "\<lambda>r. Some (q r)" q] by (fastforce simp: filter_op_def)
qed (auto intro: view_ok_filter)

lemma graph_filter_fetch_eq:
  "graph_filter_fetch (\<lambda>r. Some (q r)) (input_of order rel L) req = input_of order rel (filter q L) req"
proof -
  have "filter_opt (\<lambda>n. Some (q (node_row n))) (map (\<lambda>r. Node r (rel r)) xs) =
      Some (map (\<lambda>r. Node r (rel r)) (filter q xs))" for xs
    by (subst filter_opt_total [where q = "\<lambda>n. q (node_row n)"]) (auto simp: filter_map o_def)
  then show ?thesis
    by (simp add: graph_filter_fetch_def input_of_def fetch_rows_def rev_filter conj_ac)
qed

section \<open>Skip satisfies the operator contract\<close>

definition skip_ok :: "col_types \<Rightarrow> sort_order \<Rightarrow> skip \<Rightarrow> bool" where
  "skip_ok \<tau> order sk \<longleftrightarrow>
     bound_sort sk \<noteq> [] \<and> (\<exists>rest. order = bound_sort sk @ rest) \<and>
     bound_row (skip_bound sk) \<in> typed_rows \<tau> (bound_sort sk)"

definition present :: "skip \<Rightarrow> row \<Rightarrow> bool" where
  "present sk r \<longleftrightarrow> should_be_present sk r = Some True"

definition skip_op :: "skip op_push" where
  "skip_op sk L c = map_option (\<lambda>cs. (sk, cs)) (skip_push sk c)"

lemma typed_rows_append: "typed_rows \<tau> (a @ b) = typed_rows \<tau> a \<inter> typed_rows \<tau> b"
  by (auto simp: typed_rows_def row_typed_def)

lemma should_be_present_total:
  assumes "skip_ok \<tau> order sk" "r \<in> typed_rows \<tau> order"
  shows "should_be_present sk r = Some (present sk r)"
proof -
  have "r \<in> typed_rows \<tau> (bound_sort sk)"
    using assms by (auto simp: skip_ok_def typed_rows_append)
  then have "compare_bound_to sk r \<noteq> None"
    using assms(1) row_cmp.total unfolding skip_ok_def compare_bound_to_def by blast
  then show ?thesis by (auto simp: should_be_present_def present_def)
qed

lemma skip_new_ok:
  assumes "skip_new schema b = Some sk"
    and "fst (hd (schema_sort schema)) \<in> fst ` set (bound_row b)"
    and "bound_row b \<in> typed_rows \<tau> (seek_order (schema_sort schema) (bound_row b))"
  shows "skip_ok \<tau> (schema_sort schema) sk"
proof -
  let ?p = "seek_order (schema_sort schema) (bound_row b)"
  have p: "takeWhile (\<lambda>(field, _). list_ex (\<lambda>(key, _). key = field) (bound_row b)) (schema_sort schema) = ?p"
    unfolding seek_order_def by (rule takeWhile_cong) (force simp: list_ex_iff)+
  have "schema_sort schema \<noteq> []" using assms(1) by (auto simp: skip_new_def option_mono)
  with assms(2) have "?p \<noteq> []"
    by (cases "schema_sort schema") (simp_all add: seek_order_def case_prod_unfold)
  moreover have "schema_sort schema = ?p @ dropWhile (\<lambda>(f, d). f \<in> fst ` set (bound_row b)) (schema_sort schema)"
    by (simp add: seek_order_def)
  ultimately show ?thesis
    using assms(1,3) p by (auto simp: skip_new_def skip_ok_def option_mono Let_def)
qed

interpretation skp: ivm_operator \<tau> order "\<lambda>sk _. skip_ok \<tau> order sk" "\<lambda>sk. filter (present sk)" skip_op
  for \<tau> order
proof (unfold_locales, goal_cases)
  case (2 L sk c L')
  then show ?case
    using graph_filter_push_ok [of \<tau> order L c L' "should_be_present sk" "present sk"]
    by (fastforce simp: skip_op_def skip_push_def should_be_present_total)
qed (auto intro: view_ok_filter)

text \<open>The interpretations compose: a \<open>Skip\<close> over a \<open>Filter\<close> is an operator again.\<close>

interpretation flt_skp: ivm_pair \<tau> order "\<lambda>_ _. True" "\<lambda>_. filter q" "filter_op q"
  "\<lambda>sk _. skip_ok \<tau> order sk" "\<lambda>sk. filter (present sk)" skip_op for \<tau> order q
  by unfold_locales

section \<open>Fetching through Skip\<close>

text \<open>The start that \<open>skip_get_start\<close> forwards selects, of the present rows, those of the request.\<close>

lemma get_start_correct:
  assumes sk: "bound_sort sk = order" "order \<noteq> []" "bound_row (skip_bound sk) \<in> typed_rows \<tau> order"
    and st: "\<And>s. req_start req = Some s \<Longrightarrow> start_row s \<in> typed_rows \<tau> order"
    and r: "r \<in> typed_rows \<tau> order" and g: "skip_get_start sk req = Some g"
  shows "(present sk r \<and> in_start order (req_reverse req) (req_start req) r) \<longleftrightarrow>
    (case g of GetEmpty \<Rightarrow> False
     | GetUse st' \<Rightarrow> (req_reverse req \<longrightarrow> present sk r) \<and> in_start order (req_reverse req) st' r)"
proof (cases "req_start req")
  case None
  then show ?thesis
    using sk r g row_cmp.total [of "bound_row (skip_bound sk)" \<tau> order r]
    by (auto simp: skip_get_start_def in_start_typed in_start_def [where st = None] present_def
        should_be_present_def compare_bound_to_def le_by_def lt_by_def Let_def split: if_splits)
next
  case (Some s)
  let ?b = "bound_row (skip_bound sk)" and ?s = "start_row s" and ?c = "make_comparator order False"
  have T: "?b \<in> typed_rows \<tau> order" "?s \<in> typed_rows \<tau> order" using sk st Some by auto
  have bs: "basis s = At \<or> basis s = After" by (cases "basis s") auto
  note tr = row_cmp.le_trans [of _ \<tau> order, unfolded le_by_def]
  note tr6 = tr [of ?b ?s r] tr [of r ?s ?b] tr [of ?s ?b r] tr [of r ?b ?s] tr [of ?b r ?s] tr [of ?s r ?b]
  note defs = skip_get_start_def in_start_typed present_def should_be_present_def
    compare_bound_to_def le_by_def lt_by_def Let_def
  show ?thesis
  proof (cases rule: row_cmp.cases_cmp [OF T])
    case 1
    then show ?thesis
      using Some sk r T g tr6 bs
      by (cases rule: row_cmp.cases_cmp [OF T(1) r]; cases rule: row_cmp.cases_cmp [OF T(2) r])
        (auto simp: defs split: if_splits)
  next
    case 2
    then show ?thesis
      using Some sk r T g tr6 bs
      by (cases rule: row_cmp.cases_cmp [OF T(1) r]; cases rule: row_cmp.cases_cmp [OF T(2) r])
        (auto simp: defs split: if_splits)
  next
    case 3
    then show ?thesis
      using Some sk r T g tr6 bs
      by (cases rule: row_cmp.cases_cmp [OF T(1) r]; cases rule: row_cmp.cases_cmp [OF T(2) r])
        (auto simp: defs split: if_splits)
  qed
qed

lemma get_start_total:
  assumes "bound_sort sk = order" "bound_row (skip_bound sk) \<in> typed_rows \<tau> order"
    and "\<And>s. req_start req = Some s \<Longrightarrow> start_row s \<in> typed_rows \<tau> order"
  shows "\<exists>g. skip_get_start sk req = Some g"
proof (cases "req_start req")
  case (Some s)
  then obtain c where "compare_bound_to sk (start_row s) = Some c"
    using assms row_cmp.total [of "bound_row (skip_bound sk)" \<tau> order "start_row s"]
    by (auto simp: compare_bound_to_def)
  with Some show ?thesis by (simp add: skip_get_start_def Let_def)
qed (simp add: skip_get_start_def Let_def)

lemma present_mono:
  assumes "skip_ok \<tau> order sk" "bound_sort sk = order" "a \<in> typed_rows \<tau> order" "b \<in> typed_rows \<tau> order"
    and "lt_by (make_comparator order False) a b" "present sk a"
  shows "present sk b"
proof -
  let ?k = "bound_row (skip_bound sk)"
  have k: "?k \<in> typed_rows \<tau> order" using assms by (auto simp: skip_ok_def)
  have "le_by (make_comparator order False) ?k a"
    using assms(2,6) by (auto simp: present_def should_be_present_def compare_bound_to_def le_by_def option_mono)
  then have "lt_by (make_comparator order False) ?k b"
    using row_cmp.le_lt_trans [OF k assms(3,4)] assms(5) by blast
  then show ?thesis
    using assms(2) by (simp add: present_def should_be_present_def compare_bound_to_def lt_by_def)
qed

lemma skip_fetch_eq:
  assumes L: "view_ok \<tau> order L" and sk: "skip_ok \<tau> order sk" "bound_sort sk = order"
    and st: "\<And>s. req_start req = Some s \<Longrightarrow> start_row s \<in> typed_rows \<tau> order"
  shows "skip_fetch sk (input_of order rel L) req = input_of order rel (filter (present sk) L) req"
proof -
  have sk': "order \<noteq> []" "bound_row (skip_bound sk) \<in> typed_rows \<tau> order"
    using sk by (auto simp: skip_ok_def)
  obtain g where g: "skip_get_start sk req = Some g"
    using get_start_total [OF sk(2) sk'(2) st] by blast
  have T: "r \<in> typed_rows \<tau> order" if "r \<in> set L" for r using L that by (auto simp: view_ok_iff)
  note pt = get_start_correct [OF sk(2) sk' st T g]
  let ?N = "\<lambda>r. Node r (rel r)"
  let ?L = "if req_reverse req then rev L else L"
  have R: "fetch_rows order (filter (present sk) L) req =
      filter (\<lambda>r. req_matches req r \<and> (present sk r \<and> in_start order (req_reverse req) (req_start req) r)) ?L"
    by (auto simp: fetch_rows_def rev_filter intro!: filter_cong)
  show ?thesis
  proof (cases g)
    case GetEmpty
    then show ?thesis
      using g pt R by (auto simp: skip_fetch_def input_of_def filter_empty_conv)
  next
    case (GetUse st')
    let ?X = "filter (\<lambda>r. req_matches req r \<and> in_start order (req_reverse req) st' r) ?L"
    have X: "fetch_rows order L (req\<lparr>req_start := st'\<rparr>) = ?X"
      by (simp add: fetch_rows_def req_matches_def)
    have "sorted_wrt (\<lambda>a b. present sk b \<longrightarrow> present sk a) (rev L)"
      using L T by (auto simp: view_ok_iff sorted_wrt_rev
          intro!: sorted_wrt_mono_rel [where P = "lt_by (make_comparator order False)"]
          dest: present_mono [OF sk, rotated 2])
    then have "req_reverse req \<Longrightarrow> takeWhile (present sk) ?X = filter (present sk) ?X"
      by (intro takeWhile_eq_filter_if) (simp add: sorted_wrt_filter)
    moreover have "take_while_opt (\<lambda>n. should_be_present sk (node_row n)) (map ?N ?X) =
        Some (map ?N (takeWhile (present sk) ?X))"
      using T by (subst take_while_opt_total [where q = "\<lambda>n. present sk (node_row n)"])
        (auto simp: should_be_present_total [OF sk(1)] takeWhile_map o_def split: if_splits)
    moreover have "fetch_rows order (filter (present sk) L) req =
        filter (\<lambda>r. req_reverse req \<longrightarrow> present sk r) ?X"
      unfolding R filter_filter
      by (rule filter_cong [OF refl], simp only: set_rev split: if_splits) (use pt GetUse in auto)
    ultimately show ?thesis
      using g GetUse X by (cases "req_reverse req") (simp_all add: skip_fetch_def input_of_def)
  qed
qed

section \<open>Properties\<close>

text \<open>
  C1. Filter maintains its view: for every legal change of the input, \<open>GraphFilter::push\<close> emits
  changes that turn the filtered old view into the filtered new view, each legal where it is
  emitted. In particular an edit that crosses the predicate becomes an add or a remove.
\<close>

theorem filter_push_maintains_view:
  assumes "view_ok \<tau> order L" "apply_change \<tau> order c L = Some L'"
  shows "\<exists>cs. graph_filter_push (\<lambda>r. Some (q r)) c = Some cs \<and>
    apply_changes \<tau> order cs (filter q L) = Some (filter q L')"
  using flt.push_ok [OF assms(1) TrueI assms(2), of q] by (auto simp: filter_op_def)

theorem filter_push_maintains_view_witness:
  "\<exists>cs. graph_filter_push (\<lambda>r. Some (get r ''a'' = JNumber (F_Fin 1)))
      (Edit (node_new (sample_row 2 3)) (node_new (sample_row 1 3))) = Some cs \<and>
    apply_changes sample_types sample_order cs
      (filter (\<lambda>r. get r ''a'' = JNumber (F_Fin 1)) sample_table) =
      Some (filter (\<lambda>r. get r ''a'' = JNumber (F_Fin 1))
        [sample_row 1 1, sample_row 1 2, sample_row 2 3, sample_row 2 4])"
proof (rule filter_push_maintains_view)
  show "view_ok sample_types sample_order sample_table" by code_simp
  show "apply_change sample_types sample_order
      (Edit (node_new (sample_row 2 3)) (node_new (sample_row 1 3))) sample_table =
    Some [sample_row 1 1, sample_row 1 2, sample_row 2 3, sample_row 2 4]" by code_simp
qed



text \<open>
  C3. Fetching through Skip: when the bound row names every sort column, \<open>Skip::fetch\<close> over an
  input returns, for every request (constraint, start, direction), exactly what the same request
  returns over the input restricted to the rows past the bound.
\<close>

theorem skip_fetch_restricts:
  assumes "view_ok \<tau> order L" "skip_ok \<tau> order sk" "bound_sort sk = order"
    and "\<And>s. req_start req = Some s \<Longrightarrow> start_row s \<in> typed_rows \<tau> order"
  shows "skip_fetch sk (input_of order rel L) req = input_of order rel (filter (present sk) L) req"
  using assms by (rule skip_fetch_eq)

theorem skip_fetch_restricts_witness:
  "skip_fetch \<lparr>skip_bound = \<lparr>bound_row = sample_row 1 2, exclusive = False\<rparr>, bound_sort = sample_order\<rparr>
      (input_of sample_order (\<lambda>_. []) sample_table)
      (default_request\<lparr>req_start := Some \<lparr>start_row = sample_row 1 3, basis = At\<rparr>, req_reverse := True\<rparr>) =
    Some [node_new (sample_row 1 3), node_new (sample_row 1 2)]"
proof (subst skip_fetch_restricts [of sample_types])
  show "skip_ok sample_types sample_order
      \<lparr>skip_bound = \<lparr>bound_row = sample_row 1 2, exclusive = False\<rparr>, bound_sort = sample_order\<rparr>"
    unfolding skip_ok_def typed_rows_def mem_Collect_eq
    by (intro conjI exI [of _ "[]"]) code_simp+
  show "view_ok sample_types sample_order sample_table" by code_simp
  show "start_row s \<in> typed_rows sample_types sample_order"
    if "req_start (default_request\<lparr>req_start := Some \<lparr>start_row = sample_row 1 3, basis = At\<rparr>,
      req_reverse := True\<rparr>) = Some s" for s
    using that by (auto simp: typed_rows_def) code_simp
qed (simp, code_simp)

text \<open>
  With a bound row that names only the leading sort column, a fetch that starts inside the
  window is answered from the bound instead: for an inclusive bound on \<open>a = 1\<close> and a start at the
  third row, \<open>Skip::fetch\<close> also returns the two rows before the start.
\<close>

theorem skip_fetch_partial_bound:
  "skip_new (SourceSchema ''t'' [''id''] sample_order [])
      \<lparr>bound_row = [(''a'', JNumber (F_Fin 1))], exclusive = False\<rparr> \<bind>
    (\<lambda>sk. skip_fetch sk (input_of sample_order (\<lambda>_. []) sample_table)
      (default_request\<lparr>req_start := Some \<lparr>start_row = sample_row 1 3, basis = At\<rparr>\<rparr>)) =
    Some (map node_new sample_table) \<and>
  input_of sample_order (\<lambda>_. []) sample_table
      (default_request\<lparr>req_start := Some \<lparr>start_row = sample_row 1 3, basis = At\<rparr>\<rparr>) =
    Some [node_new (sample_row 1 3), node_new (sample_row 2 4)]"
  by code_simp

end
