(* ===== verification/Ivm_Take_Correct.thy ===== *)
theory Ivm_Take_Correct
  imports Ivm_Take_Window Ivm_Filter
begin

text \<open>
  Correctness of \<open>Take\<close>: the edit transitions, the first fetch, and the operator contract for the
  global limit (interpretation \<open>tak\<close>) with its consequences for pipelines of operators.
\<close>

section \<open>Editing a row\<close>

lemma edit_view:
  assumes S: "view_ok \<tau> order S" and c: "apply_change \<tau> order (Edit node old) S = Some S'"
  shows "node_row old \<in> set S"
    "S' = ins_by (make_comparator order False) (node_row node) (remove1 (node_row old) S)"
    "view_ok \<tau> order S'" "node_row node \<in> typed_rows \<tau> order"
    "\<And>r. r \<in> set S \<Longrightarrow> r \<noteq> node_row old \<Longrightarrow> make_comparator order False (node_row node) r \<noteq> Some Equal"
    "node_row node \<notin> set S - {node_row old}"
proof -
  show *: "node_row old \<in> set S"
    "S' = ins_by (make_comparator order False) (node_row node) (remove1 (node_row old) S)" "view_ok \<tau> order S'"
    using c by (auto simp: apply_change_def option_mono split: if_splits)
  then show "node_row node \<in> typed_rows \<tau> order" by (auto simp: view_ok_iff)
  have d: "set (remove1 (node_row old) S) = set S - {node_row old}"
    using view_ok_distinct [OF S] by (rule set_remove1_eq)
  show n: "node_row node \<notin> set S - {node_row old}"
    using view_ok_distinct [OF *(3)] by (simp add: *(2) distinct_ins_by d)
  show "make_comparator order False (node_row node) r \<noteq> Some Equal" if "r \<in> set S" "r \<noteq> node_row old" for r
    using view_ok_equal_eq [OF *(3), of "node_row node" r] that n d by (auto simp: *(2))
qed

lemma take_hd:
  assumes "Suc (length P) \<le> n" "1 < length Q \<Longrightarrow> n = Suc (length P)" "Q \<noteq> []"
  shows "take n (P @ Q) = P @ [hd Q]"
  using assms by (cases Q; cases "tl Q") (auto simp: take_Cons' )

text \<open>A row below or above the last row of the window sorts into the part on its side.\<close>

lemma ins_below:
  assumes "x \<in> typed_rows \<tau> order" "m \<in> typed_rows \<tau> order" "set P \<subseteq> typed_rows \<tau> order"
    and "lt_by (make_comparator order False) x m"
    and "\<And>q. q \<in> set Q \<Longrightarrow> q \<in> typed_rows \<tau> order \<and> lt_by (make_comparator order False) m q"
  shows "ins_by (make_comparator order False) x (P @ Q) = ins_by (make_comparator order False) x P @ Q"
proof (cases Q)
  case (Cons q Q')
  then have "lt_by (make_comparator order False) x q" "q \<in> typed_rows \<tau> order"
    using assms row_cmp.lt_trans [OF assms(1,2), of q] by auto
  with Cons assms(1,3) show ?thesis using row_cmp.ins_by_append_lt [of x \<tau> order q P Q'] by simp
qed simp

lemma ins_above:
  assumes "x \<in> typed_rows \<tau> order" "m \<in> typed_rows \<tau> order"
    and "lt_by (make_comparator order False) m x"
    and "\<And>p. p \<in> set P \<Longrightarrow> p \<in> typed_rows \<tau> order \<and> \<not> lt_by (make_comparator order False) m p"
  shows "ins_by (make_comparator order False) x (P @ Q) = P @ ins_by (make_comparator order False) x Q"
proof (rule row_cmp.ins_by_append_gt [OF assms(1)])
  show "set P \<subseteq> typed_rows \<tau> order" using assms(4) by auto
  show "lt_by (make_comparator order False) p x" if "p \<in> set P" for p
    using assms that row_cmp.not_lt [of m \<tau> order p] row_cmp.le_lt_trans [of p \<tau> order m x] by auto
qed

lemma ins_at:
  assumes "x \<in> typed_rows \<tau> order" "m \<in> typed_rows \<tau> order" "set A \<subseteq> typed_rows \<tau> order" "set B \<subseteq> typed_rows \<tau> order"
    and "make_comparator order False x m = Some Equal"
    and "\<And>a. a \<in> set A \<Longrightarrow> lt_by (make_comparator order False) a m"
    and "\<And>q. q \<in> set B \<Longrightarrow> lt_by (make_comparator order False) m q"
  shows "ins_by (make_comparator order False) x (A @ B) = A @ x # B"
proof -
  have cong: "make_comparator order False r x = make_comparator order False r m"
    "make_comparator order False x r = make_comparator order False m r" if "r \<in> typed_rows \<tau> order" for r
    using row_cmp.cmp_equal_cong [OF assms(1,2) that assms(5)] by auto
  have "ins_by (make_comparator order False) x (A @ B) = A @ ins_by (make_comparator order False) x B"
    using assms(3,6) cong by (intro row_cmp.ins_by_append_gt [OF assms(1,3)]) (auto simp: lt_by_def)
  also have "ins_by (make_comparator order False) x B = x # B"
    using assms(4,7) cong by (cases B) (auto simp: lt_by_def)
  finally show ?thesis .
qed

text \<open>The state is kept: the window changes in place, at or below the bound.\<close>

lemma edit_keep_state:
  assumes W: "window_ctx cfg \<tau> key st ts S A m B b"
    and c: "apply_change \<tau> (tk_order cfg) (Edit node old) S = Some S'"
    and S': "S' = (A' @ [m']) @ B" "length A' = length A" "take_cmp cfg m m' = Some Equal"
      "m' \<in> typed_rows \<tau> (tk_order cfg)"
    and A': "\<And>a. a \<in> set A' \<Longrightarrow> a \<in> typed_rows \<tau> (tk_order cfg) \<and> tk_less cfg a m"
    and sets: "change_set (Edit node old) (set (A @ [m])) = Some (set (A' @ [m']))"
  shows "push_ok cfg \<tau> key S S' (Some (st, [emit st None (Edit node old)]))"
proof -
  let ?n = "tk_limit cfg"
  note D = window_ctxD [OF W] and V = edit_view(3) [OF window_ctxD(4) [OF W] c]
  have t: "take ?n S' = A' @ [m']" "min ?n (length S') = Suc (length A)"
    using S'(1,2) D(7,8) by (cases B; auto)+
  have "take_cmp cfg b m' = Some Equal"
    using window_ctx_cmp(2) [OF W S'(4)] S'(3) by simp
  moreover have "get_take_state st key = Some (Some ts)" using W by (simp add: window_ctx_def)
  ultimately have inv: "slice_inv cfg \<tau> key S' st"
    using D(2,9-11) t S'(1) by (auto simp: slice_inv_def state_for_def)
  have "shown cfg key S' st None = A' @ [m']"
    unfolding S'(1)
  proof (rule shown_old_state [OF W])
    show "p \<in> typed_rows \<tau> (tk_order cfg) \<and> \<not> tk_less cfg m p" if "p \<in> set (A' @ [m'])" for p
      using that A' [of p] S'(3,4) D(13) row_cmp.lt_asym [of p \<tau> "tk_order cfg" m]
      by (auto simp: take_cmp_eq lt_by_def)
  qed (rule window_rows(2) [OF W])
  then show ?thesis
    using sets t inv D(6) by (intro emit_one [OF D(4) V]) auto
qed

text \<open>The edited row stays in the window and a new bound is stored.\<close>

lemma edit_new_bound:
  assumes W: "window_ctx cfg \<tau> key st ts S A m B b"
    and c: "apply_change \<tau> (tk_order cfg) (Edit node old) S = Some S'"
    and t: "take (tk_limit cfg) S' = W'" "length W' = Suc (length A)"
    and sets: "change_set (Edit node old) (set (A @ [m])) = Some (set W')"
  obtains st' where "set_take_state cfg st key (ts_size ts) (Some (last W')) (get_max_bound st) = Some st'"
    "push_ok cfg \<tau> key S S' (Some (st', [emit st' None (Edit node old)]))"
proof -
  let ?n = "tk_limit cfg"
  note D = window_ctxD [OF W] and V = edit_view(3) [OF window_ctxD(4) [OF W] c]
  have ne: "S' \<noteq> []" "W' \<noteq> []" using t by auto
  have "ts_size ts = min ?n (length S')" using D(9) t by (metis length_take min.commute)
  moreover have l: "last W' \<in> typed_rows \<tau> (tk_order cfg)"
    using view_ok_take [OF V, of ?n] t(1) ne(2) by (auto simp: view_ok_iff subset_eq)
  moreover have "take_cmp cfg (last W') (last (take ?n S')) = Some Equal" using l t(1) by (simp add: take_cmp_eq)
  ultimately obtain st' where st': "set_take_state cfg st key (ts_size ts) (Some (last W')) (get_max_bound st) = Some st'"
    "slice_inv cfg \<tau> key S' st'" "shown cfg key S' st' None = take ?n S'"
    using put_state [OF D(1-3) V ne(1)] by metis
  then have "push_ok cfg \<tau> key S S' (Some (st', [emit st' None (Edit node old)]))"
    using sets t D(6) by (intro emit_one [OF D(4) V]) auto
  with st'(1) show thesis by (rule that)
qed

text \<open>A row leaves the window and the row \<open>nb\<close>, its new last row, enters.\<close>

lemma edit_swap_bound:
  assumes W: "window_ctx cfg \<tau> key st ts S A m B b"
    and c: "apply_change \<tau> (tk_order cfg) (Edit node old) S = Some S'"
    and t: "take (tk_limit cfg) S' = W'" "length W' = Suc (length A)" and nb: "nb = last W'"
    and x: "node_row n = x" "x \<in> set W'" "x \<notin> set (A @ [m])" and o': "node_row o' \<in> set (A @ [m])"
    and sets: "set W' = insert x (set (A @ [m]) - {node_row o'})"
  obtains st' where "set_take_state cfg st key (ts_size ts) (Some nb) (get_max_bound st) = Some st'"
    "push_ok cfg \<tau> key S S' (Some (st', [emit st' (Some x) (Remove o'), emit st' None (Add n)]))"
    "slice_inv cfg \<tau> key S' st'" "shown cfg key S' st' None = take (tk_limit cfg) S'"
proof -
  let ?n = "tk_limit cfg"
  note D = window_ctxD [OF W] and V = edit_view(3) [OF window_ctxD(4) [OF W] c]
  have ne: "S' \<noteq> []" "W' \<noteq> []" using t by auto
  have "ts_size ts = min ?n (length S')" using D(9) t by (metis length_take min.commute)
  moreover have l: "nb \<in> typed_rows \<tau> (tk_order cfg)"
    using view_ok_take [OF V, of ?n] t(1) ne(2) nb by (auto simp: view_ok_iff subset_eq)
  moreover have "take_cmp cfg nb (last (take ?n S')) = Some Equal" using l t(1) nb by (simp add: take_cmp_eq)
  ultimately obtain st' where st': "set_take_state cfg st key (ts_size ts) (Some nb) (get_max_bound st) = Some st'"
    "slice_inv cfg \<tau> key S' st'" "shown cfg key S' st' None = take ?n S'"
    "shown cfg key S' st' (Some x) = filter (\<lambda>r. take_cmp cfg x r \<noteq> Some Equal) (take ?n S')"
    using put_state [OF D(1-3) V ne(1)] by metis
  have "push_ok cfg \<tau> key S S' (Some (st', [emit st' (Some x) (Remove o'), emit st' None (Add n)]))"
    using st' t(1) D(6) x o' sets by (intro emit_swap [OF D(4) V]) auto
  with st' show thesis by (intro that)
qed

lemma length_gt_1_ins: "1 < length (ins_by cmp x B) \<longleftrightarrow> B \<noteq> []"
  by (cases B) auto

lemma window_gap:
  assumes "window_ctx cfg \<tau> key st ts S A m B b" "r \<in> typed_rows \<tau> (tk_order cfg)"
  shows "tk_less cfg r m \<Longrightarrow> tk_less cfg r b" and "tk_less cfg m r \<Longrightarrow> tk_less cfg b r"
  using window_ctx_cmp [OF assms] by (simp_all add: take_cmp_eq lt_by_def)

lemma window_below:
  assumes "window_ctx cfg \<tau> key st ts S A m B b" "a \<in> set A"
  shows "a \<in> typed_rows \<tau> (tk_order cfg) \<and> tk_less cfg a m"
  using assms(2) window_ctxD(14) [OF assms(1)] window_ctx_less(1) [OF assms(1)] by auto

lemma edit_bound_row:
  assumes W: "window_ctx cfg \<tau> key st ts S A m B b"
    and c: "apply_change \<tau> (tk_order cfg) (Edit node old) S = Some S'" and old: "node_row old = m"
  shows "S' = ins_by (make_comparator (tk_order cfg) False) (node_row node) (A @ B)"
    "m \<notin> set A" "m \<notin> set B" "node_row node \<notin> set A" "node_row node \<notin> set B"
proof -
  note D = window_ctxD [OF W] and E = edit_view [OF window_ctxD(4) [OF W] c]
  show mAB: "m \<notin> set A" "m \<notin> set B" using view_ok_distinct [OF D(4)] D(5) by auto
  show "S' = ins_by (make_comparator (tk_order cfg) False) (node_row node) (A @ B)"
    using E(2) D(5) old mAB by (simp add: remove1_append)
  show "node_row node \<notin> set A" "node_row node \<notin> set B" using E(6) D(5) old mAB by auto
qed

lemma edit_bound_equal_ok:
  assumes W: "window_ctx cfg \<tau> key st ts S A m B b"
    and c: "apply_change \<tau> (tk_order cfg) (Edit node old) S = Some S'"
    and old: "node_row old = m" and cmp: "take_cmp cfg (node_row node) m = Some Equal"
  shows "push_ok cfg \<tau> key S S' (Some (st, [emit st None (Edit node old)]))"
proof -
  let ?x = "node_row node"
  note D = window_ctxD [OF W] and E = edit_view [OF window_ctxD(4) [OF W] c]
    and S' = edit_bound_row [OF W c old]
  have "S' = (A @ [?x]) @ B"
    using ins_at [OF E(4) D(13-15) _ window_ctx_less [OF W]] cmp by (simp add: S'(1) take_cmp_eq)
  moreover have "take_cmp cfg m ?x = Some Equal"
    using cmp row_cmp.swap [OF E(4) D(13)] by (simp add: take_cmp_eq)
  ultimately show ?thesis
    using E(4) old S'(2-) window_below [OF W] by (intro edit_keep_state [OF W c]) auto
qed

lemma edit_bound_less_ok:
  assumes W: "window_ctx cfg \<tau> key st ts S A m B b" and L: "view_ok \<tau> (tk_order cfg) L'"
    and c: "apply_change \<tau> (tk_order cfg) (Edit node old) S = Some (slice c L')"
    and old: "node_row old = m" and xm: "tk_less cfg (node_row node) m"
  shows "push_ok cfg \<tau> key S (slice c L')
    (push_edit_at_bound cfg (input_of (tk_order cfg) rel L') st node old ts b key (get_max_bound st) c Less)"
proof -
  let ?x = "node_row node" and ?n = "tk_limit cfg" and ?S' = "slice c L'"
  let ?A' = "ins_by (make_comparator (tk_order cfg) False) (node_row node) A"
  note D = window_ctxD [OF W] and E = edit_view [OF window_ctxD(4) [OF W] c]
    and S' = edit_bound_row [OF W c old]
  have S2: "?S' = ?A' @ B"
    unfolding S'(1) using window_rows(2) [OF W] by (intro ins_below [OF E(4) D(13,14) xm]) auto
  have t: "take ?n ?S' = ?A'" using S2 D(7,8) by (cases B) auto
  obtain st' where st': "set_take_state cfg st key (ts_size ts) (Some (last ?A')) (get_max_bound st) = Some st'"
    "push_ok cfg \<tau> key S ?S' (Some (st', [emit st' None (Edit node old)]))"
    using edit_new_bound [OF W c t] old S'(2-) by auto
  have f: "fetch_bounded (input_of (tk_order cfg) rel L') b After c True = Some (map (\<lambda>r. Node r (rel r)) (rev ?A'))"
    by (rule fetch_at_gap(2) [OF D(16,11) L S2])
      (use window_gap [OF W] window_below [OF W] window_rows(2) [OF W] xm E(4) in auto)
  show ?thesis
  proof (cases "?n = 1")
    case True
    then have "last ?A' = ?x" using D(8) by simp
    with st' True show ?thesis by (simp add: push_edit_at_bound_def)
  qed (use st' f in \<open>simp add: push_edit_at_bound_def hd_rev\<close>)
qed

text \<open>The first row past the old window, once \<open>x\<close> is sorted into the rows past it.\<close>

lemma first_past:
  assumes W: "window_ctx cfg \<tau> key st ts S A m B b" and x: "x \<in> typed_rows \<tau> (tk_order cfg)"
    and V: "view_ok \<tau> (tk_order cfg) S'" and S': "S' = P @ ins_by (make_comparator (tk_order cfg) False) x B"
    and len: "length P = length A"
  shows "take (tk_limit cfg) S' = P @ [hd (ins_by (make_comparator (tk_order cfg) False) x B)]"
    "hd (ins_by (make_comparator (tk_order cfg) False) x B) \<in> insert x (set B)"
    "\<exists>o'. take_cmp cfg (hd (ins_by (make_comparator (tk_order cfg) False) x B)) x = Some o' \<and>
      (o' = Equal \<longleftrightarrow> hd (ins_by (make_comparator (tk_order cfg) False) x B) = x)"
proof -
  let ?h = "hd (ins_by (make_comparator (tk_order cfg) False) x B)"
  note D = window_ctxD [OF W]
  show "take (tk_limit cfg) S' = P @ [?h]"
    unfolding S' using D(7,8) len by (intro take_hd) (auto simp: length_gt_1_ins)
  show h: "?h \<in> insert x (set B)" using hd_in_set [OF ins_by_neq_Nil] by (metis set_ins_by)
  then have hT: "?h \<in> typed_rows \<tau> (tk_order cfg)" using x D(15) by auto
  have "?h \<in> set S'" "x \<in> set S'" using S' h by auto
  then show "\<exists>o'. take_cmp cfg ?h x = Some o' \<and> (o' = Equal \<longleftrightarrow> ?h = x)"
    using row_cmp.total [OF hT x] view_ok_equal_eq [OF V] x by (auto simp: take_cmp_eq)
qed

lemma edit_bound_greater_ok:
  assumes W: "window_ctx cfg \<tau> key st ts S A m B b" and L: "view_ok \<tau> (tk_order cfg) L'"
    and c: "apply_change \<tau> (tk_order cfg) (Edit node old) S = Some (slice c L')"
    and old: "node_row old = m" and mx: "tk_less cfg m (node_row node)"
  shows "push_ok cfg \<tau> key S (slice c L')
    (push_edit_at_bound cfg (input_of (tk_order cfg) rel L') st node old ts b key (get_max_bound st) c Greater)"
proof -
  let ?x = "node_row node" and ?S' = "slice c L'"
  let ?B' = "ins_by (make_comparator (tk_order cfg) False) (node_row node) B"
  let ?h = "hd ?B'"
  note D = window_ctxD [OF W] and E = edit_view [OF window_ctxD(4) [OF W] c]
    and S' = edit_bound_row [OF W c old]
  have S2: "?S' = A @ ?B'"
    unfolding S'(1) using window_rows(1) [OF W] by (intro ins_above [OF E(4) D(13) mx]) auto
  note t = first_past [OF W E(4,3) S2 refl]
  obtain o' where o': "take_cmp cfg ?h ?x = Some o'" "o' = Equal \<longleftrightarrow> ?h = ?x" using t(3) by blast
  have f: "fetch_bounded (input_of (tk_order cfg) rel L') b At c False = Some (map (\<lambda>r. Node r (rel r)) ?B')"
    by (rule fetch_at_gap(1) [OF D(16,11) L S2])
      (use window_gap [OF W] window_below [OF W] window_rows(2) [OF W] mx E(4) in auto)
  show ?thesis
  proof (cases "?h = ?x")
    case True
    obtain st' where "set_take_state cfg st key (ts_size ts) (Some ?x) (get_max_bound st) = Some st'"
      "push_ok cfg \<tau> key S ?S' (Some (st', [emit st' None (Edit node old)]))"
      using edit_new_bound [OF W c t(1)] old S'(2-) True by auto
    then show ?thesis using f o' True by (simp add: push_edit_at_bound_def)
  next
    case False
    with t(2) have "?h \<in> set B" by simp
    then have "?h \<notin> set (A @ [m])" using view_ok_distinct [OF D(4)] D(5) by auto
    then obtain st' where "set_take_state cfg st key (ts_size ts) (Some ?h) (get_max_bound st) = Some st'"
      "push_ok cfg \<tau> key S ?S' (Some (st', [emit st' (Some ?h) (Remove old), emit st' None (Add (Node ?h (rel ?h)))]))"
      using edit_swap_bound [OF W c t(1), of ?h "Node ?h (rel ?h)" ?h old] old S'(2,3) by auto
    then show ?thesis using f o' False by (simp add: push_edit_at_bound_def Let_def)
  qed
qed

lemma edit_outside_ok:
  assumes W: "window_ctx cfg \<tau> key st ts S A m B b" and L: "view_ok \<tau> (tk_order cfg) L'"
    and c: "apply_change \<tau> (tk_order cfg) (Edit node old) S = Some (slice c L')"
    and old: "node_row old \<in> set B" and cmp: "take_cmp cfg (node_row node) m = Some new_cmp"
  shows "push_ok cfg \<tau> key S (slice c L')
    (push_edit_outside cfg (input_of (tk_order cfg) rel L') st node ts b key (get_max_bound st) c new_cmp)"
proof -
  let ?x = "node_row node" and ?n = "tk_limit cfg" and ?S' = "slice c L'"
  let ?ins = "ins_by (make_comparator (tk_order cfg) False) (node_row node)" and ?B = "remove1 (node_row old) B"
  note D = window_ctxD [OF W] and E = edit_view [OF window_ctxD(4) [OF W] c]
  have dist: "distinct (A @ m # B)" using view_ok_distinct [OF D(4)] D(5) by simp
  have S': "?S' = ?ins (A @ m # ?B)" using E(2) D(5) old dist by (auto simp: remove1_append)
  have n: "?n = Suc (length A)" using D(7) old by (cases B) auto
  have sB: "set ?B \<subseteq> set B" by (rule set_remove1_subset)
  have ne: "new_cmp \<noteq> Equal" using E(5) [of m] D(5) old dist cmp by (auto simp: take_cmp_eq)
  show ?thesis
  proof (cases "new_cmp = Greater")
    case True
    then have mx: "tk_less cfg m ?x" using cmp row_cmp.gt_iff [OF E(4) D(13)] by (simp add: take_cmp_eq)
    have "?S' = (A @ [m]) @ ?ins ?B"
      unfolding S' using ins_above [OF E(4) D(13) mx, of "A @ [m]" ?B] window_rows(1) [OF W] by simp
    then have "take ?n ?S' = take ?n S" "?S' \<noteq> []" "min ?n (length ?S') = min ?n (length S)"
      using n D(5,6) by auto
    then have "push_ok cfg \<tau> key S ?S' (Some (st, []))"
      using slice_inv_same_window [OF D(18)] D(5) by (intro emit_none) auto
    with True show ?thesis by (simp add: push_edit_outside_def)
  next
    case False
    then have xm: "tk_less cfg ?x m" using ne cmp by (cases new_cmp) (auto simp: take_cmp_eq lt_by_def)
    have S2: "?S' = ?ins A @ m # ?B"
      unfolding S' by (rule row_cmp.ins_by_append_lt [OF E(4) D(13,14) xm])
    have t: "take ?n ?S' = ?ins A" using S2 n by simp
    have "?x \<notin> set (A @ [m])" using E(6) D(5) old dist by auto
    then obtain st' where "set_take_state cfg st key (ts_size ts) (Some (last (?ins A))) (get_max_bound st) = Some st'"
      "push_ok cfg \<tau> key S ?S' (Some (st', [emit st' (Some ?x) (Remove (Node m (rel m))), emit st' None (Add node)]))"
      using edit_swap_bound [OF W c t, of "last (?ins A)" node ?x "Node m (rel m)"] dist by auto
    then show ?thesis
      using False ne fetch_at_row(3) [OF D(16,11) L S2 D(12), of rel]
      by (simp add: push_edit_outside_def hd_rev)
  qed
qed

lemma edit_inside_row:
  assumes W: "window_ctx cfg \<tau> key st ts S A m B b"
    and c: "apply_change \<tau> (tk_order cfg) (Edit node old) S = Some S'" and old: "node_row old \<in> set A"
  shows "S' = ins_by (make_comparator (tk_order cfg) False) (node_row node) (remove1 (node_row old) A @ m # B)"
    "set (remove1 (node_row old) A) = set A - {node_row old}" "node_row old \<noteq> m"
    "Suc (length (remove1 (node_row old) A)) = length A" "node_row node \<noteq> m" "node_row node \<notin> set A - {node_row old}"
    "node_row node \<notin> set B"
proof -
  note D = window_ctxD [OF W] and E = edit_view [OF window_ctxD(4) [OF W] c]
  have dist: "distinct (A @ m # B)" using view_ok_distinct [OF D(4)] D(5) by simp
  show "S' = ins_by (make_comparator (tk_order cfg) False) (node_row node) (remove1 (node_row old) A @ m # B)"
    using E(2) D(5) old by (simp add: remove1_append)
  show "set (remove1 (node_row old) A) = set A - {node_row old}" using dist by (intro set_remove1_eq) simp
  show "Suc (length (remove1 (node_row old) A)) = length A"
    using old by (simp add: length_remove1) (metis Suc_pred length_pos_if_in_set)
  show "node_row old \<noteq> m" "node_row node \<noteq> m" "node_row node \<notin> set A - {node_row old}" "node_row node \<notin> set B"
    using E(6) D(5) old dist by auto
qed

lemma change_set_edit:
  "node_row old \<in> S \<Longrightarrow> node_row node = node_row old \<or> node_row node \<notin> S \<Longrightarrow>
   S' = insert (node_row node) (S - {node_row old}) \<Longrightarrow> change_set (Edit node old) S = Some S'"
  by simp

lemma edit_inside_less_ok:
  assumes W: "window_ctx cfg \<tau> key st ts S A m B b"
    and c: "apply_change \<tau> (tk_order cfg) (Edit node old) S = Some S'"
    and old: "node_row old \<in> set A" and xm: "tk_less cfg (node_row node) m"
  shows "push_ok cfg \<tau> key S S' (Some (st, [emit st None (Edit node old)]))"
proof -
  let ?A' = "ins_by (make_comparator (tk_order cfg) False) (node_row node) (remove1 (node_row old) A)"
  note D = window_ctxD [OF W] and E = edit_view [OF window_ctxD(4) [OF W] c]
    and S' = edit_inside_row [OF W c old]
  have typed: "set (remove1 (node_row old) A) \<subseteq> typed_rows \<tau> (tk_order cfg)" using S'(2) D(14) by auto
  have S2: "S' = (?A' @ [m]) @ B"
    unfolding S'(1) using row_cmp.ins_by_append_lt [OF E(4) D(13) typed xm, of B] by simp
  have A': "a \<in> typed_rows \<tau> (tk_order cfg) \<and> tk_less cfg a m" if "a \<in> set ?A'" for a
    using that window_below [OF W, of a] xm E(4) set_remove1_subset [of "node_row old" A]
    by (auto simp only: set_ins_by)
  have cs: "change_set (Edit node old) (set (A @ [m])) = Some (set (?A' @ [m]))"
  proof (rule change_set_edit)
    show "set (?A' @ [m]) = insert (node_row node) (set (A @ [m]) - {node_row old})"
      using S'(2,3) by (simp add: insert_Diff_if insert_commute)
  qed (use old S'(5,6) in auto)
  have "length ?A' = length A" using S'(4) by simp
  moreover have "take_cmp cfg m m = Some Equal" using D(13) by (simp add: take_cmp_eq)
  ultimately show ?thesis by (rule edit_keep_state [OF W c S2 _ _ D(13) A' cs])
qed

lemma edit_inside_greater_ok:
  assumes W: "window_ctx cfg \<tau> key st ts S A m B b" and L: "view_ok \<tau> (tk_order cfg) L'"
    and c: "apply_change \<tau> (tk_order cfg) (Edit node old) S = Some (slice c L')"
    and old: "node_row old \<in> set A" and mx: "tk_less cfg m (node_row node)"
  shows "push_ok cfg \<tau> key S (slice c L')
    (push_edit_inside cfg (input_of (tk_order cfg) rel L') st node old ts b key (get_max_bound st) c Greater)"
proof -
  let ?x = "node_row node" and ?n = "tk_limit cfg" and ?S' = "slice c L'" and ?P = "remove1 (node_row old) A @ [m]"
  let ?B' = "ins_by (make_comparator (tk_order cfg) False) (node_row node) B"
  let ?h = "hd ?B'"
  note D = window_ctxD [OF W] and E = edit_view [OF window_ctxD(4) [OF W] c]
    and S' = edit_inside_row [OF W c old]
  have rows: "p \<in> typed_rows \<tau> (tk_order cfg) \<and> \<not> tk_less cfg m p" if "p \<in> set ?P" for p
    using that window_rows(1) [OF W, of p] S'(2) by auto
  have S2: "?S' = ?P @ ?B'"
    unfolding S'(1) using ins_above [OF E(4) D(13) mx rows, of ?P B] by simp
  have len: "length ?P = length A" using S'(4) by simp
  note t = first_past [OF W E(4,3) S2 len]
  obtain o' where o': "take_cmp cfg ?h ?x = Some o'" "o' = Equal \<longleftrightarrow> ?h = ?x" using t(3) by blast
  have "?S' = remove1 (node_row old) A @ m # ?B'" using S2 by simp
  note f = fetch_at_row(2) [OF D(16,11) L this D(12), of rel]
  have W': "length (?P @ [?h]) = Suc (length A)" using len by simp
  show ?thesis
  proof (cases "?h = ?x")
    case True
    have "change_set (Edit node old) (set (A @ [m])) = Some (set (?P @ [?h]))"
    proof (rule change_set_edit)
      show "set (?P @ [?h]) = insert ?x (set (A @ [m]) - {node_row old})"
        using S'(2,3) True by (simp add: insert_Diff_if insert_commute)
    qed (use old S'(5,6) in auto)
    then obtain st' where "set_take_state cfg st key (ts_size ts) (Some (last (?P @ [?h]))) (get_max_bound st) = Some st'"
      "push_ok cfg \<tau> key S ?S' (Some (st', [emit st' None (Edit node old)]))"
      by (rule edit_new_bound [OF W c t(1) W']) (rule that)
    then show ?thesis using f o' True by (simp add: push_edit_inside_def Let_def)
  next
    case False
    with t(2) have "?h \<in> set B" by simp
    then have hW: "?h \<notin> set (A @ [m])" using view_ok_distinct [OF D(4)] D(5) by auto
    have sets: "set (?P @ [?h]) = insert ?h (set (A @ [m]) - {node_row old})" using S'(2,3) by auto
    obtain st' where st': "set_take_state cfg st key (ts_size ts) (Some ?h) (get_max_bound st) = Some st'"
      "slice_inv cfg \<tau> key ?S' st'" "shown cfg key ?S' st' None = take ?n ?S'"
      by (rule edit_swap_bound [OF W c t(1) W' _ _ _ hW _ sets, of ?h "Node ?h (rel ?h)"])
        (use old that in simp_all)
    have sh: "shown cfg key ?S' st None = ?P"
      unfolding S2
    proof (rule shown_old_state [OF W rows])
      show "q \<in> typed_rows \<tau> (tk_order cfg) \<and> tk_less cfg m q" if "q \<in> set ?B'" for q
        using that window_rows(2) [OF W, of q] mx E(4) by auto
    qed
    have "push_ok cfg \<tau> key S ?S' (Some (st', [emit st None (Remove old), emit st' None (Add (Node ?h (rel ?h)))]))"
    proof (rule emit_refill [OF D(4) E(3)])
      show "view_ok \<tau> (tk_order cfg) (shown cfg key ?S' st None)"
        using E(3) [unfolded S2] unfolding sh by (auto simp: view_ok_iff sorted_wrt_append)
    qed (use sh S'(2,3) t(1) D(6,18) old hW sets st' in auto)
    with st' f o' False show ?thesis by (simp add: push_edit_inside_def Let_def)
  qed
qed

section \<open>Every push\<close>

lemma push_edit_ok:
  assumes cfg: "cfg_ok cfg" and st: "store_ok cfg \<tau> st" and key: "key \<noteq> max_bound_key"
    and get: "get_take_state st key = Some (Some ts)" and ts: "state_for cfg \<tau> S ts"
    and S: "view_ok \<tau> (tk_order cfg) S" and L: "view_ok \<tau> (tk_order cfg) L'"
    and c: "apply_change \<tau> (tk_order cfg) (Edit node old) S = Some (slice c L')"
    and same: "same_partition cfg (node_row old) (node_row node) = Some True"
    and gsc: "get_state_and_constraint cfg st (node_row old) = Some (Some ts, key, get_max_bound st, c)"
  shows "push_ok cfg \<tau> key S (slice c L') (push_edit cfg (input_of (tk_order cfg) rel L') st node old)"
proof -
  let ?x = "node_row node" and ?o = "node_row old"
  note E = edit_view [OF S c]
  have "S \<noteq> []" using E(1) by auto
  then obtain A m B b where W: "window_ctx cfg \<tau> key st ts S A m B b"
    by (rule window_ctx_intro [OF cfg st key get ts S])
  note D = window_ctxD [OF W]
  have oT: "?o \<in> typed_rows \<tau> (tk_order cfg)" using E(1) S by (auto simp: view_ok_iff)
  obtain nc where nc: "take_cmp cfg ?x m = Some nc"
    using row_cmp.total [OF E(4) D(13)] by (auto simp: take_cmp_eq)
  then have cx: "take_cmp cfg ?x b = Some nc" using window_ctx_cmp(1) [OF W E(4)] by simp
  have co: "take_cmp cfg ?o b = take_cmp cfg ?o m" using window_ctx_cmp(1) [OF W oT] .
  note code = push_edit_def same gsc D(10) cx co
  consider "?o = m" | "?o \<in> set A" | "?o \<in> set B" using E(1) D(5) by auto
  then show ?thesis
  proof cases
    case 1
    then have "take_cmp cfg ?o m = Some Equal" using D(13) by (simp add: take_cmp_eq)
    moreover have "push_ok cfg \<tau> key S (slice c L')
        (push_edit_at_bound cfg (input_of (tk_order cfg) rel L') st node old ts b key (get_max_bound st) c nc)"
      using edit_bound_equal_ok [OF W c 1] edit_bound_less_ok [OF W L c 1] edit_bound_greater_ok [OF W L c 1] nc
        row_cmp.gt_iff [OF E(4) D(13)]
      by (cases nc) (auto simp: push_edit_at_bound_def [of _ _ _ _ _ _ _ _ _ _ Equal] take_cmp_eq lt_by_def)
    ultimately show ?thesis by (simp add: code)
  next
    case 2
    then have "take_cmp cfg ?o m = Some Less"
      using window_ctx_less(1) [OF W 2] by (simp add: take_cmp_eq lt_by_def)
    moreover have "nc \<noteq> Equal" using E(5) [of m] D(5) edit_inside_row(3) [OF W c 2] nc by (auto simp: take_cmp_eq)
    then have "push_ok cfg \<tau> key S (slice c L')
        (push_edit_inside cfg (input_of (tk_order cfg) rel L') st node old ts b key (get_max_bound st) c nc)"
      using edit_inside_less_ok [OF W c 2] edit_inside_greater_ok [OF W L c 2] nc row_cmp.gt_iff [OF E(4) D(13)]
      by (cases nc) (auto simp: push_edit_inside_def [of _ _ _ _ _ _ _ _ _ _ Less] take_cmp_eq lt_by_def)
    ultimately show ?thesis by (simp add: code)
  next
    case 3
    then have "take_cmp cfg ?o m = Some Greater"
      using window_ctx_less(2) [OF W 3] row_cmp.gt_iff [OF oT D(13)] by (simp add: take_cmp_eq)
    then show ?thesis using edit_outside_ok [OF W L c 3 nc] by (simp add: code)
  qed
qed

text \<open>The row that decides a change's partition.\<close>

fun change_row :: "change \<Rightarrow> row" where
  "change_row (Add n) = node_row n"
| "change_row (Remove n) = node_row n"
| "change_row (Child n c) = node_row n"
| "change_row (Edit n old) = node_row old"

abbreviation row_key :: "take_cfg \<Rightarrow> row \<Rightarrow> string" where
  "row_key cfg r \<equiv> get_take_state_key (tk_fmt cfg) (tk_partition_key cfg) (Some r)"

definition stays_in_partition :: "take_cfg \<Rightarrow> change \<Rightarrow> bool" where
  "stays_in_partition cfg ch =
     (case ch of Edit n old \<Rightarrow> same_partition cfg (node_row old) (node_row n) = Some True | _ \<Rightarrow> True)"

lemma child_ok:
  assumes "cfg_ok cfg" "store_ok cfg \<tau> st" "key \<noteq> max_bound_key" "get_take_state st key = Some (Some ts)"
    and "state_for cfg \<tau> S ts" "view_ok \<tau> (tk_order cfg) S"
    and c: "apply_change \<tau> (tk_order cfg) (Child node ch) S = Some S'"
    and b: "ts_bound ts = Some b"
  shows "\<exists>o'. take_cmp cfg (node_row node) b = Some o' \<and>
    push_ok cfg \<tau> key S S' (Some (st, if o' \<noteq> Greater then [emit st None (Child node ch)] else []))"
proof -
  let ?x = "node_row node"
  have x: "?x \<in> set S" "S' = S" using c by (auto simp: apply_change_def option_mono split: if_splits)
  then have "S \<noteq> []" by auto
  then obtain A m B b' where W: "window_ctx cfg \<tau> key st ts S A m B b'"
    by (rule window_ctx_intro [OF assms(1-6)])
  note D = window_ctxD [OF W]
  have b': "b' = b" using D(10) b by simp
  have xT: "?x \<in> typed_rows \<tau> (tk_order cfg)" using x assms(6) by (auto simp: view_ok_iff)
  have cmp: "take_cmp cfg ?x b = take_cmp cfg ?x m" using window_ctx_cmp(1) [OF W xT] b' by simp
  then obtain o' where o': "take_cmp cfg ?x b = Some o'"
    using row_cmp.total [OF xT D(13)] by (auto simp: take_cmp_eq)
  have "o' \<noteq> Greater \<longleftrightarrow> ?x \<in> set (A @ [m])"
    using x(1) D(5) window_rows [OF W, of ?x] row_cmp.gt_iff [OF xT D(13)] o' cmp by (auto simp: take_cmp_eq)
  moreover have "shown cfg key S st None = take (tk_limit cfg) S"
    using shown_old_state [OF W window_rows [OF W], of "A @ [m]" B] D(5,6) by simp
  ultimately have "push_ok cfg \<tau> key S S (Some (st, if o' \<noteq> Greater then [emit st None (Child node ch)] else []))"
    using D(6,18) emit_one [OF D(4,4), of "Child node ch" key st] emit_none [OF D(18) refl] by simp
  with o' x(2) show ?thesis by simp
qed

lemma take_push_slice:
  assumes cfg: "cfg_ok cfg" and L: "view_ok \<tau> (tk_order cfg) L" "view_ok \<tau> (tk_order cfg) L'"
    and key: "key = row_key cfg (change_row ch)" and cc: "cc = partition_constraint cfg (change_row ch)"
    and c: "apply_change \<tau> (tk_order cfg) ch (slice cc L) = Some (slice cc L')"
    and same: "stays_in_partition cfg ch"
    and inv: "slice_inv cfg \<tau> key (slice cc L) st"
  shows "push_ok cfg \<tau> key (slice cc L) (slice cc L') (take_push cfg (input_of (tk_order cfg) rel L') st ch)"
proof -
  have S: "view_ok \<tau> (tk_order cfg) (slice cc L)" unfolding slice_def by (rule view_ok_filter [OF L(1)])
  have k: "key \<noteq> max_bound_key" using key by simp
  obtain ts where st: "store_ok cfg \<tau> st" and ts: "get_take_state st key = Some (Some ts)" "state_for cfg \<tau> (slice cc L) ts"
    using inv by (auto simp: slice_inv_def)
  have gsc: "get_state_and_constraint cfg st (change_row ch) = Some (Some ts, key, get_max_bound st, cc)"
    using ts(1) key cc by (simp add: get_state_and_constraint_def)
  note A = cfg st k ts S
  show ?thesis
  proof (cases ch)
    case (Add n)
    then show ?thesis using push_add_ok [OF A L(2)] c gsc by (simp add: take_push_def)
  next
    case (Remove n)
    then show ?thesis using push_remove_ok [OF A L(2)] c gsc by (simp add: take_push_def)
  next
    case (Edit n old)
    then show ?thesis
      using push_edit_ok [OF A L(2)] c gsc same by (simp add: take_push_def stays_in_partition_def)
  next
    case (Child n x)
    show ?thesis
    proof (cases "ts_bound ts")
      case None
      then have "slice cc L = []" using ts(2) by (simp add: state_for_def)
      then show ?thesis using c Child by (simp add: apply_change_def)
    next
      case (Some b)
      then show ?thesis using child_ok [OF A c [unfolded Child] Some] gsc Child by (auto simp: take_push_def)
    qed
  qed
qed

lemma emissions_apply:
  "emissions_ok cfg \<tau> key S V es V' \<Longrightarrow> apply_changes \<tau> (tk_order cfg) (map em_change es) V = Some V'"
  by (induction es arbitrary: V) auto

section \<open>The first fetch\<close>

lemma initial_loop_eq:
  assumes "sz < limit" "limit < 2 ^ 53"
  shows "initial_loop limit sz bound out nodes =
    (let k = min (limit - sz) (length nodes) in
     (sz + k, if k = 0 then bound else Some (node_row (nodes ! (k - 1))), out @ take k nodes))"
  using assms
proof (induction nodes arbitrary: sz bound out)
  case (Cons n nodes)
  show ?case
  proof (cases "Suc sz = limit")
    case True
    then have "limit - sz = Suc 0" by simp
    with True Cons.prems show ?thesis by (simp add: Let_def)
  next
    case False
    then have lt: "Suc sz < limit" using Cons.prems by simp
    then obtain d where d: "limit - sz = Suc (Suc d)" by (metis Suc_diff_Suc Suc_lessD)
    then have "limit - Suc sz = Suc d" by simp
    with False Cons.IH [OF lt Cons.prems(2), of "Some (node_row n)" "out @ [n]"] d Cons.prems show ?thesis
      by (cases "min (Suc d) (length nodes)") (auto simp: Let_def min_Suc_Suc min_def split: if_splits)
  qed
qed simp

lemma initial_fetch_ok:
  assumes cfg: "cfg_ok cfg" and st: "store_ok cfg \<tau> st" and L: "view_ok \<tau> (tk_order cfg) L"
    and m: "constraint_matches_partition_key cc (tk_partition_key cfg)"
    and key: "key = get_take_state_key (tk_fmt cfg) (tk_partition_key cfg) cc"
    and new: "get_take_state st key = Some None"
  shows "\<exists>st'. initial_fetch cfg (input_of (tk_order cfg) rel L) st (default_request\<lparr>req_constraint := cc\<rparr>) =
      Some (st', map (\<lambda>r. Node r (rel r)) (take (tk_limit cfg) (slice cc L))) \<and>
    slice_inv cfg \<tau> key (slice cc L) st'"
proof -
  let ?S = "slice cc L" and ?n = "tk_limit cfg"
  have n: "0 < ?n" "?n < 2 ^ 53" using cfg by (auto simp: cfg_ok_def)
  have S: "view_ok \<tau> (tk_order cfg) ?S" unfolding slice_def by (rule view_ok_filter [OF L])
  define k where "k = min ?n (length ?S)"
  define b where "b = (if k = 0 then None else Some (?S ! (k - 1)))"
  have k: "k = 0 \<longleftrightarrow> ?S = []" "k \<le> length ?S" using n by (auto simp: k_def min_def split: if_splits)
  have loop: "initial_loop ?n 0 None [] (map (\<lambda>r. Node r (rel r)) ?S) =
      (k, b, map (\<lambda>r. Node r (rel r)) (take ?n ?S))"
    using initial_loop_eq [OF n, of None "[]" "map (\<lambda>r. Node r (rel r)) ?S"] k(2)
    by (auto simp: k_def b_def Let_def take_map min_def)
  have last: "last (take ?n ?S) = ?S ! (k - 1)" if "k \<noteq> 0"
    using that k by (auto simp: last_conv_nth k_def min_def)
  have bT: "max_bound_ok cfg \<tau> b"
    using S k by (auto simp: max_bound_ok_def b_def view_ok_iff subset_eq split: if_splits)
  obtain st' where st': "set_take_state cfg st key k b (get_max_bound st) = Some st'" "storage_ok st'"
    "get_take_state st' key = Some (Some \<lparr>ts_size = k, ts_bound = b\<rparr>)" "max_bound_ok cfg \<tau> (get_max_bound st')"
    using set_take_state_ok [OF _ _ _ _ bT, of st key k "get_max_bound st"] st n key
    by (auto simp: store_ok_def k_def min_less_iff_disj)
  have "slice_inv cfg \<tau> key ?S st'"
    using st' k last bT
    by (auto simp: slice_inv_def store_ok_def state_for_def k_def [symmetric] b_def max_bound_ok_def take_cmp_eq
        split: if_splits)
  moreover have "initial_fetch cfg (input_of (tk_order cfg) rel L) st (default_request\<lparr>req_constraint := cc\<rparr>) =
      Some (st', map (\<lambda>r. Node r (rel r)) (take ?n ?S))"
    using m key new n(1) loop st'(1) slice_fetch_eq [of "tk_order cfg" rel L cc]
    by (simp add: initial_fetch_def default_request_def)
  ultimately show ?thesis by blast
qed

section \<open>Later fetches\<close>

lemma bounded_loop_eq:
  assumes "set S \<subseteq> typed_rows \<tau> (tk_order cfg)" "sorted_wrt (tk_less cfg) S" "b \<in> typed_rows \<tau> (tk_order cfg)"
    and "\<And>h. hidden = Some h \<Longrightarrow> h \<in> typed_rows \<tau> (tk_order cfg)"
  shows "bounded_loop cfg b hidden (map (\<lambda>r. Node r (rel r)) S) =
    Some (map (\<lambda>r. Node r (rel r)) (filter (\<lambda>r. take_cmp cfg b r \<noteq> Some Less \<and>
      (case hidden of None \<Rightarrow> True | Some h \<Rightarrow> take_cmp cfg h r \<noteq> Some Equal)) S))"
  using assms(1,2)
proof (induction S)
  case (Cons r S)
  have rT: "r \<in> typed_rows \<tau> (tk_order cfg)" using Cons.prems by simp
  obtain o' where o': "take_cmp cfg b r = Some o'" using row_cmp.total [OF assms(3) rT] by (auto simp: take_cmp_eq)
  show ?case
  proof (cases "o' = Less")
    case True
    have "take_cmp cfg b q = Some Less" if "q \<in> set S" for q
      using row_cmp.lt_trans [OF assms(3) rT, of q] Cons.prems that o' True by (auto simp: take_cmp_eq lt_by_def)
    with True o' show ?thesis by (simp add: filter_empty_conv)
  next
    case False
    have "take_cmp cfg h r \<noteq> None" if "hidden = Some h" for h
      using row_cmp.total [OF assms(4) [OF that] rT] by (simp add: take_cmp_eq)
    with False o' Cons show ?thesis by (cases hidden) auto
  qed
qed simp

lemma take_fetch_shown:
  assumes L: "view_ok \<tau> (tk_order cfg) L" and e: "readable cfg \<tau> key e"
    and m: "constraint_matches_partition_key cc (tk_partition_key cfg)"
    and key: "key = get_take_state_key (tk_fmt cfg) (tk_partition_key cfg) cc"
  shows "take_fetch cfg (em_hidden e) (input_of (tk_order cfg) rel L) (em_store e)
      (default_request\<lparr>req_constraint := cc\<rparr>) =
    Some (em_store e, map (\<lambda>r. Node r (rel r)) (shown cfg key (slice cc L) (em_store e) (em_hidden e)))"
proof -
  obtain ts where ts: "get_take_state (em_store e) key = Some (Some ts)" "max_bound_ok cfg \<tau> (ts_bound ts)"
    "max_bound_ok cfg \<tau> (em_hidden e)"
    using e by (auto simp: readable_def)
  have S: "set (slice cc L) \<subseteq> typed_rows \<tau> (tk_order cfg)" "sorted_wrt (tk_less cfg) (slice cc L)"
    using L by (auto simp: slice_def view_ok_iff sorted_wrt_filter)
  have br: "tk_partition_key cfg = None \<or> cc \<noteq> None"
    using m by (auto simp: constraint_matches_partition_key_def split: option.splits)
  show ?thesis
    using ts br m key slice_fetch_eq [of "tk_order cfg" rel L cc] bounded_loop_eq [OF S, where rel = rel]
    by (auto simp: take_fetch_def shown_def max_bound_ok_def default_request_def split: option.splits)
qed

section \<open>The operator contract\<close>

definition take_op :: "take_cfg \<Rightarrow> col_types \<Rightarrow> (row \<Rightarrow> (string \<times> node list) list) \<Rightarrow> storage op_push" where
  "take_op cfg \<tau> rel st L c =
     do {
       L' \<leftarrow> apply_change \<tau> (tk_order cfg) c L;
       (st', ems) \<leftarrow> take_push cfg (input_of (tk_order cfg) rel L') st c;
       Some (st', map em_change ems)
     }"

definition take_inv :: "take_cfg \<Rightarrow> col_types \<Rightarrow> storage \<Rightarrow> row list \<Rightarrow> bool" where
  "take_inv cfg \<tau> st L \<longleftrightarrow>
     cfg_ok cfg \<and> tk_partition_key cfg = None \<and>
     slice_inv cfg \<tau> (get_take_state_key (tk_fmt cfg) None None) L st"

lemma global_key [simp]: "get_take_state_key fmt None (Some r) = get_take_state_key fmt None None"
  by (simp add: get_take_state_key_def)

lemma take_push_global:
  assumes inv: "take_inv cfg \<tau> st L" and L: "view_ok \<tau> (tk_order cfg) L"
    and c: "apply_change \<tau> (tk_order cfg) ch L = Some L'"
  shows "push_ok cfg \<tau> (get_take_state_key (tk_fmt cfg) None None) L L'
    (take_push cfg (input_of (tk_order cfg) rel L') st ch)"
proof -
  have p: "tk_partition_key cfg = None" "cfg_ok cfg" using inv by (auto simp: take_inv_def)
  then have "stays_in_partition cfg ch"
    by (cases ch) (auto simp: stays_in_partition_def same_partition_def)
  moreover have "partition_constraint cfg (change_row ch) = None" using p by (simp add: partition_constraint_def)
  ultimately show ?thesis
    using take_push_slice [OF p(2) L apply_change_ok [OF c] refl refl, of ch st rel] p c inv
    by (simp add: take_inv_def)
qed

interpretation tak: ivm_operator \<tau> "tk_order cfg" "take_inv cfg \<tau>" "\<lambda>_. take (tk_limit cfg)" "take_op cfg \<tau> rel"
  for \<tau> cfg rel
proof (unfold_locales, goal_cases)
  case (1 L s)
  then show ?case by (intro view_ok_take)
next
  case (2 L st c L')
  from take_push_global [OF 2(2,1,3), of rel] obtain st' ems where
    "take_push cfg (input_of (tk_order cfg) rel L') st c = Some (st', ems)"
    "slice_inv cfg \<tau> (get_take_state_key (tk_fmt cfg) None None) L' st'"
    "apply_changes \<tau> (tk_order cfg) (map em_change ems) (take (tk_limit cfg) L) = Some (take (tk_limit cfg) L')"
    by (auto simp: push_ok_def dest: emissions_apply)
  with 2 show ?case by (auto simp: take_op_def take_inv_def)
qed

text \<open>The pipelines a query with a condition, a start and a limit is built as.\<close>

interpretation flt_tak: ivm_pair \<tau> "tk_order cfg" "\<lambda>_ _. True" "\<lambda>_. filter q" "filter_op q"
  "take_inv cfg \<tau>" "\<lambda>_. take (tk_limit cfg)" "take_op cfg \<tau> rel" for \<tau> cfg q rel
  by unfold_locales

interpretation skp_tak: ivm_pair \<tau> "tk_order cfg" "\<lambda>sk _. skip_ok \<tau> (tk_order cfg) sk" "\<lambda>sk. filter (present sk)" skip_op
  "take_inv cfg \<tau>" "\<lambda>_. take (tk_limit cfg)" "take_op cfg \<tau> rel" for \<tau> cfg rel
  by unfold_locales

lemma emissions_ok_take:
  "emissions_ok cfg \<tau> key S V es V' \<Longrightarrow> k < length es \<Longrightarrow>
   apply_changes \<tau> (tk_order cfg) (map em_change (take (Suc k) es)) V =
     Some (shown cfg key S (em_store (es ! k)) (em_hidden (es ! k))) \<and> readable cfg \<tau> key (es ! k) \<and>
   length (shown cfg key S (em_store (es ! k)) (em_hidden (es ! k))) \<le> tk_limit cfg"
proof (induction es arbitrary: V k)
  case (Cons e es)
  then show ?case by (cases k) auto
qed simp

text \<open>A change of rows that all match a constraint is a change of the slice of that constraint.\<close>

lemma slice_change:
  assumes L: "view_ok \<tau> order L" and c: "apply_change \<tau> order ch L = Some L'"
    and m: "\<And>r. r \<in> change_rows ch \<Longrightarrow> constraint_matches_row cc r"
  shows "apply_change \<tau> order ch (slice (Some cc) L) = Some (slice (Some cc) L')"
proof -
  have "filter_push (\<lambda>r. Some (constraint_matches_row cc r)) ch = Some (Some ch)"
    using m by (cases ch) auto
  from filter_push_kept [OF this apply_change_set [OF L c]] show ?thesis
    using view_ok_filter [OF L] view_ok_filter [OF apply_change_ok [OF c]]
    by (intro apply_change_intro) (auto simp: slice_def)
qed

section \<open>What a push writes\<close>

definition writes :: "take_cfg \<Rightarrow> storage \<Rightarrow> string \<Rightarrow> push_result \<Rightarrow> bool" where
  "writes cfg st key res \<longleftrightarrow>
     (\<forall>st' ems. res = Some (st', ems) \<longrightarrow> st' = st \<or> (\<exists>n b mb. set_take_state cfg st key n b mb = Some st'))"

lemma writes_intros:
  "writes cfg st key (Some (st, ems))"
  "writes cfg st key (set_take_state cfg st key n b mb \<bind> (\<lambda>st'. Some (st', es st')))"
  by (auto simp: writes_def option_mono)

lemma writes_bind: "(\<And>x. m = Some x \<Longrightarrow> writes cfg st key (f x)) \<Longrightarrow> writes cfg st key (m \<bind> f)"
  by (cases m) (auto simp: writes_def)

lemma writes_cases:
  "(p \<Longrightarrow> writes cfg st key x) \<Longrightarrow> (\<not> p \<Longrightarrow> writes cfg st key y) \<Longrightarrow> writes cfg st key (if p then x else y)"
  "writes cfg st key x \<Longrightarrow> (\<And>v. writes cfg st key (f v)) \<Longrightarrow>
    writes cfg st key (case u of None \<Rightarrow> x | Some v \<Rightarrow> f v)"
  "(\<And>v w. writes cfg st key (g v w)) \<Longrightarrow> writes cfg st key (case uv of (v, w) \<Rightarrow> g v w)"
  "writes cfg st key x \<Longrightarrow> writes cfg st key y \<Longrightarrow> writes cfg st key (case p of True \<Rightarrow> x | False \<Rightarrow> y)"
  "writes cfg st key x \<Longrightarrow> writes cfg st key y \<Longrightarrow> writes cfg st key z \<Longrightarrow>
    writes cfg st key (case o' of Less \<Rightarrow> x | Equal \<Rightarrow> y | Greater \<Rightarrow> z)"
  by (auto split: option.split prod.split ordering.split bool.split)

lemma push_add_writes: "writes cfg st key (push_add cfg input st node ts key mb c)"
  unfolding push_add_def Let_def by (rule writes_intros writes_cases | rule writes_bind)+

lemma push_remove_writes: "writes cfg st key (push_remove cfg input st node ts key mb c)"
  unfolding push_remove_def by (rule writes_intros writes_cases | rule writes_bind)+

lemma push_edit_parts_write:
  "writes cfg st key (push_edit_at_bound cfg input st node old ts b key mb c new_cmp)"
  "writes cfg st key (push_edit_outside cfg input st node ts b key mb c new_cmp)"
  "writes cfg st key (push_edit_inside cfg input st node old ts b key mb c new_cmp)"
  unfolding push_edit_at_bound_def push_edit_outside_def push_edit_inside_def Let_def
  by (rule writes_intros writes_cases | rule writes_bind)+

lemma writes_gsc:
  assumes "\<And>t mb c. writes cfg st (row_key cfg r) (f t (row_key cfg r) mb c)"
  shows "writes cfg st (row_key cfg r) (get_state_and_constraint cfg st r \<bind> (\<lambda>(t, key, mb, c). f t key mb c))"
proof (rule writes_bind)
  fix x assume "get_state_and_constraint cfg st r = Some x"
  then obtain t mb c where "x = (t, row_key cfg r, mb, c)"
    by (auto simp: get_state_and_constraint_def Let_def option_mono split: if_splits)
  with assms show "writes cfg st (row_key cfg r) (case x of (t, key, mb, c) \<Rightarrow> f t key mb c)" by simp
qed

lemma push_edit_writes: "writes cfg st (row_key cfg (node_row old)) (push_edit cfg input st node old)"
  unfolding push_edit_def
  by (rule writes_gsc writes_intros writes_cases push_edit_parts_write | rule writes_bind)+

lemma take_push_writes: "writes cfg st (row_key cfg (change_row ch)) (take_push cfg input st ch)"
  by (cases ch; simp only: take_push_def change.case change_row.simps)
    (rule writes_gsc writes_intros writes_cases push_add_writes push_remove_writes push_edit_writes | rule writes_bind)+

section \<open>Sample states\<close>

definition sample_take :: "nat \<Rightarrow> primary_key option \<Rightarrow> take_cfg" where
  "sample_take n pk =
     \<lparr>tk_limit = n, tk_partition_key = pk, tk_schema = SourceSchema ''t'' [''id''] sample_order [],
      tk_fmt = (\<lambda>_. '''')\<rparr>"

definition sample_store :: "nat \<Rightarrow> primary_key option \<Rightarrow> constraint option \<Rightarrow> storage" where
  "sample_store n pk c =
     (case initial_fetch (sample_take n pk) (input_of sample_order (\<lambda>_. []) sample_table) []
        (default_request\<lparr>req_constraint := c\<rparr>) of
        Some (st, _) \<Rightarrow> st
      | None \<Rightarrow> [])"

section \<open>Properties\<close>

text \<open>
  C4. Take maintains its window: for a global limit, every legal change of the input is pushed
  without a panic, the changes \<open>Take::push\<close> emits turn the first \<open>limit\<close> rows of the old input into
  the first \<open>limit\<close> rows of the new input, each legal where it is emitted, and the stored size and
  bound describe the new window.
\<close>

theorem take_push_maintains_window:
  assumes "take_inv cfg \<tau> st L" "view_ok \<tau> (tk_order cfg) L" "apply_change \<tau> (tk_order cfg) c L = Some L'"
  shows "\<exists>st' ems. take_push cfg (input_of (tk_order cfg) rel L') st c = Some (st', ems) \<and>
    apply_changes \<tau> (tk_order cfg) (map em_change ems) (take (tk_limit cfg) L) = Some (take (tk_limit cfg) L') \<and>
    take_inv cfg \<tau> st' L'"
  using take_push_global [OF assms, of rel] assms(1) by (auto simp: push_ok_def take_inv_def dest: emissions_apply)

theorem take_push_maintains_window_witness:
  "\<exists>st' ems. take_push (sample_take 2 None)
      (input_of sample_order (\<lambda>_. []) [sample_row 1 2, sample_row 1 3, sample_row 2 4])
      (sample_store 2 None None) (Remove (node_new (sample_row 1 1))) = Some (st', ems) \<and>
    apply_changes sample_types sample_order (map em_change ems) [sample_row 1 1, sample_row 1 2] =
      Some [sample_row 1 2, sample_row 1 3]"
proof -
  have o': "tk_order (sample_take 2 None) = sample_order" by (simp add: sample_take_def)
  have "take_inv (sample_take 2 None) sample_types (sample_store 2 None None) sample_table" by code_simp
  moreover have "view_ok sample_types sample_order sample_table" by code_simp
  moreover have "apply_change sample_types sample_order (Remove (node_new (sample_row 1 1))) sample_table =
      Some [sample_row 1 2, sample_row 1 3, sample_row 2 4]" by code_simp
  ultimately show ?thesis
    using take_push_maintains_window [of "sample_take 2 None" sample_types "sample_store 2 None None" sample_table
        "Remove (node_new (sample_row 1 1))" _ "\<lambda>_. []", unfolded o']
    by (auto simp: sample_table_def sample_take_def)
qed

text \<open>
  C5. Fetches during a push: while a push of a global limit is under way, a fetch made at any
  emission returns exactly the rows the consumer holds after applying the emissions up to and
  including that one, and they are never more than \<open>limit\<close>, also between the removal of the old
  bound and the addition that replaces it.
\<close>

theorem take_fetch_during_push:
  assumes "take_inv cfg \<tau> st L" "view_ok \<tau> (tk_order cfg) L" "apply_change \<tau> (tk_order cfg) c L = Some L'"
    and "take_push cfg (input_of (tk_order cfg) rel L') st c = Some (st', ems)" "k < length ems"
  shows "\<exists>V. apply_changes \<tau> (tk_order cfg) (map em_change (take (Suc k) ems)) (take (tk_limit cfg) L) = Some V \<and>
    take_fetch cfg (em_hidden (ems ! k)) (input_of (tk_order cfg) rel L') (em_store (ems ! k)) default_request =
      Some (em_store (ems ! k), map (\<lambda>r. Node r (rel r)) V) \<and>
    length V \<le> tk_limit cfg"
proof -
  let ?key = "get_take_state_key (tk_fmt cfg) None None"
  have p: "tk_partition_key cfg = None" using assms(1) by (simp add: take_inv_def)
  have "emissions_ok cfg \<tau> ?key L' (take (tk_limit cfg) L) ems (take (tk_limit cfg) L')"
    using take_push_global [OF assms(1-3), of rel] assms(4) by (auto simp: push_ok_def)
  then have e: "apply_changes \<tau> (tk_order cfg) (map em_change (take (Suc k) ems)) (take (tk_limit cfg) L) =
      Some (shown cfg ?key L' (em_store (ems ! k)) (em_hidden (ems ! k)))"
    "readable cfg \<tau> ?key (ems ! k)" "length (shown cfg ?key L' (em_store (ems ! k)) (em_hidden (ems ! k))) \<le> tk_limit cfg"
    using emissions_ok_take assms(5) by blast+
  have d: "default_request\<lparr>req_constraint := None\<rparr> = default_request" by (simp add: default_request_def)
  have "constraint_matches_partition_key None (tk_partition_key cfg)"
    using p by (simp add: constraint_matches_partition_key_def)
  from take_fetch_shown [OF apply_change_ok [OF assms(3)] e(2) this, of rel, unfolded p d] e(1,3)
  show ?thesis by (intro exI [where x = "shown cfg ?key L' (em_store (ems ! k)) (em_hidden (ems ! k))"]) (simp add: slice_def)
qed

definition sample_ems :: "emission list" where
  "sample_ems =
     (case take_push (sample_take 2 None)
        (input_of sample_order (\<lambda>_. []) [sample_row 0 9, sample_row 1 1, sample_row 1 2, sample_row 1 3, sample_row 2 4])
        (sample_store 2 None None) (Add (node_new (sample_row 0 9))) of
        Some (_, ems) \<Rightarrow> ems
      | None \<Rightarrow> [])"

theorem take_fetch_during_push_witness:
  "\<exists>V. apply_changes sample_types sample_order (map em_change (take (Suc 0) sample_ems))
      [sample_row 1 1, sample_row 1 2] = Some V \<and>
    take_fetch (sample_take 2 None) (em_hidden (sample_ems ! 0))
      (input_of sample_order (\<lambda>_. []) [sample_row 0 9, sample_row 1 1, sample_row 1 2, sample_row 1 3, sample_row 2 4])
      (em_store (sample_ems ! 0)) default_request =
      Some (em_store (sample_ems ! 0), map (\<lambda>r. Node r []) V) \<and> length V \<le> 2"
proof -
  let ?L' = "[sample_row 0 9, sample_row 1 1, sample_row 1 2, sample_row 1 3, sample_row 2 4]"
  have o': "tk_order (sample_take 2 None) = sample_order" by (simp add: sample_take_def)
  have "take_inv (sample_take 2 None) sample_types (sample_store 2 None None) sample_table" by code_simp
  moreover have "view_ok sample_types sample_order sample_table" by code_simp
  moreover have "apply_change sample_types sample_order (Add (node_new (sample_row 0 9))) sample_table = Some ?L'"
    by code_simp
  moreover have "\<exists>st'. take_push (sample_take 2 None) (input_of sample_order (\<lambda>_. []) ?L') (sample_store 2 None None)
      (Add (node_new (sample_row 0 9))) = Some (st', sample_ems)"
  proof -
    have "take_push (sample_take 2 None) (input_of sample_order (\<lambda>_. []) ?L') (sample_store 2 None None)
      (Add (node_new (sample_row 0 9))) \<noteq> None" by code_simp
    then show ?thesis by (auto simp: sample_ems_def)
  qed
  moreover have "0 < length sample_ems" by code_simp
  ultimately show ?thesis
    using take_fetch_during_push [of "sample_take 2 None" sample_types "sample_store 2 None None" sample_table
        "Add (node_new (sample_row 0 9))" ?L' "\<lambda>_. []" _ sample_ems 0, unfolded o']
    by (auto simp: sample_table_def sample_take_def)
qed

text \<open>
  C6. The first fetch: hydrating a \<open>Take\<close> (a fetch of a partition that has no state yet, or of the
  whole input for a global limit) returns the first \<open>limit\<close> rows of the partition and stores a state
  that describes them.
\<close>

theorem take_first_fetch:
  assumes "cfg_ok cfg" "store_ok cfg \<tau> st" "view_ok \<tau> (tk_order cfg) L"
    and "constraint_matches_partition_key cc (tk_partition_key cfg)"
    and "get_take_state st (get_take_state_key (tk_fmt cfg) (tk_partition_key cfg) cc) = Some None"
  shows "\<exists>st'. take_fetch cfg None (input_of (tk_order cfg) rel L) st (default_request\<lparr>req_constraint := cc\<rparr>) =
      Some (st', map (\<lambda>r. Node r (rel r)) (take (tk_limit cfg) (slice cc L))) \<and>
    slice_inv cfg \<tau> (get_take_state_key (tk_fmt cfg) (tk_partition_key cfg) cc) (slice cc L) st'"
proof -
  have "tk_partition_key cfg = None \<or> cc \<noteq> None"
    using assms(4) by (auto simp: constraint_matches_partition_key_def split: option.splits)
  then show ?thesis
    using initial_fetch_ok [OF assms(1-4) refl assms(5), of rel] assms(4,5)
    by (auto simp: take_fetch_def default_request_def)
qed

theorem take_first_fetch_witness:
  "\<exists>st'. take_fetch (sample_take 2 (Some [''a''])) None (input_of sample_order (\<lambda>_. []) sample_table) []
      (default_request\<lparr>req_constraint := Some [(''a'', JNumber (F_Fin 1))]\<rparr>) =
      Some (st', map (\<lambda>r. Node r []) [sample_row 1 1, sample_row 1 2])"
proof -
  let ?cfg = "sample_take 2 (Some [''a''])" and ?c = "Some [(''a'', JNumber (F_Fin 1))]"
  have o': "tk_order ?cfg = sample_order" by (simp add: sample_take_def)
  have "cfg_ok ?cfg" "store_ok ?cfg sample_types []" "view_ok sample_types sample_order sample_table"
    "constraint_matches_partition_key ?c (tk_partition_key ?cfg)" by code_simp+
  moreover have "get_take_state [] (get_take_state_key (tk_fmt ?cfg) (tk_partition_key ?cfg) ?c) = Some None"
    by (simp add: get_take_state_def storage_get_def)
  moreover have "take (tk_limit ?cfg) (slice ?c sample_table) = [sample_row 1 1, sample_row 1 2]" by code_simp
  ultimately show ?thesis
    using take_first_fetch [of ?cfg sample_types "[]" sample_table ?c "\<lambda>_. []", unfolded o'] by auto
qed

end
