(* ===== verification/Ivm_Exists.thy ===== *)
theory Ivm_Exists
  imports Ivm_Operator Json_Text "HOL-Library.AList"
begin

text \<open>
  The \<open>Exists\<close> operator (\<open>zero-cache-zql/src/ivm/exists.rs\<close>): a parent stream filtered by whether
  a child relationship of each parent is non-empty, or empty for \<open>NOT EXISTS\<close>. The operator reads
  the size of the relationship off the node of each change, records it in its storage, and turns a
  child change that crosses between empty and non-empty into an add or a remove of the parent.
\<close>

section \<open>The operator\<close>

datatype exists_type = Exists | NotExists

fun primary_node :: "change \<Rightarrow> node" where
  "primary_node (Add node) = node"
| "primary_node (Remove node) = node"
| "primary_node (Edit node old_node) = node"
| "primary_node (Child node child) = node"

record exists =
  exists_relationship :: string
  parent_join_key :: "string list"
  exists_not :: bool

definition exists_new :: "string \<Rightarrow> string list \<Rightarrow> exists_type \<Rightarrow> exists" where
  "exists_new name key t =
     \<lparr>exists_relationship = name, parent_join_key = key, exists_not = (t = NotExists)\<rparr>"

definition cache_key :: "(rat \<Rightarrow> string) \<Rightarrow> exists \<Rightarrow> node \<Rightarrow> string" where
  "cache_key fmt ex node = stringify fmt (JArray (map (get (node_row node)) (parent_join_key ex)))"

definition relationship_size :: "exists \<Rightarrow> node \<Rightarrow> nat" where
  "relationship_size ex node =
     (case map_of (relationships node) (exists_relationship ex) of
        Some children \<Rightarrow> length children
      | None \<Rightarrow> 0)"

definition store_size :: "(rat \<Rightarrow> string) \<Rightarrow> exists \<Rightarrow> node \<Rightarrow> nat \<Rightarrow> storage \<Rightarrow> storage" where
  "store_size fmt ex node sz = storage_set (cache_key fmt ex node) (JNumber (F_Fin (of_nat sz)))"

text \<open>The cast \<open>n as usize\<close> of a stored size truncates towards zero and saturates at the
  bounds of the 64-bit type.\<close>

definition cached_size :: "(rat \<Rightarrow> string) \<Rightarrow> exists \<Rightarrow> storage \<Rightarrow> node \<Rightarrow> nat option" where
  "cached_size fmt ex st node =
     (case storage_get st (cache_key fmt ex node) None of
        Some (JNumber (F_Fin q)) \<Rightarrow> Some (nat (min (2 ^ 64 - 1) \<lfloor>q\<rfloor>))
      | Some (JNumber F_PosInf) \<Rightarrow> Some (nat (2 ^ 64 - 1))
      | Some (JNumber _) \<Rightarrow> Some 0
      | _ \<Rightarrow> None)"

definition passes :: "exists \<Rightarrow> bool \<Rightarrow> bool" where
  "passes ex e = (if exists_not ex then \<not> e else e)"

definition node_with_relationship :: "exists \<Rightarrow> node \<Rightarrow> node list \<Rightarrow> node" where
  "node_with_relationship ex node children =
     Node (node_row node) (AList.update (exists_relationship ex) children (relationships node))"

definition push_with_filter ::
  "(rat \<Rightarrow> string) \<Rightarrow> exists \<Rightarrow> storage \<Rightarrow> change \<Rightarrow> bool option \<Rightarrow> storage \<times> change list" where
  "push_with_filter fmt ex st change exists_override =
     (let node = primary_node change;
          sz = relationship_size ex node;
          st' = store_size fmt ex node sz st;
          e = (case exists_override of Some e \<Rightarrow> e | None \<Rightarrow> 0 < sz)
      in (st', if passes ex e then [change] else []))"

fun exists_fetch_loop ::
  "(rat \<Rightarrow> string) \<Rightarrow> exists \<Rightarrow> storage \<Rightarrow> node list \<Rightarrow> storage \<times> node list" where
  "exists_fetch_loop fmt ex st [] = (st, [])"
| "exists_fetch_loop fmt ex st (node # nodes) =
     (let sz = relationship_size ex node;
          st' = store_size fmt ex node sz st;
          (st'', rest) = exists_fetch_loop fmt ex st' nodes
      in (st'', if passes ex (0 < sz) then node # rest else rest))"

definition exists_fetch ::
  "(rat \<Rightarrow> string) \<Rightarrow> exists \<Rightarrow> storage \<Rightarrow> input \<Rightarrow> fetch_request \<Rightarrow> (storage \<times> node list) option" where
  "exists_fetch fmt ex st input req = map_option (exists_fetch_loop fmt ex st) (input req)"

definition exists_push ::
  "(rat \<Rightarrow> string) \<Rightarrow> exists \<Rightarrow> storage \<Rightarrow> change \<Rightarrow> storage \<times> change list" where
  "exists_push fmt ex st change =
     (case change of
        Child node (ChildData name child) \<Rightarrow>
          if name = exists_relationship ex then
            (case child of
               Add _ \<Rightarrow>
                 let sz = relationship_size ex node; st' = store_size fmt ex node sz st in
                 if sz = 1 then
                   (st', [if exists_not ex then Remove (node_with_relationship ex node []) else Add node])
                 else push_with_filter fmt ex st' change (Some (0 < sz))
             | Remove removed_child \<Rightarrow>
                 let sz = relationship_size ex node; st' = store_size fmt ex node sz st in
                 if sz = 0 then
                   (st', [if exists_not ex then Add node
                          else Remove (node_with_relationship ex node [removed_child])])
                 else push_with_filter fmt ex st' change (Some (0 < sz))
             | _ \<Rightarrow> push_with_filter fmt ex st change None)
          else push_with_filter fmt ex st change None
      | _ \<Rightarrow> push_with_filter fmt ex st change None)"

section \<open>Specification\<close>

text \<open>
  The input of the operator is a view \<open>L\<close> of parents together with the size \<open>R\<close> of the watched
  relationship of each. \<open>exists_view\<close> is what the operator shows of it. A change of the input is
  consistent when the node it carries shows the size after the change, a child change on the
  watched relationship moves the size by one, an edit of the parent leaves the relationship as
  empty or non-empty as it was (an edit of the join key arrives as a remove and an add), and
  no other parent's size changes.
\<close>

definition exists_view :: "exists \<Rightarrow> (row \<Rightarrow> nat) \<Rightarrow> row list \<Rightarrow> row list" where
  "exists_view ex R L = filter (\<lambda>r. passes ex (0 < R r)) L"

fun size_step :: "exists \<Rightarrow> change \<Rightarrow> (row \<Rightarrow> nat) \<Rightarrow> nat \<Rightarrow> bool" where
  "size_step ex (Add n) R sz \<longleftrightarrow> True"
| "size_step ex (Remove n) R sz \<longleftrightarrow> sz = R (node_row n)"
| "size_step ex (Edit n old) R sz \<longleftrightarrow> (0 < sz \<longleftrightarrow> 0 < R (node_row old))"
| "size_step ex (Child n (ChildData name child)) R sz \<longleftrightarrow>
     (if name = exists_relationship ex then
        (case child of
           Add _ \<Rightarrow> sz = Suc (R (node_row n))
         | Remove _ \<Rightarrow> Suc sz = R (node_row n)
         | _ \<Rightarrow> sz = R (node_row n))
      else sz = R (node_row n))"

definition exists_consistent ::
  "exists \<Rightarrow> change \<Rightarrow> row list \<Rightarrow> (row \<Rightarrow> nat) \<Rightarrow> (row \<Rightarrow> nat) \<Rightarrow> bool" where
  "exists_consistent ex c L R R' \<longleftrightarrow>
     (let n = primary_node c in
      relationship_size ex n = R' (node_row n) \<and> size_step ex c R (relationship_size ex n) \<and>
      list_all (\<lambda>r. r = node_row n \<or> R' r = R r) L)"


section \<open>The emitted changes maintain the view\<close>

lemma set_exists_view: "set (exists_view ex R L) = {r \<in> set L. passes ex (0 < R r)}"
  by (auto simp: exists_view_def)

lemma exists_view_ok: "view_ok \<tau> order L \<Longrightarrow> view_ok \<tau> order (exists_view ex R L)"
  unfolding exists_view_def by (rule view_ok_filter)

lemma exists_emit_one:
  assumes "view_ok \<tau> order L" "view_ok \<tau> order L'"
    "change_set d {r \<in> set L. passes ex (0 < R r)} = Some {r \<in> set L'. passes ex (0 < R' r)}"
  shows "apply_changes \<tau> order [d] (exists_view ex R L) = Some (exists_view ex R' L')"
  using apply_change_intro [OF exists_view_ok [OF assms(1)] exists_view_ok [OF assms(2)]] assms(3)
  by (simp add: set_exists_view)

lemma exists_emit_none:
  assumes "view_ok \<tau> order L" "view_ok \<tau> order L'"
    "{r \<in> set L. passes ex (0 < R r)} = {r \<in> set L'. passes ex (0 < R' r)}"
  shows "apply_changes \<tau> order [] (exists_view ex R L) = Some (exists_view ex R' L')"
  using view_ok_unique [OF exists_view_ok [OF assms(1)] exists_view_ok [OF assms(2)]] assms(3)
  by (simp add: set_exists_view)

text \<open>A change that leaves the parent as empty or non-empty as it was runs through the filter.\<close>

fun keeps_verdict :: "change \<Rightarrow> (row \<Rightarrow> bool) \<Rightarrow> (row \<Rightarrow> bool) \<Rightarrow> bool" where
  "keeps_verdict (Add n) P P' \<longleftrightarrow> True"
| "keeps_verdict (Remove n) P P' \<longleftrightarrow> P' (node_row n) = P (node_row n)"
| "keeps_verdict (Edit n old) P P' \<longleftrightarrow> P' (node_row n) = P (node_row old)"
| "keeps_verdict (Child n ch) P P' \<longleftrightarrow> P' (node_row n) = P (node_row n)"

lemma filtered_change:
  assumes c: "change_set c S = Some S'" and same: "keeps_verdict c P P'"
    and rest: "\<And>r. r \<in> S \<Longrightarrow> r \<noteq> node_row (primary_node c) \<Longrightarrow> P' r = P r"
  shows "P' (node_row (primary_node c)) \<Longrightarrow> change_set c {r \<in> S. P r} = Some {r \<in> S'. P' r}"
    and "\<not> P' (node_row (primary_node c)) \<Longrightarrow> {r \<in> S. P r} = {r \<in> S'. P' r}"
proof -
  have "(P' (node_row (primary_node c)) \<longrightarrow> change_set c {r \<in> S. P r} = Some {r \<in> S'. P' r}) \<and>
    (\<not> P' (node_row (primary_node c)) \<longrightarrow> {r \<in> S. P r} = {r \<in> S'. P' r})"
  proof (cases c)
    case (Add n)
    with c have "node_row n \<notin> S" "S' = insert (node_row n) S" by (auto split: if_splits)
    moreover have "{r \<in> S. P' r} = {r \<in> S. P r}" using rest Add \<open>node_row n \<notin> S\<close> by auto
    ultimately show ?thesis using Add by auto
  next
    case (Remove n)
    with c have "node_row n \<in> S" "S' = S - {node_row n}" by (auto split: if_splits)
    moreover have "{r \<in> S - {node_row n}. P' r} = {r \<in> S - {node_row n}. P r}" using rest Remove by auto
    ultimately show ?thesis using Remove same by auto
  next
    case (Child n ch)
    with c have "node_row n \<in> S" "S' = S" by (auto split: if_splits)
    moreover have "{r \<in> S. P' r} = {r \<in> S. P r}" using rest Child same by (metis (lifting) keeps_verdict.simps(4) primary_node.simps(4))
    ultimately show ?thesis using Child same by auto
  next
    case (Edit n old)
    with c have o: "node_row old \<in> S" "node_row n = node_row old \<or> node_row n \<notin> S"
      "S' = insert (node_row n) (S - {node_row old})" by (auto split: if_splits)
    moreover have "{r \<in> S - {node_row old}. P' r} = {r \<in> S - {node_row old}. P r}"
      using rest Edit o(2) by auto
    ultimately show ?thesis using Edit same by auto
  qed
  then show "P' (node_row (primary_node c)) \<Longrightarrow> change_set c {r \<in> S. P r} = Some {r \<in> S'. P' r}"
    "\<not> P' (node_row (primary_node c)) \<Longrightarrow> {r \<in> S. P r} = {r \<in> S'. P' r}" by blast+
qed

lemma exists_emit_filtered:
  assumes V: "view_ok \<tau> order L" "view_ok \<tau> order L'" and c: "change_set c (set L) = Some (set L')"
    and rest: "\<And>r. r \<in> set L \<Longrightarrow> r \<noteq> node_row (primary_node c) \<Longrightarrow> R' r = R r"
    and same: "keeps_verdict c (\<lambda>r. passes ex (0 < R r)) (\<lambda>r. passes ex (0 < R' r))"
  shows "apply_changes \<tau> order (if passes ex (0 < R' (node_row (primary_node c))) then [c] else [])
    (exists_view ex R L) = Some (exists_view ex R' L')"
  using filtered_change [OF c same] rest exists_emit_one [OF V, of c ex R R'] exists_emit_none [OF V, of ex R R']
  by (cases "passes ex (0 < R' (node_row (primary_node c)))") simp_all


text \<open>The child change that makes the watched relationship of a parent empty or non-empty.\<close>

fun crossing :: "exists \<Rightarrow> change \<Rightarrow> change option" where
  "crossing ex (Child n (ChildData name (Add ch))) =
     (if name = exists_relationship ex \<and> relationship_size ex n = 1
      then Some (if exists_not ex then Remove (node_with_relationship ex n []) else Add n) else None)"
| "crossing ex (Child n (ChildData name (Remove ch))) =
     (if name = exists_relationship ex \<and> relationship_size ex n = 0
      then Some (if exists_not ex then Add n else Remove (node_with_relationship ex n [ch])) else None)"
| "crossing ex c = None"

lemma exists_push_emits:
  "snd (exists_push fmt ex st c) =
     (case crossing ex c of
        Some d \<Rightarrow> [d]
      | None \<Rightarrow> if passes ex (0 < relationship_size ex (primary_node c)) then [c] else [])"
  by (cases "(ex, c)" rule: crossing.cases; cases "relationship_size ex (primary_node c) = 0")
    (auto simp: exists_push_def push_with_filter_def Let_def)

lemma exists_push_stores:
  "map_of (fst (exists_push fmt ex st c)) =
     (map_of st)(cache_key fmt ex (primary_node c) \<mapsto>
       JNumber (F_Fin (of_nat (relationship_size ex (primary_node c)))))"
  by (cases "(ex, c)" rule: crossing.cases)
    (auto simp: exists_push_def push_with_filter_def Let_def store_size_def map_of_storage_set)

lemma node_row_with_relationship [simp]: "node_row (node_with_relationship ex n cs) = node_row n"
  by (simp add: node_with_relationship_def)

lemma crossing_verdict:
  assumes "crossing ex c = Some d" "size_step ex c R sz" "sz = relationship_size ex (primary_node c)"
  shows "if passes ex (0 < sz) then \<exists>n. d = Add n \<and> node_row n = node_row (primary_node c)
      else \<exists>n. d = Remove n \<and> node_row n = node_row (primary_node c)"
    and "passes ex (0 < R (node_row (primary_node c))) = (\<not> passes ex (0 < sz))"
    and "\<exists>n ch. c = Child n ch"
  using assms by (cases "(ex, c)" rule: crossing.cases; auto simp: passes_def split: if_splits)+

lemma not_crossing_verdict:
  assumes "crossing ex c = None" "size_step ex c R (R' (node_row (primary_node c)))"
    "relationship_size ex (primary_node c) = R' (node_row (primary_node c))"
  shows "keeps_verdict c (\<lambda>r. passes ex (0 < R r)) (\<lambda>r. passes ex (0 < R' r))"
  using assms by (cases "(ex, c)" rule: crossing.cases) (auto simp: passes_def split: if_splits)

lemma exists_emit_crossing:
  assumes V: "view_ok \<tau> order L" "view_ok \<tau> order L'" and c: "change_set c (set L) = Some (set L')"
    and rest: "\<And>r. r \<in> set L \<Longrightarrow> r \<noteq> node_row (primary_node c) \<Longrightarrow> R' r = R r"
    and cr: "crossing ex c = Some d" and sz: "size_step ex c R (relationship_size ex (primary_node c))"
    and R': "relationship_size ex (primary_node c) = R' (node_row (primary_node c))"
  shows "apply_changes \<tau> order [d] (exists_view ex R L) = Some (exists_view ex R' L')"
proof (rule exists_emit_one [OF V])
  let ?r = "node_row (primary_node c)" and ?P = "\<lambda>r. passes ex (0 < R r)" and ?Q = "\<lambda>r. passes ex (0 < R' r)"
  have L: "set L' = set L" "?r \<in> set L"
    using c crossing_verdict(3) [OF cr sz refl] by (auto split: if_splits)
  have v: "?P ?r \<noteq> ?Q ?r" using crossing_verdict(2) [OF cr sz refl] R' by simp
  have rest': "{r \<in> set L. r \<noteq> ?r \<and> ?Q r} = {r \<in> set L. r \<noteq> ?r \<and> ?P r}" using rest by auto
  show "change_set d {r \<in> set L. ?P r} = Some {r \<in> set L'. ?Q r}"
  proof (cases "?Q ?r")
    case True
    then have "\<exists>n. d = Add n \<and> node_row n = ?r" using crossing_verdict(1) [OF cr sz refl] R' by simp
    moreover have "{r \<in> set L'. ?Q r} = insert ?r {r \<in> set L. ?P r}" using L True v rest' by auto
    ultimately show ?thesis using True v by auto
  next
    case False
    then have "\<exists>n. d = Remove n \<and> node_row n = ?r" using crossing_verdict(1) [OF cr sz refl] R' by simp
    moreover have "{r \<in> set L'. ?Q r} = {r \<in> set L. ?P r} - {?r}" using L False v rest' by auto
    ultimately show ?thesis using False v L by auto
  qed
qed

lemma exists_push_ok:
  assumes "view_ok \<tau> order L" "apply_change \<tau> order c L = Some L'" "exists_consistent ex c L R R'"
  shows "apply_changes \<tau> order (snd (exists_push fmt ex st c)) (exists_view ex R L) =
      Some (exists_view ex R' L') \<and>
    map_of (fst (exists_push fmt ex st c)) =
      (map_of st)(cache_key fmt ex (primary_node c) \<mapsto>
        JNumber (F_Fin (of_nat (R' (node_row (primary_node c))))))"
proof -
  let ?n = "primary_node c"
  have con: "relationship_size ex ?n = R' (node_row ?n)" "size_step ex c R (relationship_size ex ?n)"
    and rest: "\<And>r. r \<in> set L \<Longrightarrow> r \<noteq> node_row ?n \<Longrightarrow> R' r = R r"
    using assms(3) by (auto simp: exists_consistent_def Let_def list_all_iff)
  have L': "view_ok \<tau> order L'" and cs: "change_set c (set L) = Some (set L')"
    using apply_change_ok apply_change_set assms(1,2) by blast+
  show ?thesis
  proof (cases "crossing ex c")
    case None
    have "keeps_verdict c (\<lambda>r. passes ex (0 < R r)) (\<lambda>r. passes ex (0 < R' r))"
      using not_crossing_verdict [OF None, of R R'] con by simp
    from exists_emit_filtered [where R = R and R' = R', OF assms(1) L' cs rest this] con None show ?thesis
      by (simp add: exists_push_emits exists_push_stores del: apply_changes.simps)
  next
    case (Some d)
    from exists_emit_crossing [where R = R and R' = R', OF assms(1) L' cs rest Some con(2,1)] con Some
    show ?thesis
      by (simp add: exists_push_emits exists_push_stores del: apply_changes.simps)
  qed
qed



end
