(* ===== verification/Table_Source.thy ===== *)
theory Table_Source
  imports Ivm_Operator
begin

text \<open>
  The in-memory source of the IVM graph (\<open>zero-cache-zql/src/ivm/table_source.rs\<close>). It keeps its
  rows in the order they arrived and sorts them at every fetch. The source is shown to be the
  input that the operator contract assumes: its fetch is a fetch from the sorted view of its rows,
  and the change it emits for a row-level change is legal for that view and leads to the view of
  the rows it holds afterwards.
\<close>

section \<open>The source\<close>

definition pk_values :: "row \<Rightarrow> primary_key \<Rightarrow> json list" where
  "pk_values r primary_key = map (get r) primary_key"

record table_source =
  ts_schema :: source_schema
  ts_rows :: "row list"

definition table_source_new :: "string \<Rightarrow> primary_key \<Rightarrow> sort_order \<Rightarrow> table_source" where
  "table_source_new name primary_key order =
     \<lparr>ts_schema = SourceSchema name primary_key order [], ts_rows = []\<rparr>"

definition find_by_key :: "table_source \<Rightarrow> constraint \<Rightarrow> row option" where
  "find_by_key ts key = find (constraint_matches_row key) (ts_rows ts)"

definition ts_fetch :: "table_source \<Rightarrow> input" where
  "ts_fetch ts req =
     (let matching = (case req_constraint req of
            Some c \<Rightarrow> filter (constraint_matches_row c) (ts_rows ts)
          | None \<Rightarrow> ts_rows ts);
          retained = filter (\<lambda>r. list_all (\<lambda>batch. batch \<noteq> [] \<and> list_ex (\<lambda>c. constraint_matches_row c r) batch)
            (multi_constraints req)) matching
      in do {
           sorted \<leftarrow> sort_by (make_comparator (schema_sort (ts_schema ts)) (req_reverse req)) retained;
           Some (map node_new sorted)
         })"

fun position :: "('a \<Rightarrow> bool) \<Rightarrow> 'a list \<Rightarrow> nat option" where
  "position p [] = None"
| "position p (x # xs) = (if p x then Some 0 else map_option Suc (position p xs))"

definition same_key :: "table_source \<Rightarrow> row \<Rightarrow> row \<Rightarrow> bool" where
  "same_key ts key_row r =
     (let pk = schema_primary_key (ts_schema ts) in json_list_eq (pk_values r pk) (pk_values key_row pk))"

fun ts_push :: "table_source \<Rightarrow> source_change \<Rightarrow> (table_source \<times> change) option" where
  "ts_push ts (SAdd r) =
     do {
       assert_ok (\<not> list_ex (same_key ts r) (ts_rows ts));
       Some (ts\<lparr>ts_rows := ts_rows ts @ [r]\<rparr>, Add (node_new r))
     }"
| "ts_push ts (SRemove r) =
     do {
       idx \<leftarrow> position (same_key ts r) (ts_rows ts);
       Some (ts\<lparr>ts_rows := take idx (ts_rows ts) @ drop (Suc idx) (ts_rows ts)\<rparr>, Remove (node_new r))
     }"
| "ts_push ts (SEdit r old_row) =
     do {
       idx \<leftarrow> position (same_key ts old_row) (ts_rows ts);
       Some (ts\<lparr>ts_rows := (ts_rows ts)[idx := r]\<rparr>, Edit (node_new r) (node_new old_row))
     }"

section \<open>Specification\<close>

text \<open>
  What a table guarantees: every row is typed in the sort columns, the sort order contains the
  primary key, and no two rows have the same primary key. The view of the source is its rows,
  sorted.
\<close>

definition ts_ok :: "col_types \<Rightarrow> table_source \<Rightarrow> bool" where
  "ts_ok \<tau> ts \<longleftrightarrow>
     list_all (row_typed \<tau> (schema_sort (ts_schema ts))) (ts_rows ts) \<and>
     list_all (\<lambda>c. c \<in> fst ` set (schema_sort (ts_schema ts))) (schema_primary_key (ts_schema ts)) \<and>
     distinct (map (\<lambda>r. pk_values r (schema_primary_key (ts_schema ts))) (ts_rows ts))"

definition ts_view :: "table_source \<Rightarrow> row list" where
  "ts_view ts = isort_by (make_comparator (schema_sort (ts_schema ts)) False) (ts_rows ts)"

text \<open>
  The changes the replicator sends: a new row has a fresh key, a removed or edited row is the one
  the table holds, and an edited row keeps its key or moves to a fresh one.
\<close>

fun source_change_ok :: "col_types \<Rightarrow> table_source \<Rightarrow> source_change \<Rightarrow> bool" where
  "source_change_ok \<tau> ts (SAdd r) \<longleftrightarrow>
     row_typed \<tau> (schema_sort (ts_schema ts)) r \<and> \<not> list_ex (same_key ts r) (ts_rows ts)"
| "source_change_ok \<tau> ts (SRemove r) \<longleftrightarrow> r \<in> set (ts_rows ts)"
| "source_change_ok \<tau> ts (SEdit r old) \<longleftrightarrow>
     old \<in> set (ts_rows ts) \<and> row_typed \<tau> (schema_sort (ts_schema ts)) r \<and>
     (same_key ts old r \<or> \<not> list_ex (same_key ts r) (ts_rows ts))"

section \<open>Keys of typed rows\<close>

lemma json_list_eq_map:
  "(\<And>x. x \<in> set xs \<Longrightarrow> json_eq (f x) (f x)) \<Longrightarrow> json_list_eq (map f xs) (map f xs)"
  by (induction xs) auto

lemma typed_json_eq_refl: "v \<in> typed_values k \<Longrightarrow> json_eq v v"
  by (elim typed_values_cases) (auto simp: f64_eq_iff)

lemma typed_compare_equal:
  assumes "a \<in> typed_values k" "b \<in> typed_values k" "compare_values a b = Some Equal"
  shows "a = b"
  using assms(1)
proof (cases rule: typed_values_cases)
  case (num x)
  from assms(2) show ?thesis
  proof (cases rule: typed_values_cases)
    case (num y)
    have "f64_eq x y"
      using assms(3) \<open>a = JNumber x\<close> num f64_partial_cmp_total [OF \<open>x \<noteq> F_NaN\<close>, of y]
      by (auto simp: f64_eq_def)
    with num \<open>a = JNumber x\<close> show ?thesis by (simp add: f64_eq_iff)
  qed (use num assms(3) in auto)
qed (use assms in \<open>auto elim!: typed_values_cases\<close>)

lemma typed_comparator_equal:
  assumes "a \<in> typed_rows \<tau> order" "b \<in> typed_rows \<tau> order"
    and "make_comparator order False a b = Some Equal" "(f, d) \<in> set order"
  shows "get a f = get b f"
  using assms
proof (induction order)
  case (Cons fd order)
  obtain g e where fd: "fd = (g, e)" by force
  with Cons.prems have c: "compare_values (get a g) (get b g) = Some Equal"
      "make_comparator order False a b = Some Equal"
    by (auto simp: option_mono Let_def split: if_splits)
  with Cons fd typed_compare_equal [of "get a g" "\<tau> g" "get b g"] show ?case
    by (auto simp: has_kind_typed)
qed simp


lemma same_key_iff:
  assumes "ts_ok \<tau> ts" "k \<in> typed_rows \<tau> (schema_sort (ts_schema ts))"
  shows "same_key ts k r \<longleftrightarrow>
    pk_values r (schema_primary_key (ts_schema ts)) = pk_values k (schema_primary_key (ts_schema ts))"
proof -
  have "json_eq (get k f) (get k f)" if "f \<in> set (schema_primary_key (ts_schema ts))" for f
  proof -
    from that assms(1) obtain d where "(f, d) \<in> set (schema_sort (ts_schema ts))"
      by (auto simp: ts_ok_def list_all_iff)
    then show ?thesis by (rule typed_json_eq_refl [OF typed_rows_get [OF assms(2)]])
  qed
  then have "json_list_eq (pk_values k (schema_primary_key (ts_schema ts)))
      (pk_values k (schema_primary_key (ts_schema ts)))"
    unfolding pk_values_def by (rule json_list_eq_map)
  then show ?thesis
    using json_list_eq_imp_eq by (auto simp: same_key_def Let_def)
qed

lemma equal_rows_same_pk:
  assumes "ts_ok \<tau> ts" "a \<in> typed_rows \<tau> (schema_sort (ts_schema ts))"
    "b \<in> typed_rows \<tau> (schema_sort (ts_schema ts))"
    and "make_comparator (schema_sort (ts_schema ts)) False a b = Some Equal"
  shows "pk_values a (schema_primary_key (ts_schema ts)) = pk_values b (schema_primary_key (ts_schema ts))"
proof -
  have "get a f = get b f" if "f \<in> set (schema_primary_key (ts_schema ts))" for f
  proof -
    from that assms(1) obtain d where "(f, d) \<in> set (schema_sort (ts_schema ts))"
      by (auto simp: ts_ok_def list_all_iff)
    then show ?thesis by (rule typed_comparator_equal [OF assms(2,3,4)])
  qed
  then show ?thesis by (simp add: pk_values_def)
qed

lemma ts_rows_typed: "ts_ok \<tau> ts \<Longrightarrow> set (ts_rows ts) \<subseteq> typed_rows \<tau> (schema_sort (ts_schema ts))"
  by (auto simp: ts_ok_def list_all_iff typed_rows_def)

lemma distinct_map_sorted_wrt: "distinct (map f xs) \<longleftrightarrow> sorted_wrt (\<lambda>a b. f a \<noteq> f b) xs"
  by (induction xs) auto

lemma ts_rows_not_equal:
  assumes "ts_ok \<tau> ts"
  shows "sorted_wrt (\<lambda>a b. make_comparator (schema_sort (ts_schema ts)) False a b \<noteq> Some Equal) (ts_rows ts)"
proof -
  let ?pk = "\<lambda>r. pk_values r (schema_primary_key (ts_schema ts))"
  have "sorted_wrt (\<lambda>a b. ?pk a \<noteq> ?pk b) (ts_rows ts)"
    using assms by (simp add: ts_ok_def distinct_map_sorted_wrt)
  then show ?thesis
    by (rule sorted_wrt_mono_rel [rotated])
      (use equal_rows_same_pk [OF assms] ts_rows_typed [OF assms] in blast)
qed


section \<open>The view of the source\<close>

lemma set_ts_view [simp]: "set (ts_view ts) = set (ts_rows ts)"
  by (simp add: ts_view_def)

lemma ts_view_ok: "ts_ok \<tau> ts \<Longrightarrow> view_ok \<tau> (schema_sort (ts_schema ts)) (ts_view ts)"
  using row_cmp.strict_isort_by [OF ts_rows_typed ts_rows_not_equal] ts_rows_typed
  by (auto simp: view_ok_iff ts_view_def)

text \<open>A fetch in reverse sorts by the reversed comparator, which is a total preorder too.\<close>

interpretation row_cmp_rev: total_cmp "make_comparator order True" "typed_rows \<tau> order" for order \<tau>
proof (unfold_locales, goal_cases)
  case (3 a b c)
  then show ?case using row_cmp.le_trans [of c \<tau> order b a] by (simp add: rev_cmp_iff(1) [where \<tau> = \<tau>])
qed (rule make_comparator_total make_comparator_swap; assumption)+

lemma distinct_isort_by [simp]: "distinct (isort_by cmp xs) \<longleftrightarrow> distinct xs"
  by (induction xs) (auto simp: distinct_ins_by)

lemma isort_filter_view:
  assumes V: "view_ok \<tau> order (isort_by (make_comparator order False) xs)"
  shows "isort_by (make_comparator order rv) (filter P xs) =
    filter P (if rv then rev (isort_by (make_comparator order False) xs)
              else isort_by (make_comparator order False) xs)"
proof -
  let ?V = "isort_by (make_comparator order False) xs" and ?xs = "filter P xs"
  have typed: "set xs \<subseteq> typed_rows \<tau> order" and dist: "distinct xs" and
    srt: "sorted_wrt (lt_by (make_comparator order False)) ?V"
    using V view_ok_distinct [OF V] by (auto simp: view_ok_iff)
  have ne: "make_comparator order rv a b \<noteq> Some Equal" if "a \<in> set xs" "b \<in> set xs" "a \<noteq> b" for a b
    using view_ok_equal_eq [OF V, of a b] that
    by (cases rv) (auto simp: make_comparator_reverse rev_cmp_def)
  have ne_sorted: "sorted_wrt (\<lambda>a b. make_comparator order rv a b \<noteq> Some Equal) ?xs"
    using dist by (intro sorted_wrt_filter sorted_wrt_mono_rel [OF ne])
      (auto simp: distinct_map_sorted_wrt [of "\<lambda>x. x", simplified])
  show ?thesis
  proof (cases rv)
    case True
    have "sorted_wrt (lt_by (make_comparator order True)) (rev ?V)"
      unfolding sorted_wrt_rev
      by (rule sorted_wrt_mono_rel [OF _ srt])
        (use typed rev_cmp_iff(2) [of _ \<tau> order] in \<open>auto simp: subset_iff\<close>)
    then have "sorted_wrt (lt_by (make_comparator order True)) (filter P (rev ?V))"
      by (rule sorted_wrt_filter)
    moreover have "sorted_wrt (lt_by (make_comparator order True)) (isort_by (make_comparator order True) ?xs)"
      by (rule row_cmp_rev.strict_isort_by [where \<tau> = \<tau>]) (use typed ne_sorted True in auto)
    ultimately show ?thesis
      using True typed by (auto intro!: row_cmp_rev.strict_sorted_unique [where \<tau> = \<tau>])
  next
    case False
    have "sorted_wrt (lt_by (make_comparator order False)) (filter P ?V)"
      using srt by (rule sorted_wrt_filter)
    moreover have "sorted_wrt (lt_by (make_comparator order False)) (isort_by (make_comparator order False) ?xs)"
      by (rule row_cmp.strict_isort_by [where \<tau> = \<tau>]) (use typed ne_sorted False in auto)
    ultimately show ?thesis
      using False typed by (auto intro!: row_cmp.strict_sorted_unique [where \<tau> = \<tau>])
  qed
qed

lemma comparator_total_any:
  "set xs \<subseteq> typed_rows \<tau> order \<Longrightarrow>
   sort_by (make_comparator order rv) xs = Some (isort_by (make_comparator order rv) xs)"
  using row_cmp.sort_by_eq [of xs \<tau> order] row_cmp_rev.sort_by_eq [of xs \<tau> order] by (cases rv) auto

lemma ts_fetch_view:
  assumes ok: "ts_ok \<tau> ts" and req: "req_start req = None"
  shows "ts_fetch ts req = input_of (schema_sort (ts_schema ts)) (\<lambda>_. []) (ts_view ts) req"
proof -
  let ?xs = "filter (req_matches req) (ts_rows ts)"
  let ?sort = "schema_sort (ts_schema ts)"
  have typed: "set ?xs \<subseteq> typed_rows \<tau> ?sort" using ts_rows_typed [OF ok] by auto
  have "ts_fetch ts req = map_option (map node_new) (sort_by (make_comparator ?sort (req_reverse req)) ?xs)"
    by (cases "req_constraint req"; cases "sort_by (make_comparator ?sort (req_reverse req)) ?xs")
      (simp_all add: ts_fetch_def req_matches_def [abs_def] Let_def filter_filter conj_commute)
  also have "\<dots> = Some (map node_new (isort_by (make_comparator ?sort (req_reverse req)) ?xs))"
    using comparator_total_any [OF typed, of "req_reverse req"] by simp
  also have "\<dots> = input_of ?sort (\<lambda>_. []) (ts_view ts) req"
    using isort_filter_view [OF ts_view_ok [OF ok, unfolded ts_view_def], of "req_reverse req" "req_matches req"]
    by (simp add: input_of_def fetch_rows_def ts_view_def req in_start_def node_new_def [abs_def])
  finally show ?thesis .
qed


section \<open>Pushing a change\<close>

lemma position_split: "\<forall>a\<in>set A. \<not> p a \<Longrightarrow> p x \<Longrightarrow> position p (A @ x # B) = Some (length A)"
  by (induction A) auto

lemma distinct_map_middle:
  assumes "distinct (map f (A @ x # B))"
  shows "\<forall>a\<in>set A. f a \<noteq> f x" "x \<notin> set A" "x \<notin> set B"
  using assms by (auto simp: image_iff)

lemma distinct_map_replace:
  assumes "distinct (map f (A @ y # B))" "f x = f y \<or> f x \<notin> f ` set (A @ y # B)"
  shows "distinct (map f (A @ x # B))"
  using assms by (elim disjE) (simp_all add: image_Un)

lemma ts_split:
  assumes ok: "ts_ok \<tau> ts" and r: "r \<in> set (ts_rows ts)"
  obtains A B where "ts_rows ts = A @ r # B" "r \<notin> set A" "r \<notin> set B"
    "position (same_key ts r) (ts_rows ts) = Some (length A)"
proof -
  let ?pk = "\<lambda>r. pk_values r (schema_primary_key (ts_schema ts))"
  obtain A B where AB: "ts_rows ts = A @ r # B" using r by (meson split_list)
  have rt: "r \<in> typed_rows \<tau> (schema_sort (ts_schema ts))" using ts_rows_typed [OF ok] r by blast
  have pk: "distinct (map ?pk (A @ r # B))" using ok AB by (simp add: ts_ok_def)
  show thesis
    using distinct_map_middle [OF pk] that [OF AB] position_split [of A "same_key ts r" r B] same_key_iff [OF ok rt] AB by simp
qed

lemma ts_push_intro:
  assumes "ts_ok \<tau> ts" "ts_push ts sc = Some (ts\<lparr>ts_rows := rs\<rparr>, c)"
    "list_all (row_typed \<tau> (schema_sort (ts_schema ts))) rs"
    "distinct (map (\<lambda>r. pk_values r (schema_primary_key (ts_schema ts))) rs)"
    "change_set c (set (ts_rows ts)) = Some (set rs)"
  shows "\<exists>rs c. ts_push ts sc = Some (ts\<lparr>ts_rows := rs\<rparr>, c) \<and> ts_ok \<tau> (ts\<lparr>ts_rows := rs\<rparr>) \<and>
    change_set c (set (ts_rows ts)) = Some (set rs)"
  using assms by (intro exI [of _ rs] exI [of _ c]) (simp add: ts_ok_def)

lemma fresh_key:
  assumes "ts_ok \<tau> ts" "row_typed \<tau> (schema_sort (ts_schema ts)) r"
  shows "list_ex (same_key ts r) (ts_rows ts) \<longleftrightarrow>
    pk_values r (schema_primary_key (ts_schema ts))
      \<in> (\<lambda>r. pk_values r (schema_primary_key (ts_schema ts))) ` set (ts_rows ts)"
  using same_key_iff [OF assms(1), of r] assms(2)
  by (simp add: list_ex_iff typed_rows_def image_iff eq_commute)

lemma ts_push_ok:
  assumes ok: "ts_ok \<tau> ts" and sc: "source_change_ok \<tau> ts sc"
  shows "\<exists>rs c. ts_push ts sc = Some (ts\<lparr>ts_rows := rs\<rparr>, c) \<and> ts_ok \<tau> (ts\<lparr>ts_rows := rs\<rparr>) \<and>
    change_set c (set (ts_rows ts)) = Some (set rs)"
proof (cases sc)
  case (SAdd r)
  with sc have r: "row_typed \<tau> (schema_sort (ts_schema ts)) r" "\<not> list_ex (same_key ts r) (ts_rows ts)"
    by simp_all
  then have "pk_values r (schema_primary_key (ts_schema ts))
      \<notin> (\<lambda>r. pk_values r (schema_primary_key (ts_schema ts))) ` set (ts_rows ts)"
    using fresh_key [OF ok] by blast
  moreover from this have "r \<notin> set (ts_rows ts)" by blast
  ultimately show ?thesis
    using ok r SAdd
    by (intro ts_push_intro [where rs = "ts_rows ts @ [r]" and c = "Add (node_new r)"])
      (simp_all add: node_new_def ts_ok_def)
next
  case (SRemove r)
  with sc have "r \<in> set (ts_rows ts)" by simp
  then obtain A B where AB: "ts_rows ts = A @ r # B" "r \<notin> set A" "r \<notin> set B"
    "position (same_key ts r) (ts_rows ts) = Some (length A)"
    by (rule ts_split [OF ok])
  with ok SRemove show ?thesis
    by (intro ts_push_intro [where rs = "A @ B" and c = "Remove (node_new r)"])
      (simp_all add: node_new_def ts_ok_def)
next
  case (SEdit r old)
  with sc have "old \<in> set (ts_rows ts)" by simp
  then obtain A B where AB: "ts_rows ts = A @ old # B" "old \<notin> set A" "old \<notin> set B"
    "position (same_key ts old) (ts_rows ts) = Some (length A)"
    by (rule ts_split [OF ok])
  let ?pk = "\<lambda>r. pk_values r (schema_primary_key (ts_schema ts))"
  have "old \<in> typed_rows \<tau> (schema_sort (ts_schema ts))" using AB(1) ts_rows_typed [OF ok] by auto
  then have key: "?pk r = ?pk old \<or> ?pk r \<notin> ?pk ` set (ts_rows ts)"
    using sc SEdit same_key_iff [OF ok, of old r] fresh_key [OF ok, of r] by auto
  have d: "distinct (map ?pk (A @ old # B))" using ok AB(1) by (simp add: ts_ok_def)
  have pk: "distinct (map ?pk (A @ r # B))" using distinct_map_replace [OF d] key AB(1) by simp
  have "r \<notin> set A" "r \<notin> set B" using distinct_map_middle [OF pk] by simp_all
  moreover have "change_set (Edit (node_new r) (node_new old)) (set (ts_rows ts)) = Some (set (A @ r # B))"
    using AB(1-3) calculation by (auto simp: node_new_def)
  moreover have "list_all (row_typed \<tau> (schema_sort (ts_schema ts))) (A @ r # B)"
    using ok sc SEdit AB(1) by (simp add: ts_ok_def)
  ultimately show ?thesis
    using AB(1,4) SEdit pk by (intro ts_push_intro [OF ok, where rs = "A @ r # B"])
      (simp_all del: change_set.simps)
qed


definition sample_source :: table_source where
  "sample_source = (table_source_new ''t'' [''id''] sample_order)\<lparr>ts_rows := rev sample_table\<rparr>"


end
