(* ===== verification/Lexi_Version.thy ===== *)
theory Lexi_Version
  imports Json_Text Machine
begin

text \<open>
  Version strings (\<open>zero-cache-types/src\<close>: \<open>lexi_version.rs\<close>, \<open>state_version.rs\<close>, \<open>lsn.rs\<close>). A
  lexi-version is the base-36 text of a number after one base-36 digit holding its length minus
  one, so that the order of the strings is the order of the numbers; a state version is one
  lexi-version or two with a dot between; a Postgres LSN is mapped to one. A Rust \<open>Result\<close> is a
  sum whose \<open>Inl\<close> is the error, and a panic is \<open>None\<close> around it.
\<close>

section \<open>Lexi versions\<close>

datatype version = V_Num f64 | V_Big int

datatype lexi_error =
    LE_Negative
  | LE_UnsafeNumber string
  | LE_TooLarge string
  | LE_TooShort nat
  | LE_Invalid string

definition max_safe_integer :: int where
  "max_safe_integer = 9007199254740991"

definition js_number_to_string :: "'a text_lib_scheme \<Rightarrow> f64 \<Rightarrow> string" where
  "js_number_to_string B n =
     (case n of
        F_Fin q \<Rightarrow> if of_int \<lfloor>q\<rfloor> = q \<and> \<bar>q\<bar> < 10 ^ 21 then int_to_string \<lfloor>q\<rfloor> else fmt_f64 B q
      | F_NaN \<Rightarrow> ''NaN''
      | F_PosInf \<Rightarrow> ''inf''
      | F_NegInf \<Rightarrow> ''-inf'')"

definition version_big :: "'a text_lib_scheme \<Rightarrow> version \<Rightarrow> lexi_error + int" where
  "version_big B v =
     (case v of
        V_Num n \<Rightarrow>
          if f64_partial_cmp n (F_Fin 0) = Some Less then Inl LE_Negative
          else (case n of
             F_Fin q \<Rightarrow>
               if q \<le> of_int max_safe_integer \<and> of_int \<lfloor>q\<rfloor> = q then Inr \<lfloor>q\<rfloor>
               else Inl (LE_UnsafeNumber (js_number_to_string B n))
           | _ \<Rightarrow> Inl (LE_UnsafeNumber (js_number_to_string B n)))
      | V_Big b \<Rightarrow> if b < 0 then Inl LE_Negative else Inr b)"

definition version_to_lexi :: "'a text_lib_scheme \<Rightarrow> version \<Rightarrow> lexi_error + string" where
  "version_to_lexi B v =
     (case version_big B v of
        Inl e \<Rightarrow> Inl e
      | Inr big \<Rightarrow>
          let base36_version = to_str_radix B big 36;
              len = to_str_radix B (int (length base36_version) - 1) 36
          in if length len \<noteq> 1 then Inl (LE_TooLarge (int_to_string big))
             else Inr (len @ base36_version))"

text \<open>The slice \<open>[0..1]\<close> panics inside a multi-byte character.\<close>

definition version_from_lexi :: "'a text_lib_scheme \<Rightarrow> string \<Rightarrow> (lexi_error + int) option" where
  "version_from_lexi B s =
     (if length s < 2 then Some (Inl (LE_TooShort (length s)))
      else if \<not> char_boundary s 1 then None
      else case to_digit 36 (hd s) of
          None \<Rightarrow> Some (Inl (LE_Invalid s))
        | Some expected_len \<Rightarrow>
            if length (tl s) \<noteq> expected_len + 1 then Some (Inl (LE_Invalid s))
            else case parse_bytes B (tl s) 36 of
                None \<Rightarrow> Some (Inl (LE_Invalid s))
              | Some v \<Rightarrow> Some (Inr v))"

fun lexi_max_from :: "string \<Rightarrow> string list \<Rightarrow> string" where
  "lexi_max_from winner [] = winner"
| "lexi_max_from winner (b # bs) = lexi_max_from (if winner > b then winner else b) bs"

definition lexi_max :: "string list \<Rightarrow> string option" where
  "lexi_max versions = do { assert_ok (versions \<noteq> []); Some (lexi_max_from (hd versions) (tl versions)) }"

fun lexi_min_from :: "string \<Rightarrow> string list \<Rightarrow> string" where
  "lexi_min_from winner [] = winner"
| "lexi_min_from winner (b # bs) = lexi_min_from (if winner < b then winner else b) bs"

definition lexi_min :: "string list \<Rightarrow> string option" where
  "lexi_min versions = do { assert_ok (versions \<noteq> []); Some (lexi_min_from (hd versions) (tl versions)) }"

section \<open>State versions\<close>

record state_version =
  sv_major :: int
  sv_minor :: "int option"

definition state_version_from_string :: "'a text_lib_scheme \<Rightarrow> string \<Rightarrow> (lexi_error + state_version) option" where
  "state_version_from_string B ver =
     (if CHR ''.'' \<notin> set ver then
        do {
          m \<leftarrow> version_from_lexi B ver;
          Some (case m of Inl e \<Rightarrow> Inl e | Inr major \<Rightarrow> Inr \<lparr>sv_major = major, sv_minor = None\<rparr>)
        }
      else let parts = split_on (CHR ''.'') ver in
        if length parts \<noteq> 2 then Some (Inl (LE_Invalid (''Invalid stateVersion '' @ ver)))
        else do {
          m \<leftarrow> version_from_lexi B (parts ! 0);
          case m of
            Inl e \<Rightarrow> Some (Inl e)
          | Inr major \<Rightarrow> do {
              n \<leftarrow> version_from_lexi B (parts ! 1);
              Some (case n of Inl e \<Rightarrow> Inl e | Inr minor \<Rightarrow> Inr \<lparr>sv_major = major, sv_minor = Some minor\<rparr>)
            }
        })"

definition state_version_to_string :: "'a text_lib_scheme \<Rightarrow> state_version \<Rightarrow> lexi_error + string" where
  "state_version_to_string B ver =
     (case sv_minor ver of
        None \<Rightarrow> version_to_lexi B (V_Big (sv_major ver))
      | Some minor \<Rightarrow>
          (case version_to_lexi B (V_Big (sv_major ver)) of
             Inl e \<Rightarrow> Inl e
           | Inr s \<Rightarrow>
               (case version_to_lexi B (V_Big minor) of
                  Inl e \<Rightarrow> Inl e
                | Inr t \<Rightarrow> Inr (s @ ''.'' @ t))))"

definition major_version_from_string :: "'a text_lib_scheme \<Rightarrow> string \<Rightarrow> (lexi_error + int) option" where
  "major_version_from_string B ver =
     (if CHR ''.'' \<notin> set ver then version_from_lexi B ver
      else do {
        r \<leftarrow> state_version_from_string B ver;
        Some (case r of Inl e \<Rightarrow> Inl e | Inr sv \<Rightarrow> Inr (sv_major sv))
      })"

definition major_version_to_string :: "'a text_lib_scheme \<Rightarrow> version \<Rightarrow> lexi_error + string" where
  "major_version_to_string B v = version_to_lexi B v"

section \<open>Log sequence numbers\<close>

datatype lsn_error = LSN_Malformed string

definition lsn_to_bigint :: "'a text_lib_scheme \<Rightarrow> string \<Rightarrow> lsn_error + int" where
  "lsn_to_bigint B lsn =
     (let parts = split_on (CHR ''/'') lsn in
      if length parts \<noteq> 2 then Inl (LSN_Malformed lsn)
      else case parse_bytes B (parts ! 0) 16 of
          None \<Rightarrow> Inl (LSN_Malformed lsn)
        | Some high \<Rightarrow>
            (case parse_bytes B (parts ! 1) 16 of
               None \<Rightarrow> Inl (LSN_Malformed lsn)
             | Some low \<Rightarrow> Inr (high * 2 ^ 32 + low)))"

definition lsn_from_bigint :: "'a text_lib_scheme \<Rightarrow> int \<Rightarrow> string" where
  "lsn_from_bigint B val =
     map to_upper (to_str_radix B (val div 2 ^ 32) 16) @ ''/'' @ map to_upper (to_str_radix B (val mod 2 ^ 32) 16)"

text \<open>The \<open>expect\<close> on the encoding is a panic.\<close>

definition to_state_version_string :: "'a text_lib_scheme \<Rightarrow> string \<Rightarrow> (lsn_error + string) option" where
  "to_state_version_string B lsn =
     (case lsn_to_bigint B lsn of
        Inl e \<Rightarrow> Some (Inl e)
      | Inr val \<Rightarrow>
          (case major_version_to_string B (V_Big val) of
             Inl _ \<Rightarrow> None
           | Inr s \<Rightarrow> Some (Inr s)))"

definition from_state_version_string :: "'a text_lib_scheme \<Rightarrow> string \<Rightarrow> (lsn_error + string) option" where
  "from_state_version_string B ver =
     do {
       sv \<leftarrow> state_version_from_string B ver;
       Some (case sv of
          Inl _ \<Rightarrow> Inl (LSN_Malformed ver)
        | Inr sv \<Rightarrow> Inr (lsn_from_bigint B (sv_major sv)))
     }"

section \<open>Codec lemmas\<close>

text \<open>The text of a number, and the limit on what one length digit can announce.\<close>

definition lexi_digits :: "nat \<Rightarrow> nat list" where
  "lexi_digits n = (length (radix_digits 36 n) - 1) # radix_digits 36 n"

abbreviation lexi_text :: "nat \<Rightarrow> string" where
  "lexi_text n \<equiv> map digit_char (lexi_digits n)"

definition encodable :: "int \<Rightarrow> bool" where
  "encodable b \<longleftrightarrow> 0 \<le> b \<and> b < 36 ^ 36"

lemma encodable_digits: "encodable (int n) \<longleftrightarrow> length (radix_digits 36 n) \<le> 36"
  using length_radix_digits [of 36 n 35] by (simp add: encodable_def)

lemma encodable_nat: "encodable b \<Longrightarrow> encodable (int (nat b))"
  by (simp add: encodable_def)

lemma encodable_first: "encodable (int n) \<Longrightarrow> length (radix_digits 36 n) - 1 < 36"
  unfolding encodable_digits by (cases "radix_digits 36 n") auto

lemma lexi_digits_less: "encodable (int n) \<Longrightarrow> \<forall>d\<in>set (lexi_digits n). d < 36"
  using encodable_first [of n] by (auto simp: lexi_digits_def dest: radix_digits_less [rotated])

lemma lexi_digits_order: "lexi_digits n < lexi_digits m \<longleftrightarrow> n < m"
proof -
  let ?n = "radix_digits 36 n" and ?m = "radix_digits 36 m"
  have mono: "length (radix_digits 36 a) \<le> length (radix_digits 36 b)" if "a \<le> b" for a b :: nat
    using that by (simp add: length_radix_mono)
  have eq: "?n < ?m \<longleftrightarrow> n < m" if "length ?n = length ?m"
    using digits_less_iff [OF that, of 36] radix_digits_less [of 36] by simp
  have "length ?n - 1 < length ?m - 1 \<longleftrightarrow> length ?n < length ?m"
    by (cases ?n; cases ?m) auto
  moreover have "length ?n - 1 = length ?m - 1 \<longleftrightarrow> length ?n = length ?m"
    by (cases ?n; cases ?m) auto
  ultimately show ?thesis
    using eq mono [of n m] mono [of m n] by (cases "n < m") (auto simp: lexi_digits_def)
qed

lemma lexi_digits_inj: "lexi_digits n = lexi_digits m \<longleftrightarrow> n = m"
  using lexi_digits_order [of n m] lexi_digits_order [of m n] by (metis linorder_neqE_nat order_less_irrefl)

lemma lexi_digits_same_length: "hd (lexi_digits n) = hd (lexi_digits m) \<Longrightarrow> length (lexi_digits n) = length (lexi_digits m)"
  by (cases "radix_digits 36 n"; cases "radix_digits 36 m") (auto simp: lexi_digits_def)

lemma lexi_text_append_less:
  assumes "encodable (int n)" "encodable (int m)"
  shows "lexi_text n @ x < lexi_text m @ y \<longleftrightarrow> n < m \<or> n = m \<and> x < y"
proof (cases "hd (lexi_digits n) = hd (lexi_digits m)")
  case True
  note l = lexi_digits_same_length [OF True]
  have d: "\<forall>d\<in>set (lexi_digits n). d < 36" "\<forall>d\<in>set (lexi_digits m). d < 36"
    using assms lexi_digits_less by auto
  have less: "lexi_text n < lexi_text m \<longleftrightarrow> n < m" "lexi_text m < lexi_text n \<longleftrightarrow> m < n"
    using map_digit_char_less [OF l d] map_digit_char_less [OF l [symmetric] d(2,1)]
    by (simp_all only: lexi_digits_order)
  then have "lexi_text n = lexi_text m \<longleftrightarrow> n = m" by (metis linorder_neqE_nat order_less_irrefl)
  with less show ?thesis using append_less_iff [of "lexi_text n" "lexi_text m" x y] l by simp
next
  case False
  obtain a as b bs where c: "lexi_digits n = a # as" "lexi_digits m = b # bs" by (auto simp: lexi_digits_def)
  then have "a < 36" "b < 36" "a \<noteq> b" using lexi_digits_less assms False by auto
  moreover have "n < m \<longleftrightarrow> a < b" "n \<noteq> m"
    using c \<open>a \<noteq> b\<close> lexi_digits_order [of n m] by auto
  ultimately show ?thesis using c by (auto simp: digit_char_less digit_char_inj)
qed

lemma lexi_int_less:
  assumes "encodable a" "encodable b"
  shows "lexi_text (nat a) @ x < lexi_text (nat b) @ y \<longleftrightarrow> a < b \<or> a = b \<and> x < y"
    and "lexi_text (nat a) < lexi_text (nat b) @ y \<longleftrightarrow> a < b \<or> a = b \<and> y \<noteq> []"
    and "lexi_text (nat a) @ x < lexi_text (nat b) \<longleftrightarrow> a < b"
    and "lexi_text (nat a) < lexi_text (nat b) \<longleftrightarrow> a < b"
proof -
  have n: "nat a < nat b \<longleftrightarrow> a < b" "nat a = nat b \<longleftrightarrow> a = b" using assms by (auto simp: encodable_def)
  note l = lexi_text_append_less [OF encodable_nat [OF assms(1)] encodable_nat [OF assms(2)], unfolded n]
  show "lexi_text (nat a) @ x < lexi_text (nat b) @ y \<longleftrightarrow> a < b \<or> a = b \<and> x < y" by (rule l)
  show "lexi_text (nat a) < lexi_text (nat b) @ y \<longleftrightarrow> a < b \<or> a = b \<and> y \<noteq> []" using l [of "[]" y] by simp
  show "lexi_text (nat a) @ x < lexi_text (nat b) \<longleftrightarrow> a < b" using l [of x "[]"] by simp
  show "lexi_text (nat a) < lexi_text (nat b) \<longleftrightarrow> a < b" using l [of "[]" "[]"] by simp
qed

lemma digit_char_plain:
  assumes "d < 36"
  shows "digit_char d \<noteq> CHR ''.''" "digit_char d \<noteq> CHR '':''" "digit_char d \<noteq> CHR ''/''"
    "(of_char (digit_char d) :: nat) < 128"
proof -
  have n: "(of_char (digit_char d) :: nat) \<notin> {46, 47, 58}" "(of_char (digit_char d) :: nat) < 128"
    using assms by (auto simp: of_digit_char)
  then show "digit_char d \<noteq> CHR ''.''" "digit_char d \<noteq> CHR '':''" "digit_char d \<noteq> CHR ''/''"
    "(of_char (digit_char d) :: nat) < 128"
    by auto
qed

lemma lexi_text_chars: "encodable (int n) \<Longrightarrow> CHR ''.'' \<notin> set (lexi_text n) \<and> CHR '':'' \<notin> set (lexi_text n)"
  using lexi_digits_less [of n] digit_char_plain by (auto simp: image_iff) (metis digit_char_plain)+

context text_codec
begin

lemma to_lexi:
  "version_to_lexi B (V_Big b) =
    (if b < 0 then Inl LE_Negative
     else if encodable b then Inr (lexi_text (nat b)) else Inl (LE_TooLarge (int_to_string b)))"
proof (cases "b < 0")
  case False
  let ?ds = "radix_digits 36 (nat b)"
  have "length (radix_digits 36 (length ?ds - 1)) \<le> Suc 0 \<longleftrightarrow> length ?ds - 1 < 36"
    using length_radix_digits [of 36 "length ?ds - 1" 0] by simp
  moreover have "1 \<le> length (radix_digits 36 (length ?ds - 1))"
    by (simp add: Suc_le_eq)
  moreover have "encodable b \<longleftrightarrow> length ?ds - 1 < 36"
    using False encodable_digits [of "nat b"] by (cases ?ds) auto
  moreover have "nat (int (length ?ds) - 1) = length ?ds - 1" "0 \<le> int (length ?ds) - 1"
    by (cases ?ds; simp)+
  moreover have "radix_digits 36 (length ?ds - 1) = [length ?ds - 1]" if "length ?ds - 1 < 36"
    using that by (simp add: radix_digits.simps)
  ultimately show ?thesis
    using False by (auto simp: version_to_lexi_def version_big_def print lexi_digits_def Let_def)
qed (simp add: version_to_lexi_def version_big_def)

lemma from_lexi:
  assumes "encodable (int n)"
  shows "version_from_lexi B (lexi_text n) = Some (Inr (int n))"
proof -
  let ?ds = "radix_digits 36 n"
  have len: "length ?ds - 1 < 36" "?ds \<noteq> []" using encodable_first [OF assms] by simp_all
  have "map digit_char ?ds ! 0 = digit_char (hd ?ds)" using len by (simp add: hd_conv_nth)
  moreover have "hd ?ds < 36" using len(2) radix_digits_less [of 36 "hd ?ds" n] by simp
  ultimately have "char_boundary (lexi_text n) 1"
    using digit_char_plain(4) [of "hd ?ds"] len by (simp add: char_boundary_def is_cont_def lexi_digits_def Suc_le_eq)
  moreover have "parse_bytes B (map digit_char ?ds) 36 = Some (int n)"
    using parse_print [of 36 "int n"] by (simp add: print)
  ultimately show ?thesis
    using len by (cases ?ds) (simp_all add: version_from_lexi_def lexi_digits_def)
qed

lemma state_to_string:
  "state_version_to_string B sv = Inr s \<longleftrightarrow>
     encodable (sv_major sv) \<and>
     (case sv_minor sv of
        None \<Rightarrow> s = lexi_text (nat (sv_major sv))
      | Some m \<Rightarrow> encodable m \<and> s = lexi_text (nat (sv_major sv)) @ ''.'' @ lexi_text (nat m))"
  unfolding state_version_to_string_def
  by (auto simp: to_lexi split: option.splits) (auto simp: encodable_def)

lemma state_from_string:
  assumes "encodable (int n)" "encodable (int m)"
  shows "state_version_from_string B (lexi_text n) = Some (Inr \<lparr>sv_major = int n, sv_minor = None\<rparr>)"
    and "state_version_from_string B (lexi_text n @ ''.'' @ lexi_text m) =
      Some (Inr \<lparr>sv_major = int n, sv_minor = Some (int m)\<rparr>)"
proof -
  show "state_version_from_string B (lexi_text n) = Some (Inr \<lparr>sv_major = int n, sv_minor = None\<rparr>)"
    using lexi_text_chars [OF assms(1)] from_lexi [OF assms(1)] by (simp add: state_version_from_string_def)
  show "state_version_from_string B (lexi_text n @ ''.'' @ lexi_text m) =
      Some (Inr \<lparr>sv_major = int n, sv_minor = Some (int m)\<rparr>)"
    using lexi_text_chars assms from_lexi split_on_two [of "CHR ''.''" "lexi_text n" "lexi_text m"]
    by (simp add: state_version_from_string_def Let_def)
qed

end

section \<open>Extremes\<close>

lemma lexi_max_from: "lexi_max_from w vs = Max (set (w # vs))"
proof (induction vs arbitrary: w)
  case (Cons b bs)
  have "(if w > b then w else b) = max w b" by (auto simp: max_def)
  with Cons show ?case by (cases bs) (simp_all add: max.assoc [symmetric] max.commute max.left_commute)
qed simp

lemma lexi_min_from: "lexi_min_from w vs = Min (set (w # vs))"
proof (induction vs arbitrary: w)
  case (Cons b bs)
  have "(if w < b then w else b) = min w b" by (auto simp: min_def)
  with Cons show ?case by (cases bs) (simp_all add: min.assoc [symmetric] min.commute min.left_commute)
qed simp

section \<open>Log sequence numbers as versions\<close>

lemma upper_no_slash:
  assumes "\<forall>d\<in>set ds. d < 36"
  shows "CHR ''/'' \<notin> set (map to_upper (map digit_char ds))"
proof -
  have "to_upper (digit_char d) \<noteq> CHR ''/''" if "d < 36" for d
  proof -
    have "(of_char (to_upper (digit_char d)) :: nat) \<noteq> 47"
      using that by (auto simp: to_upper_def of_digit_char)
    then show ?thesis by auto
  qed
  with assms show ?thesis by (simp add: image_iff) metis
qed

lemma encodable_lsn: "0 \<le> v \<Longrightarrow> v < 2 ^ 64 \<Longrightarrow> encodable v"
proof -
  assume "0 \<le> v" "v < 2 ^ 64"
  moreover have "(2 :: int) ^ 64 \<le> 36 ^ 36" by simp
  ultimately show "encodable v" unfolding encodable_def by linarith
qed

context text_codec
begin

lemma lsn_parts:
  assumes "0 \<le> v"
  shows "split_on (CHR ''/'') (lsn_from_bigint B v) =
    [map to_upper (to_str_radix B (v div 2 ^ 32) 16), map to_upper (to_str_radix B (v mod 2 ^ 32) 16)]"
proof -
  have "CHR ''/'' \<notin> set (map to_upper (to_str_radix B i 16))" if "0 \<le> i" for i
    using that upper_no_slash [of "radix_digits 16 (nat i)"] radix_digits_less [of 16 _ "nat i"]
    by (fastforce simp: print)
  then show ?thesis
    using assms split_on_two by (simp add: lsn_from_bigint_def pos_imp_zdiv_nonneg_iff)
qed

lemma lsn_parse_print: "0 \<le> v \<Longrightarrow> lsn_to_bigint B (lsn_from_bigint B v) = Inr v"
  using parse_print_upper [of 16 "v div 2 ^ 32"] parse_print_upper [of 16 "v mod 2 ^ 32"]
  by (simp add: lsn_to_bigint_def Let_def lsn_parts pos_imp_zdiv_nonneg_iff)

lemma lsn_state_version:
  assumes "encodable v" "lsn_to_bigint B lsn = Inr v"
  shows "to_state_version_string B lsn = Some (Inr (lexi_text (nat v)))"
    and "from_state_version_string B (lexi_text (nat v)) = Some (Inr (lsn_from_bigint B v))"
proof -
  have v: "0 \<le> v" "encodable (int (nat v))" using assms(1) by (auto simp: encodable_def)
  show "to_state_version_string B lsn = Some (Inr (lexi_text (nat v)))"
    using assms v by (simp add: to_state_version_string_def major_version_to_string_def to_lexi)
  show "from_state_version_string B (lexi_text (nat v)) = Some (Inr (lsn_from_bigint B v))"
    using v state_from_string(1) [OF v(2) v(2)] by (simp add: from_state_version_string_def)
qed

end

section \<open>Properties\<close>

text \<open>
  C32. The order of version strings is the order of the versions, and a version string decodes to
  the version it encodes.
\<close>

theorem version_to_lexi_order:
  assumes "text_lib_ok B" "version_to_lexi B (V_Big a) = Inr s" "version_to_lexi B (V_Big b) = Inr t"
  shows "(s < t \<longleftrightarrow> a < b) \<and> version_from_lexi B s = Some (Inr a)"
proof -
  from assms(1) have codec: "text_codec B" by (rule text_codec.intro)
  have ab: "encodable a" "s = lexi_text (nat a)" "encodable b" "t = lexi_text (nat b)"
    using assms(2,3) by (auto simp: text_codec.to_lexi [OF codec] split: if_splits)
  then have "0 \<le> a" "0 \<le> b" by (auto simp: encodable_def)
  with ab show ?thesis
    using text_codec.from_lexi [OF codec encodable_nat [OF ab(1)]] by (simp add: lexi_int_less)
qed

theorem version_to_lexi_order_witness:
  "version_to_lexi std_text (V_Big 35) = Inr ''0z'' \<and> version_to_lexi std_text (V_Big 36) = Inr ''110'' \<and>
   ''0z'' < ''110'' \<and> version_from_lexi std_text ''0z'' = Some (Inr 35)"
proof -
  have e: "version_to_lexi std_text (V_Big 35) = Inr ''0z''" "version_to_lexi std_text (V_Big 36) = Inr ''110''"
    by code_simp+
  from version_to_lexi_order [OF std.ok this] e show ?thesis by simp
qed

text \<open>
  What can be encoded: a big integer from 0 up to \<open>36 ^ 36 - 1\<close>, and a number that is an
  integer from 0 up to \<open>2 ^ 53 - 1\<close>; every other version is an error.
\<close>

theorem version_to_lexi_range:
  assumes "text_lib_ok B"
  shows "((\<exists>s. version_to_lexi B (V_Big b) = Inr s) \<longleftrightarrow> 0 \<le> b \<and> b < 36 ^ 36) \<and>
    ((\<exists>s. version_to_lexi B (V_Num n) = Inr s) \<longleftrightarrow> (\<exists>i. n = F_Fin (of_int i) \<and> 0 \<le> i \<and> i < 2 ^ 53))"
proof -
  from assms have codec: "text_codec B" by (rule text_codec.intro)
  have enc: "\<exists>s. version_to_lexi B (V_Big i) = Inr s" if "0 \<le> i" "i \<le> max_safe_integer" for i
    using that by (simp add: text_codec.to_lexi [OF codec] encodable_def max_safe_integer_def)
  have num: "version_to_lexi B (V_Num (F_Fin q)) =
      (if q < 0 then Inl LE_Negative
       else if q \<le> of_int max_safe_integer \<and> of_int \<lfloor>q\<rfloor> = q then version_to_lexi B (V_Big \<lfloor>q\<rfloor>)
       else Inl (LE_UnsafeNumber (js_number_to_string B (F_Fin q))))" for q
    by (auto simp: version_to_lexi_def version_big_def cmp_linorder_def)
  have "(\<exists>s. version_to_lexi B (V_Num n) = Inr s) \<longleftrightarrow> (\<exists>i. n = F_Fin (of_int i) \<and> 0 \<le> i \<and> i < 2 ^ 53)"
  proof (cases n)
    case (F_Fin q)
    have "(\<exists>i. q = of_int i \<and> 0 \<le> i \<and> i < 2 ^ 53) \<longleftrightarrow>
        0 \<le> q \<and> q \<le> of_int max_safe_integer \<and> of_int \<lfloor>q\<rfloor> = q"
      by (auto simp: max_safe_integer_def floor_less_iff intro!: exI [of _ "\<lfloor>q\<rfloor>"])
    then show ?thesis
      using F_Fin enc [of "\<lfloor>q\<rfloor>"] num [of q] by (auto simp: max_safe_integer_def floor_le_iff split: if_splits)
  qed (auto simp: version_to_lexi_def version_big_def)
  then show ?thesis
    by (auto simp: text_codec.to_lexi [OF codec] encodable_def)
qed

theorem version_to_lexi_range_witness:
  "(\<exists>s. version_to_lexi std_text (V_Num (F_Fin 46655)) = Inr s) \<longleftrightarrow>
    (\<exists>i. F_Fin 46655 = F_Fin (of_int i) \<and> 0 \<le> i \<and> i < 2 ^ 53)"
  using version_to_lexi_range [OF std.ok, of 0 "F_Fin 46655"] by blast

text \<open>
  C33. State versions: the string of a state version parses back to it, and the strings are ordered
  by the major version and then by the minor version, no minor version coming first.
\<close>

theorem state_version_roundtrip_order:
  assumes "text_lib_ok B" "state_version_to_string B v = Inr s" "state_version_to_string B w = Inr t"
  shows "state_version_from_string B s = Some (Inr v) \<and>
    (s < t \<longleftrightarrow> sv_major v < sv_major w \<or> sv_major v = sv_major w \<and>
       (case (sv_minor v, sv_minor w) of
          (None, m) \<Rightarrow> m \<noteq> None
        | (Some _, None) \<Rightarrow> False
        | (Some x, Some y) \<Rightarrow> x < y))"
proof -
  from assms(1) have codec: "text_codec B" by (rule text_codec.intro)
  note V = assms(2) [unfolded text_codec.state_to_string [OF codec]]
  note W = assms(3) [unfolded text_codec.state_to_string [OF codec]]
  have "state_version_from_string B s = Some (Inr v)"
    using V text_codec.state_from_string [OF codec encodable_nat encodable_nat]
    by (cases v) (auto simp: encodable_def split: option.splits)
  moreover have "s < t \<longleftrightarrow> sv_major v < sv_major w \<or> sv_major v = sv_major w \<and>
       (case (sv_minor v, sv_minor w) of
          (None, m) \<Rightarrow> m \<noteq> None
        | (Some _, None) \<Rightarrow> False
        | (Some x, Some y) \<Rightarrow> x < y)"
    using V W by (auto simp: lexi_int_less split: option.splits)
  ultimately show ?thesis by blast
qed

theorem state_version_roundtrip_order_witness:
  "state_version_to_string std_text \<lparr>sv_major = 1, sv_minor = None\<rparr> = Inr ''01'' \<and>
   state_version_to_string std_text \<lparr>sv_major = 1, sv_minor = Some 2\<rparr> = Inr ''01.02'' \<and>
   state_version_from_string std_text ''01.02'' = Some (Inr \<lparr>sv_major = 1, sv_minor = Some 2\<rparr>) \<and>
   \<not> ''01.02'' < ''01''"
proof -
  have e: "state_version_to_string std_text \<lparr>sv_major = 1, sv_minor = Some 2\<rparr> = Inr ''01.02''"
    "state_version_to_string std_text \<lparr>sv_major = 1, sv_minor = None\<rparr> = Inr ''01''" by code_simp+
  from state_version_roundtrip_order [OF std.ok this] e show ?thesis by simp
qed

text \<open>
  C34. Log sequence numbers: the LSN of a 64-bit position parses back to it, its state version is
  always produced and gives the LSN back, and the state versions of two LSNs are ordered like the
  positions.
\<close>

theorem lsn_roundtrip_order:
  assumes "text_lib_ok B" "0 \<le> v" "v < 2 ^ 64" "0 \<le> w" "w < 2 ^ 64"
  shows "lsn_to_bigint B (lsn_from_bigint B v) = Inr v \<and>
    (\<exists>s t. to_state_version_string B (lsn_from_bigint B v) = Some (Inr s) \<and>
       to_state_version_string B (lsn_from_bigint B w) = Some (Inr t) \<and>
       from_state_version_string B s = Some (Inr (lsn_from_bigint B v)) \<and> (s < t \<longleftrightarrow> v < w))"
proof -
  from assms(1) have codec: "text_codec B" by (rule text_codec.intro)
  have e: "encodable v" "encodable w" using assms encodable_lsn by auto
  note p = text_codec.lsn_parse_print [OF codec assms(2)] text_codec.lsn_parse_print [OF codec assms(4)]
  show ?thesis
    using p text_codec.lsn_state_version [OF codec e(1) p(1)] text_codec.lsn_state_version [OF codec e(2) p(2)]
      lexi_int_less(4) [OF e] by simp
qed

theorem lsn_roundtrip_order_witness:
  "lsn_to_bigint std_text ''16/A'' = Inr 94489280522 \<and>
   (\<exists>s t. to_state_version_string std_text ''16/A'' = Some (Inr s) \<and>
      to_state_version_string std_text ''0/0'' = Some (Inr t) \<and>
      from_state_version_string std_text s = Some (Inr ''16/A'') \<and> \<not> s < t)"
proof -
  have "lsn_from_bigint std_text 94489280522 = ''16/A''" "lsn_from_bigint std_text 0 = ''0/0''" by code_simp+
  with lsn_roundtrip_order [OF std.ok, of 94489280522 0] show ?thesis by auto
qed

text \<open>
  A version string whose first character is not ASCII makes \<open>version_from_lexi\<close> panic instead
  of returning an error: it slices the string after its first byte.
\<close>

theorem version_from_lexi_panics:
  "version_from_lexi B s = None \<longleftrightarrow> 2 \<le> length s \<and> \<not> char_boundary s 1"
  by (auto simp: version_from_lexi_def split: option.splits)

end
