(* ===== verification/Ast.thy ===== *)
theory Ast
  imports Lexi_Version
begin

text \<open>
  The query syntax tree of \<open>zero-cache-protocol/src/ast.rs\<close>: conditions, correlated subqueries and
  queries, the tables a query reads, and the normal form of a query. Sorting is the stable sort of
  the prelude; where the comparator of conditions is not an order (see \<open>cmp_condition\<close>), the
  library's sort may return another permutation, and the lemmas here use only that it is one.
\<close>

section \<open>Syntax\<close>

datatype system = SysPermissions | SysClient | SysTest

datatype simple_operator =
    OpEq | OpNe | OpIs | OpIsNot | OpLt | OpGt | OpLe | OpGe
  | OpLike | OpNotLike | OpILike | OpNotILike | OpIn | OpNotIn

fun op_as_str :: "simple_operator \<Rightarrow> string" where
  "op_as_str OpEq = ''=''"
| "op_as_str OpNe = ''!=''"
| "op_as_str OpIs = ''IS''"
| "op_as_str OpIsNot = ''IS NOT''"
| "op_as_str OpLt = ''<''"
| "op_as_str OpGt = ''>''"
| "op_as_str OpLe = ''<=''"
| "op_as_str OpGe = ''>=''"
| "op_as_str OpLike = ''LIKE''"
| "op_as_str OpNotLike = ''NOT LIKE''"
| "op_as_str OpILike = ''ILIKE''"
| "op_as_str OpNotILike = ''NOT ILIKE''"
| "op_as_str OpIn = ''IN''"
| "op_as_str OpNotIn = ''NOT IN''"

definition op_from_str :: "string \<Rightarrow> simple_operator option" where
  "op_from_str s =
     (if s = ''='' then Some OpEq
      else if s = ''!='' then Some OpNe
      else if s = ''IS'' then Some OpIs
      else if s = ''IS NOT'' then Some OpIsNot
      else if s = ''<'' then Some OpLt
      else if s = ''>'' then Some OpGt
      else if s = ''<='' then Some OpLe
      else if s = ''>='' then Some OpGe
      else if s = ''LIKE'' then Some OpLike
      else if s = ''NOT LIKE'' then Some OpNotLike
      else if s = ''ILIKE'' then Some OpILike
      else if s = ''NOT ILIKE'' then Some OpNotILike
      else if s = ''IN'' then Some OpIn
      else if s = ''NOT IN'' then Some OpNotIn
      else None)"

datatype literal_value =
    LitString string
  | LitNumber f64
  | LitBool bool
  | LitNull
  | LitArray "literal_value list"

datatype value_position =
    VLiteral literal_value
  | VColumn string
  | VParameter json

definition direction_as_str :: "direction \<Rightarrow> string" where
  "direction_as_str d = (case d of Asc \<Rightarrow> ''asc'' | Desc \<Rightarrow> ''desc'')"

definition direction_from_str :: "string \<Rightarrow> direction option" where
  "direction_from_str s = (if s = ''asc'' then Some Asc else if s = ''desc'' then Some Desc else None)"

record ast_bound =
  ab_row :: json
  ab_exclusive :: bool

record correlation =
  parent_field :: "string list"
  child_field :: "string list"

datatype exists_op = Exists | NotExists

definition exists_as_str :: "exists_op \<Rightarrow> string" where
  "exists_as_str e = (case e of Exists \<Rightarrow> ''EXISTS'' | NotExists \<Rightarrow> ''NOT EXISTS'')"

definition exists_from_str :: "string \<Rightarrow> exists_op option" where
  "exists_from_str s =
     (if s = ''EXISTS'' then Some Exists else if s = ''NOT EXISTS'' then Some NotExists else None)"

datatype condition =
    Simple simple_operator value_position value_position
  | And "condition list"
  | Or "condition list"
  | Correlated correlated_subquery exists_op (flip: "bool option") (scalar: "bool option") (plan_id: "int option")
and correlated_subquery =
    Subquery (csq_correlation: correlation) (subquery: ast) (csq_system: "system option") (csq_hidden: "bool option")
and ast =
    Ast (ast_schema: "string option") (ast_table: string) (ast_alias: "string option")
      (ast_where: "condition option") (related: "correlated_subquery list option")
      (ast_start: "ast_bound option") (ast_limit: "f64 option") (order_by: "sort_order option")

definition ast_table_only :: "string \<Rightarrow> ast" where
  "ast_table_only t = Ast None t None None None None None None"

section \<open>The tables a query reads\<close>

fun collect_referenced_tables :: "ast \<Rightarrow> string set"
  and collect_condition_tables :: "condition \<Rightarrow> string set"
  and collect_related_tables :: "correlated_subquery list \<Rightarrow> string set"
  and collect_conditions_tables :: "condition list \<Rightarrow> string set" where
  "collect_referenced_tables (Ast schema table alias w rels st lmt ord) =
     insert table
       ((case rels of None \<Rightarrow> {} | Some rs \<Rightarrow> collect_related_tables rs) \<union>
        (case w of None \<Rightarrow> {} | Some c \<Rightarrow> collect_condition_tables c))"
| "collect_condition_tables (Simple op l r) = {}"
| "collect_condition_tables (And cs) = collect_conditions_tables cs"
| "collect_condition_tables (Or cs) = collect_conditions_tables cs"
| "collect_condition_tables (Correlated (Subquery corr q sys hid) op f s p) = collect_referenced_tables q"
| "collect_related_tables [] = {}"
| "collect_related_tables (Subquery corr q sys hid # rs) = collect_referenced_tables q \<union> collect_related_tables rs"
| "collect_conditions_tables [] = {}"
| "collect_conditions_tables (c # cs) = collect_condition_tables c \<union> collect_conditions_tables cs"

definition referenced_tables :: "ast \<Rightarrow> string set" where
  "referenced_tables q = collect_referenced_tables q"

section \<open>Comparators\<close>

fun literal_to_string :: "'a text_lib_scheme \<Rightarrow> literal_value \<Rightarrow> string"
  and literals_to_string :: "'a text_lib_scheme \<Rightarrow> bool \<Rightarrow> literal_value list \<Rightarrow> string" where
  "literal_to_string B (LitString s) = s"
| "literal_to_string B (LitBool b) = (if b then ''true'' else ''false'')"
| "literal_to_string B LitNull = ''null''"
| "literal_to_string B (LitNumber n) = js_number_to_string B n"
| "literal_to_string B (LitArray items) = literals_to_string B True items"
| "literals_to_string B first [] = ''''"
| "literals_to_string B first (i # is) =
     (if first then '''' else '','') @ literal_to_string B i @ literals_to_string B False is"

definition then_with :: "ordering option \<Rightarrow> ordering option \<Rightarrow> ordering option" where
  "then_with a b = (if a = Some Equal then b else a)"

fun cmp_value_position :: "'a text_lib_scheme \<Rightarrow> value_position comparator" where
  "cmp_value_position B (VLiteral a) (VLiteral b) = Some (cmp_linorder (literal_to_string B a) (literal_to_string B b))"
| "cmp_value_position B (VColumn a) (VColumn b) = Some (cmp_linorder a b)"
| "cmp_value_position B (VParameter a) (VParameter b) = None"
| "cmp_value_position B (VColumn a) b = Some Less"
| "cmp_value_position B a (VColumn b) = Some Greater"
| "cmp_value_position B (VLiteral a) (VParameter b) = Some Less"
| "cmp_value_position B (VParameter a) (VLiteral b) = Some Greater"

definition cmp_optional_bool :: "bool option \<Rightarrow> bool option \<Rightarrow> ordering" where
  "cmp_optional_bool a b =
     (let to_num = (\<lambda>v. case v of None \<Rightarrow> 0 | Some False \<Rightarrow> 1 | Some True \<Rightarrow> (2 :: nat))
      in cmp_linorder (to_num a) (to_num b))"

definition alias_or_empty :: "correlated_subquery \<Rightarrow> string" where
  "alias_or_empty r = (case ast_alias (subquery r) of None \<Rightarrow> '''' | Some a \<Rightarrow> a)"

definition cmp_related :: "correlated_subquery comparator" where
  "cmp_related a b = Some (cmp_linorder (alias_or_empty a) (alias_or_empty b))"

fun cmp_condition :: "'a text_lib_scheme \<Rightarrow> condition comparator"
  and cmp_conditions :: "'a text_lib_scheme \<Rightarrow> condition list comparator" where
  "cmp_condition B (Simple ao al ar) (Simple bo bl br) =
     then_with (cmp_value_position B al bl)
       (then_with (Some (cmp_linorder (op_as_str ao) (op_as_str bo))) (cmp_value_position B ar br))"
| "cmp_condition B (Simple ao al ar) b = Some Less"
| "cmp_condition B a (Simple bo bl br) = Some Greater"
| "cmp_condition B (Correlated ar ao af asc ap) (Correlated br bo bf bsc bp) =
     then_with (cmp_related ar br)
       (then_with (Some (cmp_linorder (exists_as_str ao) (exists_as_str bo)))
         (then_with (Some (cmp_optional_bool af bf)) (Some (cmp_optional_bool asc bsc))))"
| "cmp_condition B (Correlated ar ao af asc ap) b = Some Less"
| "cmp_condition B a (Correlated br bo bf bsc bp) = Some Less"
| "cmp_condition B (And as) (Or bs) = Some Less"
| "cmp_condition B (Or as) (And bs) = Some Greater"
| "cmp_condition B (And as) (And bs) = cmp_conditions B as bs"
| "cmp_condition B (Or as) (Or bs) = cmp_conditions B as bs"
| "cmp_conditions B [] [] = Some Equal"
| "cmp_conditions B [] (b # bs) = Some Less"
| "cmp_conditions B (a # as) [] = Some Greater"
| "cmp_conditions B (a # as) (b # bs) =
     do { c \<leftarrow> cmp_condition B a b; if c = Equal then cmp_conditions B as bs else Some c }"

section \<open>Normal form\<close>

text \<open>The result of \<open>flatten\<close> from the flattened members.\<close>

definition rejoin :: "bool \<Rightarrow> condition list \<Rightarrow> condition option" where
  "rejoin is_and flat =
     (case flat of
        [] \<Rightarrow> None
      | [c] \<Rightarrow> Some c
      | _ \<Rightarrow> Some (if is_and then And flat else Or flat))"

fun flatten :: "condition \<Rightarrow> condition option"
  and flatten_members :: "bool \<Rightarrow> condition list \<Rightarrow> condition list"
  and flatten_each :: "condition list \<Rightarrow> condition list" where
  "flatten (Simple op l r) = Some (Simple op l r)"
| "flatten (Correlated r op f s p) = Some (Correlated r op f s p)"
| "flatten (And cs) = rejoin True (flatten_members True cs)"
| "flatten (Or cs) = rejoin False (flatten_members False cs)"
| "flatten_members is_and [] = []"
| "flatten_members True (And inner # cs) = flatten_each inner @ flatten_members True cs"
| "flatten_members False (Or inner # cs) = flatten_each inner @ flatten_members False cs"
| "flatten_members is_and (c # cs) =
     (case flatten c of None \<Rightarrow> [] | Some f \<Rightarrow> [f]) @ flatten_members is_and cs"
| "flatten_each [] = []"
| "flatten_each (c # cs) = (case flatten c of None \<Rightarrow> [] | Some f \<Rightarrow> [f]) @ flatten_each cs"

lemma size_rejoin: "rejoin is_and flat = Some d \<Longrightarrow> size d \<le> Suc (size_list size flat)"
  by (cases flat rule: remdups_adj.cases) (auto simp: rejoin_def split: if_splits)

lemma size_flatten:
  "flatten c = Some d \<Longrightarrow> size d \<le> size c"
  "size_list size (flatten_members is_and cs) \<le> size_list size cs"
  "size_list size (flatten_each cs) \<le> size_list size cs"
proof (induction c and is_and cs and cs arbitrary: d rule: flatten_flatten_members_flatten_each.induct)
  case (3 cs)
  then show ?case using size_rejoin [of True] by fastforce
next
  case (4 cs)
  then show ?case using size_rejoin [of False] by fastforce
qed (fastforce split: option.splits)+

function (sequential) normalize_ast :: "'a text_lib_scheme \<Rightarrow> ast \<Rightarrow> ast option"
  and normalize_condition :: "'a text_lib_scheme \<Rightarrow> condition \<Rightarrow> condition option"
  and normalize_conditions :: "'a text_lib_scheme \<Rightarrow> condition list \<Rightarrow> condition list option"
  and normalize_related :: "'a text_lib_scheme \<Rightarrow> correlated_subquery list \<Rightarrow> correlated_subquery list option" where
  "normalize_ast B (Ast schema table alias w rels st lmt ord) =
     do {
       w' \<leftarrow> (case w of
           None \<Rightarrow> Some None
         | Some c \<Rightarrow> (case flatten c of None \<Rightarrow> Some None | Some f \<Rightarrow> map_option Some (normalize_condition B f)));
       rels' \<leftarrow> (case rels of
           None \<Rightarrow> Some None
         | Some rs \<Rightarrow> do { mapped \<leftarrow> normalize_related B rs; map_option Some (sort_by cmp_related mapped) });
       Some (Ast schema table alias w' rels' st lmt ord)
     }"
| "normalize_condition B (Simple op l r) = Some (Simple op l r)"
| "normalize_condition B (Correlated (Subquery corr q sys hid) op f s p) =
     do { q' \<leftarrow> normalize_ast B q; Some (Correlated (Subquery corr q' sys hid) op f s p) }"
| "normalize_condition B (And cs) =
     do { c \<leftarrow> normalize_conditions B cs; map_option And (sort_by (cmp_condition B) c) }"
| "normalize_condition B (Or cs) =
     do { c \<leftarrow> normalize_conditions B cs; map_option Or (sort_by (cmp_condition B) c) }"
| "normalize_conditions B [] = Some []"
| "normalize_conditions B (c # cs) =
     do { c' \<leftarrow> normalize_condition B c; cs' \<leftarrow> normalize_conditions B cs; Some (c' # cs') }"
| "normalize_related B [] = Some []"
| "normalize_related B (Subquery corr q sys hid # rs) =
     do { q' \<leftarrow> normalize_ast B q; rs' \<leftarrow> normalize_related B rs; Some (Subquery corr q' sys hid # rs') }"
  by pat_completeness auto
termination
proof (relation "measure (case_sum (case_sum (size \<circ> snd) (size \<circ> snd))
    (case_sum (size_list size \<circ> snd) (size_list size \<circ> snd)))", goal_cases)
  case 2
  then show ?case using size_flatten(1) by fastforce
qed simp_all

section \<open>The queries inside a query\<close>

inductive reads :: "ast \<Rightarrow> ast \<Rightarrow> bool" and cond_reads :: "condition \<Rightarrow> ast \<Rightarrow> bool" where
  reads_self: "reads q q"
| reads_related: "related q = Some rs \<Longrightarrow> r \<in> set rs \<Longrightarrow> reads (subquery r) q' \<Longrightarrow> reads q q'"
| reads_where: "ast_where q = Some c \<Longrightarrow> cond_reads c q' \<Longrightarrow> reads q q'"
| reads_and: "c \<in> set cs \<Longrightarrow> cond_reads c q' \<Longrightarrow> cond_reads (And cs) q'"
| reads_or: "c \<in> set cs \<Longrightarrow> cond_reads c q' \<Longrightarrow> cond_reads (Or cs) q'"
| reads_exists: "reads (subquery r) q' \<Longrightarrow> cond_reads (Correlated r op f s p) q'"

inductive_simps cond_reads_simps [simp]:
  "cond_reads (Simple op l r) q'" "cond_reads (And cs) q'" "cond_reads (Or cs) q'" "cond_reads (Correlated r op f s p) q'"

lemma collect_related: "collect_related_tables rs = (\<Union>r\<in>set rs. collect_referenced_tables (subquery r))"
proof (induction rs)
  case (Cons r rs)
  then show ?case by (cases r) simp
qed simp

lemma collect_conditions: "collect_conditions_tables cs = (\<Union>c\<in>set cs. collect_condition_tables c)"
  by (induction cs) auto

lemma reads_collected:
  "reads q q' \<Longrightarrow> ast_table q' \<in> collect_referenced_tables q"
  "cond_reads c q' \<Longrightarrow> ast_table q' \<in> collect_condition_tables c"
proof (induction rule: reads_cond_reads.inducts)
  case (reads_self q)
  show ?case by (cases q) simp
next
  case (reads_related q rs r q')
  then show ?case by (cases q) (auto simp: collect_related)
next
  case (reads_where q c q')
  then show ?case by (cases q) auto
next
  case (reads_exists r q' op f s p)
  then show ?case by (cases r) simp
qed (auto simp: collect_conditions)

lemma collected_reads:
  "t \<in> collect_referenced_tables q \<Longrightarrow> \<exists>q'. reads q q' \<and> ast_table q' = t"
  "t \<in> collect_condition_tables c \<Longrightarrow> \<exists>q'. cond_reads c q' \<and> ast_table q' = t"
  "t \<in> collect_related_tables rs \<Longrightarrow> \<exists>r\<in>set rs. \<exists>q'. reads (subquery r) q' \<and> ast_table q' = t"
  "t \<in> collect_conditions_tables cs \<Longrightarrow> \<exists>c\<in>set cs. \<exists>q'. cond_reads c q' \<and> ast_table q' = t"
proof (induction q and c and rs and cs
    rule: collect_referenced_tables_collect_condition_tables_collect_related_tables_collect_conditions_tables.induct)
  case (1 schema table al w rels st lmt ord)
  let ?q = "Ast schema table al w rels st lmt ord"
  consider "t = table" | rs where "rels = Some rs" "t \<in> collect_related_tables rs"
    | c where "w = Some c" "t \<in> collect_condition_tables c"
    using 1(3) by (auto split: option.splits)
  then show ?case
  proof cases
    case 1
    then show ?thesis using reads_self [of ?q] by auto
  next
    case (2 rs)
    then show ?thesis using 1(1) reads_related [of ?q rs] by fastforce
  next
    case (3 c)
    then show ?thesis using 1(2) reads_where [of ?q c] by fastforce
  qed
qed auto

section \<open>Properties\<close>


lemma op_from_as_str: "op_from_str s = Some oper \<longleftrightarrow> s = op_as_str oper"
  by (cases oper) (auto simp: op_from_str_def)

end
