(* ===== verification/Ivm_Join.thy ===== *)
theory Ivm_Join
  imports Ivm_Exists Table_Source Ast
begin

text \<open>
  Joins: the operator \<open>JoinInput\<close> of the graph (\<open>zero-cache-zql/src/ivm/join_input.rs\<close>), which
  attaches to each parent the children correlated to it, and the helpers on in-memory tables with
  the operator \<open>Join\<close> (\<open>ivm/join.rs\<close>). A fetch through a join is a fetch of the parents with the
  children attached. A child change is announced to exactly the parents whose children it changes,
  which is what \<open>Exists\<close> needs on top of a join: the two together keep the rows of a
  \<open>whereExists\<close> up to date when rows of the child table come and go.
\<close>

section \<open>JoinInput\<close>

record join_input =
  ji_parent_key :: "string list"
  ji_child_key :: "string list"
  ji_relationship :: string

definition child_constraint :: "join_input \<Rightarrow> row \<Rightarrow> constraint" where
  "child_constraint j parent_row =
     map (\<lambda>(parent_col, child_col). (child_col, get parent_row parent_col)) (zip (ji_parent_key j) (ji_child_key j))"

fun parent_constraint_loop :: "row \<Rightarrow> (string \<times> string) list \<Rightarrow> constraint option" where
  "parent_constraint_loop child_row [] = Some []"
| "parent_constraint_loop child_row ((child_col, parent_col) # rest) =
     (let value = get child_row child_col in
      if value = JNull then None
      else map_option (Cons (parent_col, value)) (parent_constraint_loop child_row rest))"

definition parent_constraint :: "join_input \<Rightarrow> row \<Rightarrow> constraint option" where
  "parent_constraint j child_row = parent_constraint_loop child_row (zip (ji_child_key j) (ji_parent_key j))"

definition with_children :: "string \<Rightarrow> node list \<Rightarrow> node \<Rightarrow> node" where
  "with_children name children node = Node (node_row node) (AList.update name children (relationships node))"

definition process_parent_node :: "join_input \<Rightarrow> input \<Rightarrow> node \<Rightarrow> node option" where
  "process_parent_node j child parent_node =
     do {
       children \<leftarrow> child (default_request\<lparr>req_constraint := Some (child_constraint j (node_row parent_node))\<rparr>);
       Some (with_children (ji_relationship j) children parent_node)
     }"

definition join_fetch :: "join_input \<Rightarrow> input \<Rightarrow> input \<Rightarrow> input" where
  "join_fetch j parent child req =
     do { nodes \<leftarrow> parent req; map_opt (process_parent_node j child) nodes }"

definition push_parent :: "join_input \<Rightarrow> input \<Rightarrow> change \<Rightarrow> change option" where
  "push_parent j child change =
     (case change of
        Add node \<Rightarrow> map_option Add (process_parent_node j child node)
      | Remove node \<Rightarrow> map_option Remove (process_parent_node j child node)
      | Child node c \<Rightarrow> map_option (\<lambda>n. Child n c) (process_parent_node j child node)
      | Edit node old_node \<Rightarrow>
          do {
            n \<leftarrow> process_parent_node j child node;
            o' \<leftarrow> process_parent_node j child old_node;
            Some (Edit n o')
          })"

definition push_child :: "join_input \<Rightarrow> input \<Rightarrow> input \<Rightarrow> change \<Rightarrow> change list option" where
  "push_child j parent child change =
     (case parent_constraint j (node_row (primary_node change)) of
        None \<Rightarrow> Some []
      | Some c \<Rightarrow>
          do {
            parents \<leftarrow> parent (default_request\<lparr>req_constraint := Some c\<rparr>);
            map_opt (\<lambda>parent_node.
              do {
                processed \<leftarrow> process_parent_node j child parent_node;
                Some (make_child_change processed (ji_relationship j) change)
              }) parents
          })"

definition join_schema :: "join_input \<Rightarrow> source_schema \<Rightarrow> source_schema \<Rightarrow> source_schema" where
  "join_schema j parent_schema child_schema =
     SourceSchema (table_name parent_schema) (schema_primary_key parent_schema) (schema_sort parent_schema)
       (AList.update (ji_relationship j) child_schema (schema_relationships parent_schema))"

section \<open>Joins of in-memory tables\<close>

definition correlation_join :: "correlation \<Rightarrow> string \<Rightarrow> join_input" where
  "correlation_join corr name =
     \<lparr>ji_parent_key = parent_field corr, ji_child_key = child_field corr, ji_relationship = name\<rparr>"

definition correlation_constraint :: "row \<Rightarrow> correlation \<Rightarrow> constraint" where
  "correlation_constraint parent_row corr =
     map (\<lambda>(parent_col, child_col). (child_col, get parent_row parent_col)) (zip (parent_field corr) (child_field corr))"

definition constrained :: "constraint \<Rightarrow> fetch_request" where
  "constrained c = default_request\<lparr>req_constraint := Some c\<rparr>"

definition fetch_joined :: "table_source \<Rightarrow> table_source \<Rightarrow> correlation \<Rightarrow> (node \<times> node list) list option" where
  "fetch_joined parent child corr =
     do {
       nodes \<leftarrow> ts_fetch parent default_request;
       map_opt (\<lambda>n. do {
         children \<leftarrow> ts_fetch child (constrained (correlation_constraint (node_row n) corr));
         Some (n, children) }) nodes
     }"

definition fetch_joined_nodes :: "table_source \<Rightarrow> table_source \<Rightarrow> correlation \<Rightarrow> string \<Rightarrow> node list option" where
  "fetch_joined_nodes parent child corr name =
     map_option (map (\<lambda>(n, children). with_children name children n)) (fetch_joined parent child corr)"

definition exists_for_row :: "row \<Rightarrow> table_source \<Rightarrow> correlation \<Rightarrow> bool option" where
  "exists_for_row parent_row child corr =
     map_option (\<lambda>ns. ns \<noteq> []) (ts_fetch child (constrained (correlation_constraint parent_row corr)))"

definition parent_key_constraint :: "row \<Rightarrow> correlation \<Rightarrow> constraint" where
  "parent_key_constraint child_row corr =
     map (\<lambda>(child_col, parent_col). (parent_col, get child_row child_col)) (zip (child_field corr) (parent_field corr))"

fun changed_row :: "source_change \<Rightarrow> row" where
  "changed_row (SAdd r) = r"
| "changed_row (SRemove r) = r"
| "changed_row (SEdit r old_row) = r"

text \<open>The outer option is the panic of a fetch, the inner one the result of the functions.\<close>

definition reeval_exists_after_child_change ::
  "source_change \<Rightarrow> table_source \<Rightarrow> table_source \<Rightarrow> correlation \<Rightarrow> (row \<times> bool) option option" where
  "reeval_exists_after_child_change sc parent child corr =
     (case find_by_key parent (parent_key_constraint (changed_row sc) corr) of
        None \<Rightarrow> Some None
      | Some parent_row \<Rightarrow> do { e \<leftarrow> exists_for_row parent_row child corr; Some (Some (parent_row, e)) })"

definition reeval_relationship_after_child_change ::
  "source_change \<Rightarrow> table_source \<Rightarrow> table_source \<Rightarrow> correlation \<Rightarrow> string \<Rightarrow> node option option" where
  "reeval_relationship_after_child_change sc parent child corr name =
     (case find_by_key parent (parent_key_constraint (changed_row sc) corr) of
        None \<Rightarrow> Some None
      | Some parent_row \<Rightarrow>
          do {
            children \<leftarrow> ts_fetch child (constrained (correlation_constraint parent_row corr));
            Some (Some (with_children name children (node_new parent_row)))
          })"

record join_op =
  j_parent :: table_source
  j_child :: table_source
  j_correlation :: correlation
  j_relationship :: string

fun relationship_change :: "source_change \<Rightarrow> change" where
  "relationship_change (SAdd r) = Add (node_new r)"
| "relationship_change (SRemove r) = Remove (node_new r)"
| "relationship_change (SEdit r old_row) = Edit (node_new r) (node_new old_row)"

text \<open>The result: the join with the change applied, what each registered output is pushed, and the
  node returned.\<close>

definition push_child_change :: "join_op \<Rightarrow> source_change \<Rightarrow> (join_op \<times> change option \<times> node option) option" where
  "push_child_change j sc =
     do {
       (child', _) \<leftarrow> ts_push (j_child j) sc;
       r \<leftarrow> reeval_relationship_after_child_change sc (j_parent j) child' (j_correlation j) (j_relationship j);
       Some (j\<lparr>j_child := child'\<rparr>,
         map_option (\<lambda>node. make_child_change node (j_relationship j) (relationship_change sc)) r, r)
     }"

section \<open>The children of a parent\<close>

definition joined :: "join_input \<Rightarrow> row \<Rightarrow> row \<Rightarrow> bool" where
  "joined j p c \<longleftrightarrow>
     list_all (\<lambda>(pc, cc). values_equal (get p pc) (get c cc)) (zip (ji_parent_key j) (ji_child_key j))"

definition children_of :: "join_input \<Rightarrow> row list \<Rightarrow> row \<Rightarrow> row list" where
  "children_of j M p = filter (joined j p) M"

text \<open>The relationships a join attaches to a parent, over the view \<open>M\<close> of its children.\<close>

definition join_rel ::
  "join_input \<Rightarrow> (row \<Rightarrow> (string \<times> node list) list) \<Rightarrow> (row \<Rightarrow> (string \<times> node list) list) \<Rightarrow> row list \<Rightarrow>
   row \<Rightarrow> (string \<times> node list) list" where
  "join_rel j rel relc M p =
     AList.update (ji_relationship j) (map (\<lambda>c. Node c (relc c)) (children_of j M p)) (rel p)"

lemma values_equal_sym: "values_equal a b \<longleftrightarrow> values_equal b a"
  using json_eq_sym by (auto simp: values_equal_def)

lemma values_equal_null: "\<not> values_equal a JNull"
  by (simp add: values_equal_def)

lemma child_constraint_matches: "constraint_matches_row (child_constraint j p) c \<longleftrightarrow> joined j p c"
  by (auto simp: constraint_matches_row_def child_constraint_def joined_def list_all_iff values_equal_sym)

lemma parent_constraint_loop_matches:
  "case parent_constraint_loop c kvs of
     None \<Rightarrow> \<not> list_all (\<lambda>(cc, pc). values_equal (get p pc) (get c cc)) kvs
   | Some k \<Rightarrow> constraint_matches_row k p \<longleftrightarrow> list_all (\<lambda>(cc, pc). values_equal (get p pc) (get c cc)) kvs"
  by (induction c kvs rule: parent_constraint_loop.induct)
    (auto simp: Let_def constraint_matches_row_def values_equal_null split: option.splits)

lemma joined_swap:
  "list_all (\<lambda>(cc, pc). values_equal (get p pc) (get c cc)) (zip (ji_child_key j) (ji_parent_key j)) = joined j p c"
proof -
  have "list_all (\<lambda>(cc, pc). R pc cc) (zip xs ys) = list_all (\<lambda>(pc, cc). R pc cc) (zip ys xs)" for R and xs ys :: "string list"
    by (induction xs ys rule: list_induct2') auto
  then show ?thesis by (simp add: joined_def)
qed

lemma parent_constraint_matches:
  "case parent_constraint j c of
     None \<Rightarrow> \<not> joined j p c
   | Some k \<Rightarrow> constraint_matches_row k p \<longleftrightarrow> joined j p c"
proof -
  show ?thesis
    using parent_constraint_loop_matches [where c = c and kvs = "zip (ji_child_key j) (ji_parent_key j)" and p = p]
    by (simp add: parent_constraint_def joined_swap split: option.splits)
qed

lemma input_of_constrained:
  "input_of order rel L (default_request\<lparr>req_constraint := Some c\<rparr>) =
     Some (map (\<lambda>r. Node r (rel r)) (filter (constraint_matches_row c) L))"
  by (simp add: input_of_def fetch_rows_def req_matches_def in_start_def default_request_def)

lemma process_parent_eq:
  "process_parent_node j (input_of order relc M) (Node p (rel p)) = Some (Node p (join_rel j rel relc M p))"
  by (simp add: process_parent_node_def input_of_constrained with_children_def join_rel_def children_of_def
      child_constraint_matches [abs_def])

lemma join_fetch_eq:
  "join_fetch j (input_of order rel L) (input_of orderc relc M) req = input_of order (join_rel j rel relc M) L req"
proof -
  have "map_opt (process_parent_node j (input_of orderc relc M)) (map (\<lambda>r. Node r (rel r)) V) =
      Some (map (\<lambda>r. Node r (join_rel j rel relc M r)) V)" for V
    by (induction V) (simp_all add: process_parent_eq)
  then show ?thesis by (simp add: join_fetch_def input_of_def [of order])
qed

lemma push_child_eq:
  "push_child j (input_of order rel L) (input_of orderc relc M) c =
     Some (map (\<lambda>p. Child (Node p (join_rel j rel relc M p)) (ChildData (ji_relationship j) c))
       (filter (\<lambda>p. joined j p (node_row (primary_node c))) L))"
proof (cases "parent_constraint j (node_row (primary_node c))")
  case None
  then show ?thesis
    using parent_constraint_matches [where j = j and c = "node_row (primary_node c)"] by (simp add: push_child_def)
next
  case (Some k)
  have "map_opt (\<lambda>n. do { q \<leftarrow> process_parent_node j (input_of orderc relc M) n;
        Some (make_child_change q (ji_relationship j) c) }) (map (\<lambda>r. Node r (rel r)) V) =
      Some (map (\<lambda>p. Child (Node p (join_rel j rel relc M p)) (ChildData (ji_relationship j) c)) V)" for V
    by (induction V) (simp_all add: process_parent_eq make_child_change_def)
  moreover have "filter (constraint_matches_row k) L = filter (\<lambda>p. joined j p (node_row (primary_node c))) L"
    using parent_constraint_matches [where j = j and c = "node_row (primary_node c)"] Some by (auto intro!: filter_cong)
  ultimately show ?thesis using Some by (simp add: push_child_def input_of_constrained)
qed

section \<open>Exists over a join\<close>

text \<open>The changes a join emits, pushed one after the other into an \<open>Exists\<close> operator.\<close>

fun exists_push_all :: "(rat \<Rightarrow> string) \<Rightarrow> exists \<Rightarrow> storage \<Rightarrow> change list \<Rightarrow> storage \<times> change list" where
  "exists_push_all fmt ex st [] = (st, [])"
| "exists_push_all fmt ex st (c # cs) =
     (let (st', ds) = exists_push fmt ex st c; (st'', es) = exists_push_all fmt ex st' cs in (st'', ds @ es))"

text \<open>How many children a parent has.\<close>

definition child_count :: "join_input \<Rightarrow> row list \<Rightarrow> row \<Rightarrow> nat" where
  "child_count j M p = length (children_of j M p)"

text \<open>
  A child change keeps the join key when an edit leaves the columns of the key as they are. Adds,
  removes and changes further down always do.
\<close>

fun keeps_key :: "join_input \<Rightarrow> change \<Rightarrow> bool" where
  "keeps_key j (Edit n old) \<longleftrightarrow> list_all (\<lambda>cc. get (node_row n) cc = get (node_row old) cc) (ji_child_key j)"
| "keeps_key j c \<longleftrightarrow> True"

lemma relationship_size_join:
  "ji_relationship j = exists_relationship ex \<Longrightarrow>
   relationship_size ex (Node p (join_rel j rel relc M p)) = child_count j M p"
  by (simp add: relationship_size_def join_rel_def child_count_def update_conv)

lemma child_count_card: "distinct M \<Longrightarrow> child_count j M p = card {c \<in> set M. joined j p c}"
  using distinct_card [of "filter (joined j p) M"] by (simp add: child_count_def children_of_def)

lemma joined_key:
  "list_all (\<lambda>cc. get n cc = get old cc) (ji_child_key j) \<Longrightarrow> joined j p n \<longleftrightarrow> joined j p old"
  unfolding joined_def by (rule list.pred_cong) (auto simp: list_all_iff dest: set_zip_rightD)

lemma child_count_step:
  assumes M: "view_ok \<tau> order M" and c: "apply_change \<tau> order c M = Some M'" and k: "keeps_key j c"
  shows "\<not> joined j p (node_row (primary_node c)) \<Longrightarrow> child_count j M' p = child_count j M p"
    and "joined j p (node_row (primary_node c)) \<Longrightarrow>
      (case c of
         Add _ \<Rightarrow> child_count j M' p = Suc (child_count j M p)
       | Remove _ \<Rightarrow> Suc (child_count j M' p) = child_count j M p
       | _ \<Rightarrow> child_count j M' p = child_count j M p)"
proof -
  have d: "distinct M" "distinct M'" and S: "change_set c (set M) = Some (set M')"
    using view_ok_distinct [OF M] view_ok_distinct [OF apply_change_ok [OF c]] apply_change_set [OF M c] by simp_all
  let ?C = "\<lambda>V. {x \<in> set V. joined j p x}"
  have fin: "finite (?C M)" "finite (?C M')" by simp_all
  have "(\<not> joined j p (node_row (primary_node c)) \<longrightarrow> card (?C M') = card (?C M)) \<and>
      (joined j p (node_row (primary_node c)) \<longrightarrow>
        (case c of Add _ \<Rightarrow> card (?C M') = Suc (card (?C M)) | Remove _ \<Rightarrow> Suc (card (?C M')) = card (?C M)
         | _ \<Rightarrow> card (?C M') = card (?C M)))"
  proof (cases c)
    case (Add n)
    with S have n: "node_row n \<notin> set M" "set M' = insert (node_row n) (set M)" by (auto split: if_splits)
    then have "?C M' = (if joined j p (node_row n) then insert (node_row n) (?C M) else ?C M)" by auto
    then show ?thesis using Add n by simp
  next
    case (Remove n)
    with S have n: "node_row n \<in> set M" "set M' = set M - {node_row n}" by (auto split: if_splits)
    then have "?C M' = ?C M - {node_row n}" by auto
    then show ?thesis using Remove n card_Suc_Diff1 [of "?C M" "node_row n"] by simp
  next
    case (Child n ch)
    with S show ?thesis by (auto split: if_splits)
  next
    case (Edit n old)
    with S have n: "node_row old \<in> set M" "node_row n = node_row old \<or> node_row n \<notin> set M"
      "set M' = insert (node_row n) (set M - {node_row old})" by (auto split: if_splits)
    have same: "joined j p (node_row n) \<longleftrightarrow> joined j p (node_row old)" using joined_key k Edit by simp
    then have C: "?C M' = (if joined j p (node_row n) then insert (node_row n) (?C M - {node_row old}) else ?C M)"
      using n by auto
    have "card (?C M') = card (?C M)"
    proof (cases "joined j p (node_row n)")
      case True
      then have "node_row n \<notin> ?C M - {node_row old}" "node_row old \<in> ?C M" using n same by auto
      then show ?thesis using C True card_Suc_Diff1 [of "?C M" "node_row old"] by (simp add: card_insert_if)
    qed (simp add: C)
    then show ?thesis using Edit by simp
  qed
  then show "\<not> joined j p (node_row (primary_node c)) \<Longrightarrow> child_count j M' p = child_count j M p"
    "joined j p (node_row (primary_node c)) \<Longrightarrow>
      (case c of Add _ \<Rightarrow> child_count j M' p = Suc (child_count j M p) | Remove _ \<Rightarrow> Suc (child_count j M' p) = child_count j M p
       | _ \<Rightarrow> child_count j M' p = child_count j M p)"
    using child_count_card [OF d(1)] child_count_card [OF d(2)] by (simp_all split: change.splits)
qed


definition announce :: "join_input \<Rightarrow> (row \<Rightarrow> (string \<times> node list) list) \<Rightarrow> change \<Rightarrow> row \<Rightarrow> change" where
  "announce j rel c p = Child (Node p (rel p)) (ChildData (ji_relationship j) c)"

lemma size_step_announce:
  "R p = R' p \<Longrightarrow> size_step ex (announce j rel c p) R sz = size_step ex (announce j rel c p) R' sz"
  by (cases c) (simp_all add: announce_def)

lemma exists_push_announced:
  assumes L: "view_ok \<tau> order L" and n: "ji_relationship j = exists_relationship ex"
    and "distinct ps" "set ps \<subseteq> set L"
    and "\<And>p. p \<in> set ps \<Longrightarrow> size_step ex (announce j (join_rel j rel relc M') c p) R (child_count j M' p)"
  shows "apply_changes \<tau> order (snd (exists_push_all fmt ex st (map (announce j (join_rel j rel relc M') c) ps)))
      (exists_view ex R L) = Some (exists_view ex (\<lambda>p. if p \<in> set ps then child_count j M' p else R p) L)"
  using assms(3-)
proof (induction ps arbitrary: st R)
  case (Cons p ps)
  let ?c = "announce j (join_rel j rel relc M') c p" and ?R = "R(p := child_count j M' p)"
  have sz: "relationship_size ex (primary_node ?c) = child_count j M' p" "node_row (primary_node ?c) = p"
    using relationship_size_join [OF n] by (simp_all add: announce_def)
  have "apply_change \<tau> order ?c L = Some L"
    using Cons.prems(2) L by (simp add: apply_change_def announce_def)
  moreover have "exists_consistent ex ?c L R ?R"
    using sz Cons.prems(3) [of p] by (simp add: exists_consistent_def list_all_iff)
  ultimately have one: "apply_changes \<tau> order (snd (exists_push fmt ex st ?c)) (exists_view ex R L) = Some (exists_view ex ?R L)"
    using exists_push_ok [OF L] by blast
  have st': "size_step ex (announce j (join_rel j rel relc M') c q) ?R (child_count j M' q)" if "q \<in> set ps" for q
  proof -
    have "q \<noteq> p" using that Cons.prems(1) by auto
    then have "?R q = R q" by simp
    then show ?thesis using Cons.prems(3) [of q] that size_step_announce [of ?R q R] by auto
  qed
  have "(\<lambda>q. if q \<in> set ps then child_count j M' q else ?R q) = (\<lambda>q. if q \<in> set (p # ps) then child_count j M' q else R q)"
    by auto
  then show ?case
    using one Cons.IH [OF _ _ st', of "fst (exists_push fmt ex st ?c)"] Cons.prems(1,2)
    by (simp add: split_def apply_changes_append Let_def fun_upd_def)
qed (simp add: exists_view_def)

lemma where_exists_child:
  assumes L: "view_ok \<tau> order L" and M: "view_ok \<tau>c orderc M" and c: "apply_change \<tau>c orderc c M = Some M'"
    and k: "keeps_key j c" and n: "ji_relationship j = exists_relationship ex"
  shows "\<exists>cs. push_child j (input_of order rel L) (input_of orderc relc M') c = Some cs \<and>
    apply_changes \<tau> order (snd (exists_push_all fmt ex st cs)) (exists_view ex (child_count j M) L) =
      Some (exists_view ex (child_count j M') L)"
proof -
  let ?ps = "filter (\<lambda>p. joined j p (node_row (primary_node c))) L"
  note step = child_count_step [OF M c k]
  have s: "size_step ex (announce j (join_rel j rel relc M') c p) (child_count j M) (child_count j M' p)" if "p \<in> set ?ps" for p
    using step(2) [of p] that n by (cases c) (auto simp: announce_def)
  have "exists_view ex (\<lambda>p. if p \<in> set ?ps then child_count j M' p else child_count j M p) L = exists_view ex (child_count j M') L"
    unfolding exists_view_def using step(1) by (intro filter_cong) auto
  then show ?thesis
    using exists_push_announced [where ps = ?ps and fmt = fmt and st = st, OF L n _ _ s] view_ok_distinct [OF L]
    by (simp add: push_child_eq announce_def [abs_def])
qed

text \<open>Changes of the parents: the join attaches the children, the \<open>Exists\<close> decides by them.\<close>

fun keeps_parent_key :: "join_input \<Rightarrow> change \<Rightarrow> bool" where
  "keeps_parent_key j (Edit n old) \<longleftrightarrow> list_all (\<lambda>pc. get (node_row n) pc = get (node_row old) pc) (ji_parent_key j)"
| "keeps_parent_key j c \<longleftrightarrow> True"

fun other_relationship :: "join_input \<Rightarrow> change \<Rightarrow> bool" where
  "other_relationship j (Child n ch) \<longleftrightarrow> relationship_name ch \<noteq> ji_relationship j"
| "other_relationship j c \<longleftrightarrow> True"

lemma joined_parent_key:
  "list_all (\<lambda>pc. get n pc = get old pc) (ji_parent_key j) \<Longrightarrow> joined j n = joined j old"
  unfolding joined_def by (intro ext list.pred_cong) (auto simp: list_all_iff dest: set_zip_leftD)

lemma process_parent_node_ex:
  "process_parent_node j (input_of orderc relc M) n = Some (Node (node_row n) (join_rel j (\<lambda>_. relationships n) relc M (node_row n)))"
  using process_parent_eq [of j orderc relc M "node_row n" "\<lambda>_. relationships n"] by simp

lemma where_exists_parent:
  assumes L: "view_ok \<tau> order L" and c: "apply_change \<tau> order c L = Some L'"
    and k: "keeps_parent_key j c" "other_relationship j c" and n: "ji_relationship j = exists_relationship ex"
  shows "\<exists>d. push_parent j (input_of orderc relc M) c = Some d \<and>
    apply_changes \<tau> order (snd (exists_push fmt ex st d)) (exists_view ex (child_count j M) L) =
      Some (exists_view ex (child_count j M) L')"
proof -
  note P = process_parent_node_ex [of j orderc relc M]
  have "\<exists>d. push_parent j (input_of orderc relc M) c = Some d \<and> apply_change \<tau> order d L = apply_change \<tau> order c L \<and>
      exists_consistent ex d L (child_count j M) (child_count j M)"
  proof (cases c)
    case (Edit m old)
    have "child_count j M (node_row m) = child_count j M (node_row old)"
      using k(1) Edit joined_parent_key by (simp add: child_count_def children_of_def)
    then show ?thesis
      using Edit P relationship_size_join [OF n]
      by (simp add: push_parent_def apply_change_def exists_consistent_def list_all_iff)
  next
    case (Child m ch)
    then show ?thesis
      using P relationship_size_join [OF n] k(2) n
      by (cases ch) (auto simp: push_parent_def apply_change_def exists_consistent_def list_all_iff)
  qed (use P relationship_size_join [OF n] in
    \<open>simp_all add: push_parent_def apply_change_def exists_consistent_def list_all_iff\<close>)
  then show ?thesis using exists_push_ok [OF L] c by fastforce
qed

section \<open>The helpers on tables are joins\<close>

lemma correlation_constraint_eq: "correlation_constraint p corr = child_constraint (correlation_join corr name) p"
  by (simp add: correlation_constraint_def child_constraint_def correlation_join_def)

lemma fetch_joined_nodes_eq:
  "fetch_joined_nodes parent child corr name =
     join_fetch (correlation_join corr name) (ts_fetch parent) (ts_fetch child) default_request"
proof -
  have p: "process_parent_node (correlation_join corr name) (ts_fetch child) n =
      map_option (\<lambda>cs. with_children name cs n) (ts_fetch child (constrained (correlation_constraint (node_row n) corr)))" for n
    by (simp add: process_parent_node_def constrained_def correlation_constraint_eq [of _ corr name]
        correlation_join_def map_option_bind bind_eq_Some_conv map_conv_bind_option comp_def)
  have "map_option (map (\<lambda>(n, children). with_children name children n))
      (map_opt (\<lambda>n. do { children \<leftarrow> ts_fetch child (constrained (correlation_constraint (node_row n) corr)); Some (n, children) }) ns) =
    map_opt (process_parent_node (correlation_join corr name) (ts_fetch child)) ns" for ns
    by (induction ns) (auto simp: p option_mono split: Option.bind_splits)
  then show ?thesis
    by (cases "ts_fetch parent default_request") (simp_all add: fetch_joined_nodes_def fetch_joined_def join_fetch_def)
qed

lemma reeval_exists_correct:
  assumes "ts_ok \<tau> child" "reeval_exists_after_child_change sc parent child corr = Some (Some (p, e))"
  shows "p \<in> set (ts_rows parent) \<and> joined (correlation_join corr name) p (changed_row sc) \<and>
    (e \<longleftrightarrow> children_of (correlation_join corr name) (ts_view child) p \<noteq> [])"
proof -
  let ?j = "correlation_join corr name"
  have f: "find_by_key parent (parent_key_constraint (changed_row sc) corr) = Some p"
    and e: "exists_for_row p child corr = Some e"
    using assms(2) by (auto simp: reeval_exists_after_child_change_def option_mono split: option.splits)
  have "constraint_matches_row (parent_key_constraint (changed_row sc) corr) p \<longleftrightarrow>
      list_all (\<lambda>(cc, pc). values_equal (get p pc) (get (changed_row sc) cc)) (zip (child_field corr) (parent_field corr))"
    by (simp add: constraint_matches_row_def parent_key_constraint_def list_all_iff split_def)
  also have "\<dots> \<longleftrightarrow> joined ?j p (changed_row sc)"
    using joined_swap [of p "changed_row sc" ?j] by (simp add: correlation_join_def)
  finally have "joined ?j p (changed_row sc)" using f find_SomeD unfolding find_by_key_def by metis
  moreover have "p \<in> set (ts_rows parent)" using f find_SomeD unfolding find_by_key_def by metis
  moreover have "e \<longleftrightarrow> children_of ?j (ts_view child) p \<noteq> []"
    using e ts_fetch_view [OF assms(1), of "constrained (correlation_constraint p corr)"]
    by (simp add: exists_for_row_def constrained_def default_request_def children_of_def
        input_of_constrained [unfolded default_request_def, simplified] correlation_constraint_eq [of p corr name]
        child_constraint_matches [abs_def])
  ultimately show ?thesis by blast
qed


section \<open>Properties\<close>

definition sample_join :: join_input where
  "sample_join = \<lparr>ji_parent_key = [''id''], ji_child_key = [''a''], ji_relationship = ''kids''\<rparr>"

text \<open>
  C9. Fetching through a join: for every request, \<open>JoinInput::fetch\<close> returns the parents the
  request selects, each with its own relationships and, under the name of the join, exactly the
  children whose key columns equal the parent's, in the order of the child input. A null key has
  no children.
\<close>

theorem join_fetch_attaches_children:
  "join_fetch j (input_of order rel L) (input_of orderc relc M) req =
     Some (map (\<lambda>p. Node p (AList.update (ji_relationship j)
         (map (\<lambda>c. Node c (relc c))
           (filter (\<lambda>c. list_all (\<lambda>(pc, cc). values_equal (get p pc) (get c cc)) (zip (ji_parent_key j) (ji_child_key j))) M))
         (rel p)))
       (fetch_rows order L req))"
  by (simp add: join_fetch_eq input_of_def join_rel_def children_of_def joined_def [abs_def])

text \<open>
  C7. \<open>whereExists\<close> follows the child table: \<open>JoinInput\<close> announces a legal child change to the
  parents it concerns, and \<open>Exists\<close>, fed with these announcements one by one, emits changes that
  turn the parents it showed over the old children into those it has to show over the new ones,
  for \<open>EXISTS\<close> and for \<open>NOT EXISTS\<close>. An edit must keep the join key of the child.
\<close>

theorem where_exists_follows_children:
  assumes "view_ok \<tau> order L" "view_ok \<tau>c orderc M" "apply_change \<tau>c orderc c M = Some M'"
    and "keeps_key j c" "ji_relationship j = exists_relationship ex"
  shows "\<exists>cs. push_child j (input_of order rel L) (input_of orderc relc M') c = Some cs \<and>
    apply_changes \<tau> order (snd (exists_push_all fmt ex st cs)) (exists_view ex (child_count j M) L) =
      Some (exists_view ex (child_count j M') L)"
  using assms by (rule where_exists_child)

theorem where_exists_follows_children_witness:
  "\<exists>cs. push_child sample_join (input_of sample_order (\<lambda>_. []) sample_table)
      (input_of sample_order (\<lambda>_. []) [sample_row 1 1, sample_row 1 2, sample_row 1 3, sample_row 2 4, sample_row 3 5])
      (Add (node_new (sample_row 3 5))) = Some cs \<and>
    apply_changes sample_types sample_order
      (snd (exists_push_all (\<lambda>_. '''') (exists_new ''kids'' [''id''] Ivm_Exists.Exists) [] cs)) [sample_row 1 1, sample_row 1 2] =
      Some [sample_row 1 1, sample_row 1 2, sample_row 1 3]"
proof -
  let ?M' = "[sample_row 1 1, sample_row 1 2, sample_row 1 3, sample_row 2 4, sample_row 3 5]"
  let ?ex = "exists_new ''kids'' [''id''] Ivm_Exists.Exists"
  have "view_ok sample_types sample_order sample_table" "view_ok sample_types sample_order sample_table"
    "apply_change sample_types sample_order (Add (node_new (sample_row 3 5))) sample_table = Some ?M'" by code_simp+
  note w = where_exists_follows_children [OF this, of sample_join ?ex "\<lambda>_. []" "\<lambda>_. []" "\<lambda>_. ''''" "[]"]
  moreover have "exists_view ?ex (child_count sample_join sample_table) sample_table = [sample_row 1 1, sample_row 1 2]"
    "exists_view ?ex (child_count sample_join ?M') sample_table = [sample_row 1 1, sample_row 1 2, sample_row 1 3]" by code_simp+
  moreover have "ji_relationship sample_join = exists_relationship ?ex" by (simp add: sample_join_def exists_new_def)
  ultimately show ?thesis by simp
qed



text \<open>
  An edit that moves a child to another parent is announced to the new parent only: the old
  parent, left without a child, stays in the result of \<open>EXISTS\<close>.
\<close>

theorem join_edit_misses_old_parent:
  "let M' = [sample_row 1 1, sample_row 1 2, sample_row 1 3, sample_row 3 4]; ex = exists_new ''kids'' [''id''] Ivm_Exists.Exists in
   apply_change sample_types sample_order (Edit (node_new (sample_row 3 4)) (node_new (sample_row 2 4))) sample_table = Some M' \<and>
   (do { cs \<leftarrow> push_child sample_join (input_of sample_order (\<lambda>_. []) sample_table) (input_of sample_order (\<lambda>_. []) M')
           (Edit (node_new (sample_row 3 4)) (node_new (sample_row 2 4)));
         Some (map (node_row \<circ> primary_node) cs, map (node_row \<circ> primary_node) (snd (exists_push_all (\<lambda>_. '''') ex [] cs))) }) =
     Some ([sample_row 1 3], [sample_row 1 3]) \<and>
   exists_view ex (child_count sample_join sample_table) sample_table = [sample_row 1 1, sample_row 1 2] \<and>
   exists_view ex (child_count sample_join M') sample_table = [sample_row 1 1, sample_row 1 3]"
  by code_simp

end
