(* ===== verification/Ivm_Fan.thy ===== *)
theory Ivm_Fan
  imports Ivm_Filter Ivm_Exists
begin

text \<open>
  The \<open>FanOut\<close> and \<open>FanIn\<close> operators (\<open>zero-cache-zql/src/ivm/fan_out.rs\<close>, \<open>ivm/fan_in.rs\<close>): an
  \<open>OR\<close> forks its input into one branch per arm and merges the branches again. \<open>FanIn\<close> collects
  what the branches push for one change and collapses it to a single change; its fetch merges the
  fetches of the branches. A failed \<open>debug_assert!\<close> is a panic here. The merge is verified for
  branches described by whether they show the row before and after the change.
\<close>

section \<open>FanIn\<close>

datatype change_tag = TagAdd | TagRemove | TagEdit | TagChild

fun change_tag_of :: "change \<Rightarrow> change_tag" where
  "change_tag_of (Add node) = TagAdd"
| "change_tag_of (Remove node) = TagRemove"
| "change_tag_of (Edit node old_node) = TagEdit"
| "change_tag_of (Child node child) = TagChild"

record fan_in =
  fi_inputs :: "input list"
  fi_schema :: source_schema
  accumulated :: "change list"

definition fan_in_new :: "source_schema \<Rightarrow> input list \<Rightarrow> fan_in" where
  "fan_in_new fan_out_schema inputs = \<lparr>fi_inputs = inputs, fi_schema = fan_out_schema, accumulated = []\<rparr>"

definition fan_in_push :: "change \<Rightarrow> fan_in \<Rightarrow> fan_in" where
  "fan_in_push change f = f\<lparr>accumulated := accumulated f @ [change]\<rparr>"

text \<open>The first change of each kind, in the order in which the kinds are first seen.\<close>

fun candidates :: "(change_tag \<times> change) list \<Rightarrow> change list \<Rightarrow> (change_tag \<times> change) list" where
  "candidates found [] = found"
| "candidates found (change # rest) =
     (if list_ex (\<lambda>(t, _). t = change_tag_of change) found then candidates found rest
      else candidates (found @ [(change_tag_of change, change)]) rest)"

definition take_tag :: "(change_tag \<times> change) list \<Rightarrow> change_tag \<Rightarrow> change option" where
  "take_tag cands tag = map_option snd (find (\<lambda>(t, _). t = tag) cands)"

definition opt_list :: "'a option \<Rightarrow> 'a list" where
  "opt_list x = (case x of None \<Rightarrow> [] | Some y \<Rightarrow> [y])"

definition or_else :: "'a option \<Rightarrow> 'a option \<Rightarrow> 'a option" where
  "or_else a b = (case a of None \<Rightarrow> b | Some x \<Rightarrow> Some x)"

definition push_accumulated_changes :: "change list \<Rightarrow> change_tag \<Rightarrow> change list option" where
  "push_accumulated_changes acc fan_out_type =
     (if acc = [] then Some []
      else
        let cands = candidates [] acc; tags = map fst cands; take_t = take_tag cands in
        case fan_out_type of
          TagRemove \<Rightarrow> do { assert_ok (tags = [TagRemove]); Some (opt_list (take_t TagRemove)) }
        | TagAdd \<Rightarrow> do { assert_ok (tags = [TagAdd]); Some (opt_list (take_t TagAdd)) }
        | TagEdit \<Rightarrow>
            do {
              assert_ok (list_all (\<lambda>t. t \<in> {TagAdd, TagRemove, TagEdit}) tags);
              Some (case take_t TagEdit of
                  Some edit \<Rightarrow> [edit]
                | None \<Rightarrow>
                    (case (take_t TagAdd, take_t TagRemove) of
                       (Some a, Some r) \<Rightarrow> [Edit (primary_node a) (primary_node r)]
                     | (a, r) \<Rightarrow> opt_list (or_else a r)))
            }
        | TagChild \<Rightarrow>
            do {
              assert_ok (list_all (\<lambda>t. t \<in> {TagAdd, TagRemove, TagChild}) tags);
              Some (case take_t TagChild of
                  Some child \<Rightarrow> [child]
                | None \<Rightarrow> opt_list (or_else (take_t TagAdd) (take_t TagRemove)))
            })"

definition fan_out_done_pushing_to_all_branches :: "change_tag \<Rightarrow> fan_in \<Rightarrow> (fan_in \<times> change list) option" where
  "fan_out_done_pushing_to_all_branches fan_out_type f =
     (let acc = accumulated f; f' = f\<lparr>accumulated := []\<rparr> in
      if fi_inputs f = [] then do { assert_ok (acc = []); Some (f', []) }
      else do { out \<leftarrow> push_accumulated_changes acc fan_out_type; Some (f', out) })"

text \<open>\<open>Vec::dedup_by\<close> keeps the first of each run of equal elements.\<close>

fun dedup_by :: "('a \<Rightarrow> 'a \<Rightarrow> bool option) \<Rightarrow> 'a list \<Rightarrow> 'a list option" where
  "dedup_by same [] = Some []"
| "dedup_by same [x] = Some [x]"
| "dedup_by same (x # y # ys) =
     do {
       e \<leftarrow> same y x;
       if e then dedup_by same (x # ys) else map_option (Cons x) (dedup_by same (y # ys))
     }"

definition fan_in_compare :: "sort_order \<Rightarrow> bool \<Rightarrow> node comparator" where
  "fan_in_compare order reverse a b =
     (if reverse then make_comparator order False (node_row b) (node_row a)
      else make_comparator order False (node_row a) (node_row b))"

definition fan_in_fetch :: "fan_in \<Rightarrow> input" where
  "fan_in_fetch f req =
     (let compare = fan_in_compare (schema_sort (fi_schema f)) (req_reverse req) in
      do {
        merged \<leftarrow> map_opt (\<lambda>input. input req) (fi_inputs f);
        sorted \<leftarrow> sort_by compare (concat merged);
        dedup_by (\<lambda>a b. map_option (\<lambda>o'. o' = Equal) (compare a b)) sorted
      })"

section \<open>FanOut\<close>

text \<open>
  A branch is what is wired between the two operators: it maps a change pushed by \<open>FanOut\<close> to the
  changes it pushes on to \<open>FanIn\<close>. \<open>has_fan_in\<close> tells whether the weak reference to the paired
  \<open>FanIn\<close> is set and alive.
\<close>

type_synonym branch = "change \<Rightarrow> change list option"

fun broadcast :: "branch list \<Rightarrow> change \<Rightarrow> fan_in \<Rightarrow> fan_in option" where
  "broadcast [] change f = Some f"
| "broadcast (output # outputs) change f =
     do { cs \<leftarrow> output change; broadcast outputs change (fold fan_in_push cs f) }"

definition fan_out_push :: "branch list \<Rightarrow> bool \<Rightarrow> change \<Rightarrow> fan_in \<Rightarrow> (fan_in \<times> change list) option" where
  "fan_out_push outputs has_fan_in change f =
     do {
       f' \<leftarrow> broadcast outputs change f;
       assert_ok has_fan_in;
       fan_out_done_pushing_to_all_branches (change_tag_of change) f'
     }"

definition fan_out_fetch :: "input \<Rightarrow> input" where
  "fan_out_fetch input req = input req"

section \<open>Fetching the merge\<close>

interpretation fan_cmp: total_cmp "fan_in_compare order rv" "{n. node_row n \<in> typed_rows \<tau> order}" for order rv \<tau>
proof (unfold_locales, goal_cases)
  case (1 a b)
  then show ?case
    using row_cmp.total [of "node_row a" \<tau> order "node_row b"] row_cmp.total [of "node_row b" \<tau> order "node_row a"]
    by (simp add: fan_in_compare_def)
next
  case (2 a b)
  then show ?case
    using row_cmp.swap [of "node_row a" \<tau> order "node_row b"] row_cmp.swap [of "node_row b" \<tau> order "node_row a"]
    by (simp add: fan_in_compare_def)
next
  case (3 a b c)
  then show ?case
    using row_cmp.le_trans [of "node_row a" \<tau> order "node_row b" "node_row c"]
      row_cmp.le_trans [of "node_row c" \<tau> order "node_row b" "node_row a"]
    by (simp add: fan_in_compare_def le_by_def split: if_splits)
qed

text \<open>The first element of each class of elements that compare equal: what \<open>dedup_by\<close> keeps.\<close>

fun firsts :: "'a comparator \<Rightarrow> 'a list \<Rightarrow> 'a set" where
  "firsts cmp [] = {}"
| "firsts cmp (x # xs) = insert x {y \<in> firsts cmp xs. cmp x y \<noteq> Some Equal}"

lemma firsts_subset: "firsts cmp xs \<subseteq> set xs"
  by (induction xs) auto

lemma firsts_append: "firsts cmp (xs @ ys) = firsts cmp xs \<union> {y \<in> firsts cmp ys. \<forall>x\<in>set xs. cmp x y \<noteq> Some Equal}"
  by (induction xs) auto

lemma firsts_distinct: "sorted_wrt (\<lambda>a b. cmp a b \<noteq> Some Equal) xs \<Longrightarrow> firsts cmp xs = set xs"
  by (induction xs) auto

context total_cmp begin

lemma equal_sym: "a \<in> U \<Longrightarrow> b \<in> U \<Longrightarrow> cmp a b = Some Equal \<longleftrightarrow> cmp b a = Some Equal"
  using swap [of a b] swap [of b a] by auto

lemma firsts_ins_by:
  "x \<in> U \<Longrightarrow> set ys \<subseteq> U \<Longrightarrow> firsts cmp (ins_by cmp x ys) = insert x {y \<in> firsts cmp ys. cmp x y \<noteq> Some Equal}"
proof (induction ys)
  case (Cons y ys)
  then show ?case using equal_sym [of x y] by auto
qed simp

lemma firsts_isort_by: "set xs \<subseteq> U \<Longrightarrow> firsts cmp (isort_by cmp xs) = firsts cmp xs"
  by (induction xs) (simp_all add: firsts_ins_by)

lemma dedup_by_sorted:
  assumes "set xs \<subseteq> U" "sorted_wrt (le_by cmp) xs"
  shows "\<exists>ys. dedup_by (\<lambda>a b. map_option (\<lambda>o'. o' = Equal) (cmp a b)) xs = Some ys \<and>
    sorted_wrt (lt_by cmp) ys \<and> set ys = firsts cmp xs"
  using assms
proof (induction "\<lambda>a b. map_option (\<lambda>o'. o' = Equal) (cmp a b)" xs rule: dedup_by.induct)
  case (3 x y ys)
  have U: "x \<in> U" "y \<in> U" "set ys \<subseteq> U" using "3.prems" by auto
  have s: "le_by cmp x y" "sorted_wrt (le_by cmp) (x # ys)" "sorted_wrt (le_by cmp) (y # ys)" using "3.prems" by auto
  obtain o' where o': "cmp y x = Some o'" using total [of y x] U by auto
  show ?case
  proof (cases "o' = Equal")
    case True
    then have xy: "cmp x y = Some Equal" using equal_sym [of x y] U o' by simp
    have e: "cmp x n = Some Equal \<longleftrightarrow> cmp y n = Some Equal" if "n \<in> set ys" for n
      using cmp_equal_cong(2) [of x y n] U xy that by auto
    have f: "firsts cmp (x # y # ys) = firsts cmp (x # ys)"
      using xy e firsts_subset [of cmp ys] by auto
    have "set (x # ys) \<subseteq> U" using U by simp
    from "3.hyps"(1) [of True, OF _ _ this s(2)] o' True f show ?thesis by simp
  next
    case False
    have "set (y # ys) \<subseteq> U" using U by simp
    from "3.hyps"(2) [of False, OF _ _ this s(3)] o' False obtain zs where
      zs: "dedup_by (\<lambda>a b. map_option (\<lambda>o'. o' = Equal) (cmp a b)) (y # ys) = Some zs"
      "sorted_wrt (lt_by cmp) zs" "set zs = firsts cmp (y # ys)"
      by auto
    have xy: "lt_by cmp x y"
      using s(1) o' False equal_sym [of x y] U by (auto simp: le_by_def lt_by_def)
    have lt: "lt_by cmp x n" if "n \<in> set (y # ys)" for n
    proof -
      have "n \<in> U" "le_by cmp y n" using that U s(3) by auto
      then show ?thesis using lt_le_trans [of x y n] U xy by blast
    qed
    have "lt_by cmp x n" if "n \<in> set zs" for n
      using lt that zs(3) firsts_subset [of cmp "y # ys"] by blast
    moreover have "firsts cmp (x # y # ys) = insert x (firsts cmp (y # ys))"
      using lt firsts_subset [of cmp "y # ys"] by (force simp: lt_by_def)
    ultimately show ?thesis using o' False zs by simp
  qed
qed auto

end

text \<open>Merging the branches of views restricted to some of the rows of one view.\<close>

definition branch_rel ::
  "((row \<Rightarrow> bool) \<times> (row \<Rightarrow> (string \<times> node list) list)) list \<Rightarrow> row \<Rightarrow> (string \<times> node list) list" where
  "branch_rel bs r = (case find (\<lambda>(q, _). q r) bs of Some (_, rel) \<Rightarrow> rel r | None \<Rightarrow> [])"

lemma fetch_rows_filter: "fetch_rows order (filter q L) req = filter q (fetch_rows order L req)"
  by (simp add: fetch_rows_def rev_filter conj_commute)

lemma fan_cmp_strict:
  assumes "view_ok \<tau> order L" "set V \<subseteq> set L" "distinct V"
  shows "sorted_wrt (\<lambda>a b. fan_in_compare order rv a b \<noteq> Some Equal) (map (\<lambda>r. Node r (rel r)) V)"
  using assms(2,3)
proof (induction V)
  case (Cons r V)
  have "fan_in_compare order rv (Node r (rel r)) (Node s (rel s)) \<noteq> Some Equal" if "s \<in> set V" for s
    using Cons.prems that view_ok_equal_eq [OF assms(1), of r s] view_ok_equal_eq [OF assms(1), of s r]
    by (auto simp: fan_in_compare_def)
  with Cons show ?case by auto
qed simp

lemma fetch_rows_mem: "r \<in> set (fetch_rows order L req) \<Longrightarrow> r \<in> set L"
  by (auto simp: fetch_rows_def split: if_splits)

lemma fetch_rows_sorted:
  assumes "view_ok \<tau> order L"
  shows "sorted_wrt (lt_by (fan_in_compare order (req_reverse req))) (map (\<lambda>r. Node r (rel r)) (fetch_rows order L req))"
proof -
  have "sorted_wrt (lt_by (make_comparator order False)) L" using assms by (simp add: view_ok_iff)
  then have "sorted_wrt (\<lambda>a b. lt_by (make_comparator order False) (if req_reverse req then b else a) (if req_reverse req then a else b))
      (if req_reverse req then rev L else L)"
    by (simp add: sorted_wrt_rev)
  then have "sorted_wrt (\<lambda>a b. lt_by (make_comparator order False) (if req_reverse req then b else a) (if req_reverse req then a else b))
      (fetch_rows order L req)"
    unfolding fetch_rows_def by (rule sorted_wrt_filter)
  then show ?thesis
    unfolding sorted_wrt_map by (rule sorted_wrt_mono_rel [rotated]) (simp add: lt_by_def fan_in_compare_def split: if_splits)
qed

lemma firsts_branches:
  assumes L: "view_ok \<tau> order L" and F: "set F \<subseteq> set L" "distinct F"
  shows "firsts (fan_in_compare order rv) (concat (map (\<lambda>(q, rel). map (\<lambda>r. Node r (rel r)) (filter q F)) bs)) =
    set (map (\<lambda>r. Node r (branch_rel bs r)) (filter (\<lambda>r. \<exists>b\<in>set bs. fst b r) F))"
proof (induction bs)
  case (Cons b bs)
  obtain q rel where b: "b = (q, rel)" by (cases b)
  let ?A = "map (\<lambda>r. Node r (rel r)) (filter q F)"
  have A: "firsts (fan_in_compare order rv) ?A = set ?A"
    using fan_cmp_strict [OF L, of "filter q F" rv rel] F by (intro firsts_distinct) auto
  have T: "r \<in> typed_rows \<tau> order" if "r \<in> set F" for r using that L F by (auto simp: view_ok_iff)
  have E: "fan_in_compare order rv (Node r x) (Node s y) = Some Equal \<longleftrightarrow> r = s" if "r \<in> set F" "s \<in> set F" for r s x y
    using view_ok_equal_eq [OF L, of r s] view_ok_equal_eq [OF L, of s r] that F row_cmp.refl [OF T [OF that(1)]]
    by (auto simp: fan_in_compare_def)
  have "{y \<in> set (map (\<lambda>r. Node r (branch_rel bs r)) (filter (\<lambda>r. \<exists>b\<in>set bs. fst b r) F)).
      \<forall>x\<in>set ?A. fan_in_compare order rv x y \<noteq> Some Equal} =
    (\<lambda>r. Node r (branch_rel bs r)) ` {r \<in> set F. (\<exists>b\<in>set bs. fst b r) \<and> \<not> q r}"
    using E by (force intro!: image_eqI)
  moreover have "branch_rel (b # bs) r = (if q r then rel r else branch_rel bs r)" for r
    by (simp add: branch_rel_def b)
  ultimately show ?case
    using Cons A by (auto simp: b firsts_append image_def)
qed simp

lemma fan_in_fetch_merge:
  assumes L: "view_ok \<tau> order L" and s: "schema_sort (fi_schema f) = order"
    and f: "fi_inputs f = map (\<lambda>(q, rel). input_of order rel (filter q L)) bs"
  shows "fan_in_fetch f req = input_of order (branch_rel bs) (filter (\<lambda>r. \<exists>b\<in>set bs. fst b r) L) req"
proof -
  let ?F = "fetch_rows order L req" and ?cmp = "fan_in_compare order (req_reverse req)"
  let ?N = "concat (map (\<lambda>(q, rel). map (\<lambda>r. Node r (rel r)) (filter q ?F)) bs)"
  let ?R = "map (\<lambda>r. Node r (branch_rel bs r)) (filter (\<lambda>r. \<exists>b\<in>set bs. fst b r) ?F)"
  have F: "set ?F \<subseteq> set L" using fetch_rows_mem by auto
  have d: "distinct ?F" using view_ok_distinct [OF L] by (simp add: fetch_rows_def)
  have T: "set ?F \<subseteq> typed_rows \<tau> order" using F L by (auto simp: view_ok_iff)
  have U: "set ?N \<subseteq> {n. node_row n \<in> typed_rows \<tau> order}" using T by auto
  obtain ys where ys: "dedup_by (\<lambda>a b. map_option (\<lambda>o'. o' = Equal) (?cmp a b)) (isort_by ?cmp ?N) = Some ys"
    "sorted_wrt (lt_by ?cmp) ys" "set ys = firsts ?cmp (isort_by ?cmp ?N)"
    using fan_cmp.dedup_by_sorted [of "isort_by ?cmp ?N" \<tau> order "req_reverse req"]
      fan_cmp.sorted_isort_by [OF U, of "req_reverse req"] U by auto
  have R: "sorted_wrt (lt_by ?cmp) ?R"
    using sorted_wrt_filter [OF fetch_rows_sorted [OF L, of req "branch_rel bs"], of "\<lambda>n. \<exists>b\<in>set bs. fst b (node_row n)"]
    by (simp add: filter_map o_def)
  have "set ys = set ?R"
    using ys(3) fan_cmp.firsts_isort_by [OF U] firsts_branches [OF L F d] by simp
  then have "ys = ?R"
    using U ys firsts_subset [of ?cmp "isort_by ?cmp ?N"]
    by (intro fan_cmp.strict_sorted_unique [OF _ ys(2) R, of \<tau>]) auto
  moreover have "map_opt (\<lambda>input. input req) (fi_inputs f) =
      Some (map (\<lambda>(q, rel). map (\<lambda>r. Node r (rel r)) (filter q ?F)) bs)"
    unfolding f by (induction bs) (auto simp: input_of_def fetch_rows_filter)
  ultimately show ?thesis
    using ys(1) fan_cmp.sort_by_eq [OF U, of "req_reverse req"] s
    by (simp add: fan_in_fetch_def input_of_def fetch_rows_filter Let_def)
qed

section \<open>What a branch pushes\<close>

text \<open>
  A branch that shows some of the rows pushes at most one change for one change of its input: the
  change itself while the row stays shown, an add or a remove when the row comes into view or
  leaves it. \<open>old\<close> and \<open>new\<close> tell whether the branch shows the row before and after.
\<close>

fun emit_tag :: "change_tag \<Rightarrow> bool \<Rightarrow> bool \<Rightarrow> change_tag option" where
  "emit_tag TagAdd old new = (if new then Some TagAdd else None)"
| "emit_tag TagRemove old new = (if old then Some TagRemove else None)"
| "emit_tag t old new =
     (if old \<and> new then Some t else if new then Some TagAdd else if old then Some TagRemove else None)"

fun old_row :: "change \<Rightarrow> row" where
  "old_row (Edit n old) = node_row old"
| "old_row c = node_row (primary_node c)"

definition new_row :: "change \<Rightarrow> row" where
  "new_row c = node_row (primary_node c)"

fun same_rows :: "change \<Rightarrow> change \<Rightarrow> bool" where
  "same_rows c (Add m) \<longleftrightarrow> node_row m = new_row c"
| "same_rows c (Remove m) \<longleftrightarrow> node_row m = old_row c"
| "same_rows c (Edit m old) \<longleftrightarrow> node_row m = new_row c \<and> node_row old = old_row c"
| "same_rows c (Child m d) \<longleftrightarrow> node_row m = new_row c"

definition emits :: "change \<Rightarrow> bool \<Rightarrow> bool \<Rightarrow> change list \<Rightarrow> bool" where
  "emits c old new cs \<longleftrightarrow>
     (case emit_tag (change_tag_of c) old new of
        None \<Rightarrow> cs = []
      | Some t \<Rightarrow> \<exists>d. cs = [d] \<and> change_tag_of d = t \<and> same_rows c d)"

lemma tag_iff:
  "change_tag_of d = TagAdd \<longleftrightarrow> (\<exists>m. d = Add m)"
  "change_tag_of d = TagRemove \<longleftrightarrow> (\<exists>m. d = Remove m)"
  "change_tag_of d = TagEdit \<longleftrightarrow> (\<exists>m p. d = Edit m p)"
  "change_tag_of d = TagChild \<longleftrightarrow> (\<exists>m ch. d = Child m ch)"
  by (cases d; simp)+

lemma emits_simps:
  "emits (Add n) old new cs \<longleftrightarrow>
     (if new then \<exists>m. cs = [Add m] \<and> node_row m = node_row n else cs = [])"
  "emits (Remove n) old new cs \<longleftrightarrow>
     (if old then \<exists>m. cs = [Remove m] \<and> node_row m = node_row n else cs = [])"
  "emits (Child n ch) old new cs \<longleftrightarrow>
     (if old \<and> new then \<exists>m d. cs = [Child m d] \<and> node_row m = node_row n
      else if new then \<exists>m. cs = [Add m] \<and> node_row m = node_row n
      else if old then \<exists>m. cs = [Remove m] \<and> node_row m = node_row n else cs = [])"
  "emits (Edit n p) old new cs \<longleftrightarrow>
     (if old \<and> new then \<exists>m o'. cs = [Edit m o'] \<and> node_row m = node_row n \<and> node_row o' = node_row p
      else if new then \<exists>m. cs = [Add m] \<and> node_row m = node_row n
      else if old then \<exists>m. cs = [Remove m] \<and> node_row m = node_row p else cs = [])"
  by (auto simp: emits_def tag_iff new_row_def)

text \<open>A branch that is a filter.\<close>

lemma filter_emits:
  "\<exists>cs. graph_filter_push (\<lambda>r. Some (q r)) c = Some cs \<and> emits c (q (old_row c)) (q (new_row c)) cs"
  by (cases c) (auto simp: graph_filter_push_def emits_simps new_row_def split: bool.splits)

text \<open>What is emitted is legal for the rows shown and leaves those shown afterwards.\<close>

lemma emits_change_set:
  assumes e: "emits c (old_row c \<in> A) new cs"
    and A': "A' = A - {old_row c} \<union> (if new then {new_row c} else {})"
    and n: "new_row c = old_row c \<or> new_row c \<notin> A"
    and c: "change_tag_of c = TagAdd \<Longrightarrow> old_row c \<notin> A" "change_tag_of c = TagRemove \<Longrightarrow> \<not> new"
  shows "(cs = [] \<and> A = A') \<or> (\<exists>d. cs = [d] \<and> change_set d A = Some A')"
proof (cases c)
  case (Add m)
  then show ?thesis using e A' c(1) by (cases new) (auto simp: emits_simps new_row_def)
next
  case (Remove m)
  then show ?thesis using e A' c(2) by (cases "old_row c \<in> A") (auto simp: emits_simps)
next
  case (Child m ch)
  then show ?thesis using e A' by (cases new; cases "old_row c \<in> A") (auto simp: emits_simps new_row_def)
next
  case (Edit m p)
  then show ?thesis using e A' n by (cases new; cases "old_row c \<in> A") (auto simp: emits_simps new_row_def)
qed

lemma change_set_rows:
  assumes "change_set c S = Some S'"
  shows "change_tag_of c \<noteq> TagAdd \<Longrightarrow> old_row c \<in> S" "change_tag_of c = TagAdd \<Longrightarrow> old_row c \<notin> S"
    "new_row c = old_row c \<or> new_row c \<notin> S" "change_tag_of c \<noteq> TagRemove \<Longrightarrow> new_row c \<in> S'"
    "S' - {new_row c} = S - {old_row c} - {new_row c}" "change_tag_of c = TagRemove \<Longrightarrow> new_row c \<notin> S'"
  using assms by (cases c; auto simp: new_row_def split: if_splits)+

lemma emits_legal:
  assumes c: "change_set c S = Some S'"
    and e: "emits c (old_row c \<in> S \<and> P (old_row c)) (new_row c \<in> S' \<and> P' (new_row c)) cs"
    and rest: "\<And>r. r \<in> S \<Longrightarrow> r \<in> S' \<Longrightarrow> r \<noteq> new_row c \<Longrightarrow> P' r = P r"
  shows "(cs = [] \<and> {r \<in> S. P r} = {r \<in> S'. P' r}) \<or>
    (\<exists>d. cs = [d] \<and> change_set d {r \<in> S. P r} = Some {r \<in> S'. P' r})"
proof (rule emits_change_set)
  show "emits c (old_row c \<in> {r \<in> S. P r}) (new_row c \<in> S' \<and> P' (new_row c)) cs" using e by simp
  note R = change_set_rows [OF c]
  have "r \<in> S' \<and> P' r \<longleftrightarrow> r \<in> S \<and> P r \<and> r \<noteq> old_row c" if "r \<noteq> new_row c" for r
    using that rest [of r] R(5) by blast
  moreover have "new_row c \<in> S \<and> P (new_row c) \<and> new_row c \<noteq> old_row c \<longleftrightarrow> False" using R(3) by blast
  ultimately have "r \<in> {r \<in> S'. P' r} \<longleftrightarrow>
      r \<in> {r \<in> S. P r} - {old_row c} \<union> (if new_row c \<in> S' \<and> P' (new_row c) then {new_row c} else {})" for r
    by (cases "r = new_row c"; cases "new_row c \<in> S' \<and> P' (new_row c)") (simp_all, blast?)
  then show "{r \<in> S'. P' r} = {r \<in> S. P r} - {old_row c} \<union> (if new_row c \<in> S' \<and> P' (new_row c) then {new_row c} else {})"
    by blast
  show "new_row c = old_row c \<or> new_row c \<notin> {r \<in> S. P r}" using R(3) by blast
  show "old_row c \<notin> {r \<in> S. P r}" if "change_tag_of c = TagAdd" using R(2) that by blast
  show "\<not> (new_row c \<in> S' \<and> P' (new_row c))" if "change_tag_of c = TagRemove" using R(6) that by blast
qed

section \<open>Collapsing the pushes of the branches\<close>

lemma take_tag_candidates:
  "take_tag (candidates found acc) t = or_else (take_tag found t) (find (\<lambda>c. change_tag_of c = t) acc)"
proof (induction found acc rule: candidates.induct)
  case (2 found change rest)
  have 1: "find (\<lambda>(u, _). u = t) found \<noteq> None" if "list_ex (\<lambda>(u, _). u = t) found"
    using that by (induction found) auto
  have 2: "find (\<lambda>(u, _). u = t) (found @ [(change_tag_of change, change)]) =
      or_else (find (\<lambda>(u, _). u = t) found) (if change_tag_of change = t then Some (change_tag_of change, change) else None)"
    by (induction found) (auto simp: or_else_def)
  show ?case
    using "2.IH" 1 2 by (auto simp: take_tag_def or_else_def split: option.splits if_splits)
qed (auto simp: or_else_def split: option.splits)

lemma tag_found: "list_ex (\<lambda>(u, _). u = t) found \<longleftrightarrow> t \<in> set (map fst found)"
  by (induction found) auto

lemma tags_candidates:
  "set (map fst (candidates found acc)) = set (map fst found) \<union> change_tag_of ` set acc"
  by (induction found acc rule: candidates.induct) (auto simp only: candidates.simps tag_found split: if_splits; simp)+

lemma distinct_candidates: "distinct (map fst found) \<Longrightarrow> distinct (map fst (candidates found acc))"
proof (induction found acc rule: candidates.induct)
  case (2 found change rest)
  then show ?case
    unfolding candidates.simps tag_found by (cases "change_tag_of change \<in> set (map fst found)") simp_all
qed simp

lemma single_tag:
  assumes "acc \<noteq> []" "\<And>d. d \<in> set acc \<Longrightarrow> change_tag_of d = t"
  shows "map fst (candidates [] acc) = [t]"
proof -
  have "set (map fst (candidates [] acc)) = {t}" "distinct (map fst (candidates [] acc))"
    using tags_candidates [of "[]" acc] distinct_candidates [of "[]" acc] assms by (auto simp: image_def ex_in_conv)
  then show ?thesis
    by (cases "map fst (candidates [] acc)" rule: remdups_adj.cases) (auto simp: subset_singleton_iff)
qed

text \<open>The disjunction the merge has to show: shown before or after by some branch.\<close>

definition some_old :: "(bool \<times> bool \<times> change list) list \<Rightarrow> bool" where
  "some_old bs \<longleftrightarrow> list_ex (\<lambda>(old, new, cs). old) bs"

definition some_new :: "(bool \<times> bool \<times> change list) list \<Rightarrow> bool" where
  "some_new bs \<longleftrightarrow> list_ex (\<lambda>(old, new, cs). new) bs"

text \<open>A child change by which one branch loses the row and another gains it, none keeping it.\<close>

definition swapped :: "change \<Rightarrow> (bool \<times> bool \<times> change list) list \<Rightarrow> bool" where
  "swapped c bs \<longleftrightarrow> change_tag_of c = TagChild \<and>
     some_old bs \<and> some_new bs \<and> \<not> list_ex (\<lambda>(old, new, cs). old \<and> new) bs"

definition emitted :: "change \<Rightarrow> (bool \<times> bool \<times> change list) list \<Rightarrow> change_tag \<Rightarrow> bool" where
  "emitted c bs t \<longleftrightarrow> list_ex (\<lambda>(old, new, cs). emit_tag (change_tag_of c) old new = Some t) bs"

definition all_emit :: "change \<Rightarrow> (bool \<times> bool \<times> change list) list \<Rightarrow> bool" where
  "all_emit c bs \<longleftrightarrow> list_all (\<lambda>(old, new, cs). emits c old new cs) bs"

lemma find_emitted:
  "all_emit c bs \<Longrightarrow>
   (case find (\<lambda>d. change_tag_of d = t) (concat (map (snd \<circ> snd) bs)) of
      None \<Rightarrow> \<not> emitted c bs t
    | Some d \<Rightarrow> emitted c bs t \<and> change_tag_of d = t \<and> same_rows c d)"
proof (induction bs)
  case (Cons b bs)
  obtain old new cs where b: "b = (old, new, cs)" by (cases b)
  have e: "emits c old new cs" and IH: "all_emit c bs" using Cons.prems by (auto simp: all_emit_def b)
  have s: "emitted c (b # bs) t \<longleftrightarrow> emit_tag (change_tag_of c) old new = Some t \<or> emitted c bs t"
    by (auto simp: emitted_def b)
  show ?case
  proof (cases "emit_tag (change_tag_of c) old new")
    case None
    then show ?thesis using e Cons.IH [OF IH] s unfolding b by (simp add: emits_def comp_def split: option.splits)
  next
    case (Some u)
    then obtain d where "cs = [d]" "change_tag_of d = u" "same_rows c d" using e by (auto simp: emits_def)
    then show ?thesis using Some Cons.IH [OF IH] s unfolding b by (cases "u = t") (simp_all add: comp_def split: option.splits)
  qed
qed (simp add: emitted_def)

lemma tags_emitted:
  assumes "all_emit c bs" "d \<in> set (concat (map (snd \<circ> snd) bs))"
  shows "emitted c bs (change_tag_of d)"
proof -
  from assms obtain old new cs where b: "(old, new, cs) \<in> set bs" "d \<in> set cs" "emits c old new cs"
    by (force simp: all_emit_def list_all_iff)
  then have "emit_tag (change_tag_of c) old new = Some (change_tag_of d)"
    by (auto simp: emits_def split: option.splits)
  then show ?thesis using b(1) by (force simp: emitted_def list_ex_iff)
qed

lemma take_emitted:
  assumes "all_emit c bs"
  shows "case take_tag (candidates [] (concat (map (snd \<circ> snd) bs))) t of
      None \<Rightarrow> \<not> emitted c bs t
    | Some d \<Rightarrow> emitted c bs t \<and> change_tag_of d = t \<and> same_rows c d"
  using find_emitted [OF assms, of t] by (simp add: take_tag_candidates or_else_def take_tag_def [of "[]"])

lemma emitted_simps:
  "emitted (Add n) bs t \<longleftrightarrow> t = TagAdd \<and> some_new bs"
  "emitted (Remove n) bs t \<longleftrightarrow> t = TagRemove \<and> some_old bs"
  by (induction bs; auto simp: emitted_def some_new_def some_old_def split: if_splits)+

lemma emitted_stay:
  assumes "change_tag_of c = TagEdit \<or> change_tag_of c = TagChild"
  shows "emitted c bs (change_tag_of c) \<longleftrightarrow> list_ex (\<lambda>(old, new, cs). old \<and> new) bs"
    "some_new bs \<longleftrightarrow> emitted c bs (change_tag_of c) \<or> emitted c bs TagAdd"
    "some_old bs \<longleftrightarrow> emitted c bs (change_tag_of c) \<or> emitted c bs TagRemove"
    "emitted c bs t \<Longrightarrow> t \<in> {TagAdd, TagRemove, change_tag_of c}"
  using assms
  by (induction bs; auto simp: emitted_def some_new_def some_old_def split: if_splits)+

lemma nothing_emitted:
  assumes "all_emit c bs" "concat (map (snd \<circ> snd) bs) = []"
  shows "\<not> emitted c bs t"
  using take_emitted [OF assms(1), of t] assms(2) by (simp add: take_tag_def split: option.splits)

lemma candidate_tags:
  "all_emit c bs \<Longrightarrow> set (map fst (candidates [] (concat (map (snd \<circ> snd) bs)))) \<subseteq> {t. emitted c bs t}"
  using tags_candidates [of "[]" "concat (map (snd \<circ> snd) bs)"] tags_emitted [of c bs]
  by (simp only: list.map(1) list.set(1) Un_empty_left image_subset_iff mem_Collect_eq ball_simps) blast

text \<open>The changes of one kind only: adds and removes.\<close>

lemma collapse_one_kind:
  assumes e: "all_emit c bs" and u: "change_tag_of c = u" "u = TagAdd \<or> u = TagRemove" "\<And>t. emitted c bs t \<Longrightarrow> t = u"
  shows "\<exists>out. push_accumulated_changes (concat (map (snd \<circ> snd) bs)) u = Some out \<and>
    (if emitted c bs u then \<exists>d. out = [d] \<and> change_tag_of d = u \<and> same_rows c d else out = [])"
proof (cases "concat (map (snd \<circ> snd) bs) = []")
  case True
  then show ?thesis using nothing_emitted [OF e True] by (simp add: push_accumulated_changes_def)
next
  case False
  then have "hd (concat (map (snd \<circ> snd) bs)) \<in> set (concat (map (snd \<circ> snd) bs))" by (rule list.set_sel(1))
  then have "emitted c bs u" using tags_emitted [OF e] u(3) by metis
  moreover have "map fst (candidates [] (concat (map (snd \<circ> snd) bs))) = [u]"
    using single_tag [OF False] tags_emitted [OF e] u(3) by blast
  ultimately show ?thesis
    using u(2) take_emitted [OF e, of u] False
    by (auto simp: push_accumulated_changes_def opt_list_def Let_def simp del: concat_eq_Nil_conv split: option.splits)
qed

lemma collapse_edit:
  assumes e: "all_emit (Edit n p) bs"
  shows "\<exists>out. push_accumulated_changes (concat (map (snd \<circ> snd) bs)) TagEdit = Some out \<and>
    emits (Edit n p) (some_old bs) (some_new bs) out"
proof -
  let ?acc = "concat (map (snd \<circ> snd) bs)"
  let ?t = "take_tag (candidates [] ?acc)"
  note T = take_emitted [OF e]
  note st = emitted_stay(2,3) [of "Edit n p" bs, simplified]
  have ok: "list_all (\<lambda>t. t \<in> {TagAdd, TagRemove, TagEdit}) (map fst (candidates [] ?acc))"
    using candidate_tags [OF e] emitted_stay(4) [of "Edit n p" bs] by (force simp: list_all_iff)
  show ?thesis
  proof (cases "?acc = []")
    case True
    then show ?thesis using nothing_emitted [OF e True] st by (simp add: push_accumulated_changes_def emits_simps)
  next
    case False
    then have r: "push_accumulated_changes ?acc TagEdit = Some (case ?t TagEdit of Some edit \<Rightarrow> [edit]
        | None \<Rightarrow> (case (?t TagAdd, ?t TagRemove) of (Some a, Some r) \<Rightarrow> [Edit (primary_node a) (primary_node r)]
          | (a, r) \<Rightarrow> opt_list (or_else a r)))"
      using ok by (simp only: push_accumulated_changes_def Let_def if_False change_tag.case assert_ok_simps bind.bind_lunit)
    show ?thesis
      unfolding r using T [of TagAdd] T [of TagRemove] T [of TagEdit] st
      by (cases "?t TagEdit"; cases "?t TagAdd"; cases "?t TagRemove")
        (simp_all add: emits_simps opt_list_def or_else_def tag_iff new_row_def, (elim conjE exE; simp add: new_row_def)+)
  qed
qed

lemma collapse_child:
  assumes e: "all_emit (Child n ch) bs" and sw: "\<not> swapped (Child n ch) bs"
  shows "\<exists>out. push_accumulated_changes (concat (map (snd \<circ> snd) bs)) TagChild = Some out \<and>
    emits (Child n ch) (some_old bs) (some_new bs) out"
proof -
  let ?acc = "concat (map (snd \<circ> snd) bs)"
  let ?t = "take_tag (candidates [] ?acc)"
  note T = take_emitted [OF e]
  note st = emitted_stay(1-3) [of "Child n ch" bs, simplified]
  have ok: "list_all (\<lambda>t. t \<in> {TagAdd, TagRemove, TagChild}) (map fst (candidates [] ?acc))"
    using candidate_tags [OF e] emitted_stay(4) [of "Child n ch" bs] by (force simp: list_all_iff)
  show ?thesis
  proof (cases "?acc = []")
    case True
    then show ?thesis using nothing_emitted [OF e True] st by (simp add: push_accumulated_changes_def emits_simps)
  next
    case False
    then have r: "push_accumulated_changes ?acc TagChild = Some (case ?t TagChild of Some child \<Rightarrow> [child]
        | None \<Rightarrow> opt_list (or_else (?t TagAdd) (?t TagRemove)))"
      using ok by (simp only: push_accumulated_changes_def Let_def if_False change_tag.case assert_ok_simps bind.bind_lunit)
    show ?thesis
      unfolding r using T [of TagAdd] T [of TagRemove] T [of TagChild] st sw
      by (cases "?t TagChild"; cases "?t TagAdd"; cases "?t TagRemove")
        (simp_all add: emits_simps swapped_def opt_list_def or_else_def tag_iff new_row_def, (elim conjE exE; simp add: new_row_def)+)
  qed
qed

lemma collapse_emits:
  assumes e: "all_emit c bs" and sw: "\<not> swapped c bs"
  shows "\<exists>out. push_accumulated_changes (concat (map (snd \<circ> snd) bs)) (change_tag_of c) = Some out \<and>
    emits c (some_old bs) (some_new bs) out"
proof (cases c)
  case (Add n)
  then show ?thesis
    using collapse_one_kind [OF e, of TagAdd] by (force simp: emitted_simps emits_simps tag_iff new_row_def split: if_splits)
next
  case (Remove n)
  then show ?thesis
    using collapse_one_kind [OF e, of TagRemove] by (force simp: emitted_simps emits_simps tag_iff split: if_splits)
next
  case (Edit n p)
  then show ?thesis using collapse_edit e by simp
next
  case (Child n ch)
  then show ?thesis using collapse_child e sw by simp
qed


section \<open>The merged push maintains the union of the branches\<close>

lemma broadcast_eq:
  "map_opt (\<lambda>b. b c) outputs = Some css \<Longrightarrow>
   broadcast outputs c f = Some (f\<lparr>accumulated := accumulated f @ concat css\<rparr>)"
proof (induction outputs arbitrary: css f)
  case (Cons b bs)
  have fold: "fold fan_in_push cs f = f\<lparr>accumulated := accumulated f @ cs\<rparr>" for cs f
    by (induction cs arbitrary: f) (simp_all add: fan_in_push_def)
  from Cons show ?case by (auto simp: option_mono fold)
qed simp

text \<open>
  A branch as its contract sees it: what it shows of the input before and after, and what it pushes.
\<close>

type_synonym branch_view = "(row \<Rightarrow> bool) \<times> (row \<Rightarrow> bool) \<times> branch"

definition branch_ok :: "change \<Rightarrow> row set \<Rightarrow> row set \<Rightarrow> branch_view \<Rightarrow> bool" where
  "branch_ok c S S' b \<longleftrightarrow>
     (case b of (P, P', push) \<Rightarrow>
        (\<exists>cs. push c = Some cs \<and> emits c (old_row c \<in> S \<and> P (old_row c)) (new_row c \<in> S' \<and> P' (new_row c)) cs) \<and>
        (\<forall>r \<in> S \<inter> S'. r \<noteq> new_row c \<longrightarrow> P' r = P r))"

definition branch_trace :: "change \<Rightarrow> row set \<Rightarrow> row set \<Rightarrow> branch_view \<Rightarrow> bool \<times> bool \<times> change list" where
  "branch_trace c S S' b =
     (case b of (P, P', push) \<Rightarrow> (old_row c \<in> S \<and> P (old_row c), new_row c \<in> S' \<and> P' (new_row c), the (push c)))"

lemma branch_trace_ok:
  assumes "branch_ok c S S' b"
  shows "emits c (fst (branch_trace c S S' b)) (fst (snd (branch_trace c S S' b))) (snd (snd (branch_trace c S S' b)))"
    "snd (snd b) c = Some (snd (snd (branch_trace c S S' b)))"
    "r \<in> S \<Longrightarrow> r \<in> S' \<Longrightarrow> r \<noteq> new_row c \<Longrightarrow> fst (snd b) r = fst b r"
  using assms by (cases b; auto simp: branch_ok_def branch_trace_def)+

lemma branch_traces_ok:
  assumes "\<And>b. b \<in> set bs \<Longrightarrow> branch_ok c S S' b"
  shows "all_emit c (map (branch_trace c S S') bs)"
    and "map_opt (\<lambda>b. b c) (map (snd \<circ> snd) bs) = Some (map (snd \<circ> snd) (map (branch_trace c S S') bs))"
proof -
  show "all_emit c (map (branch_trace c S S') bs)"
    using branch_trace_ok(1) [OF assms] by (auto simp: all_emit_def list_all_iff split_def)
  have "map_opt (\<lambda>b. snd (snd b) c) bs = Some (map (\<lambda>b. snd (snd (branch_trace c S S' b))) bs)"
    using branch_trace_ok(2) [OF assms] by (intro map_opt_all_Some) blast
  moreover have "map_opt (\<lambda>b. b c) (map (snd \<circ> snd) bs) = map_opt (\<lambda>b. snd (snd b) c) bs"
    by (induction bs) simp_all
  ultimately show "map_opt (\<lambda>b. b c) (map (snd \<circ> snd) bs) = Some (map (snd \<circ> snd) (map (branch_trace c S S') bs))"
    by (simp add: comp_def)
qed

lemma branch_traces_shown:
  "some_old (map (branch_trace c S S') bs) \<longleftrightarrow> old_row c \<in> S \<and> (\<exists>b\<in>set bs. fst b (old_row c))"
  "some_new (map (branch_trace c S S') bs) \<longleftrightarrow> new_row c \<in> S' \<and> (\<exists>b\<in>set bs. fst (snd b) (new_row c))"
  by (induction bs) (auto simp: some_old_def some_new_def branch_trace_def split: prod.splits)

lemma fan_out_push_ok:
  assumes L: "view_ok \<tau> order L" and c: "apply_change \<tau> order c L = Some L'"
    and bs: "\<And>b. b \<in> set bs \<Longrightarrow> branch_ok c (set L) (set L') b"
    and f: "accumulated f = []" "fi_inputs f \<noteq> []"
    and sw: "\<not> swapped c (map (branch_trace c (set L) (set L')) bs)"
  shows "\<exists>cs. fan_out_push (map (snd \<circ> snd) bs) True c f = Some (f, cs) \<and> length cs \<le> 1 \<and>
    apply_changes \<tau> order cs (filter (\<lambda>r. \<exists>b\<in>set bs. fst b r) L) = Some (filter (\<lambda>r. \<exists>b\<in>set bs. fst (snd b) r) L')"
proof -
  let ?tr = "map (branch_trace c (set L) (set L')) bs"
  let ?P = "\<lambda>r. \<exists>b\<in>set bs. fst b r" and ?P' = "\<lambda>r. \<exists>b\<in>set bs. fst (snd b) r"
  have S: "change_set c (set L) = Some (set L')" and L': "view_ok \<tau> order L'"
    using c L by (simp_all add: apply_change_iff)
  note tr = branch_traces_ok [OF bs]
  obtain out where out: "push_accumulated_changes (concat (map (snd \<circ> snd) ?tr)) (change_tag_of c) = Some out"
    "emits c (some_old ?tr) (some_new ?tr) out"
    using collapse_emits [OF tr(1) sw] by blast
  have "?P' r = ?P r" if "r \<in> set L" "r \<in> set L'" "r \<noteq> new_row c" for r
    using branch_trace_ok(3) [OF bs that] by blast
  then have "(out = [] \<and> {r \<in> set L. ?P r} = {r \<in> set L'. ?P' r}) \<or>
      (\<exists>d. out = [d] \<and> change_set d {r \<in> set L. ?P r} = Some {r \<in> set L'. ?P' r})"
    using emits_legal [OF S, of ?P ?P' out] out(2) branch_traces_shown [of c "set L" "set L'" bs] by simp
  then have "length out \<le> 1" "apply_changes \<tau> order out (filter ?P L) = Some (filter ?P' L')"
    using view_ok_unique [OF view_ok_filter [OF L, of ?P] view_ok_filter [OF L', of ?P']]
      apply_change_intro [OF view_ok_filter [OF L, of ?P] view_ok_filter [OF L', of ?P']] by auto
  then show ?thesis
    using broadcast_eq [OF tr(2), where f = f] out(1) f
    by (simp add: fan_out_push_def fan_out_done_pushing_to_all_branches_def Let_def)
qed

text \<open>Branches that are filters of the input.\<close>

definition filter_branch :: "(row \<Rightarrow> bool) \<Rightarrow> branch_view" where
  "filter_branch q = (q, q, graph_filter_push (\<lambda>r. Some (q r)))"

lemma filter_branch_ok:
  assumes "change_set c S = Some S'"
  shows "branch_ok c S S' (filter_branch q)"
proof -
  note R = change_set_rows [OF assms]
  have "emits c (old_row c \<in> S \<and> q (old_row c)) (new_row c \<in> S' \<and> q (new_row c)) cs \<longleftrightarrow>
      emits c (q (old_row c)) (q (new_row c)) cs" for cs
    using R by (cases c) (auto simp: emits_simps new_row_def)
  then show ?thesis using filter_emits [of q c] by (auto simp: branch_ok_def filter_branch_def)
qed

lemma filter_branches_not_swapped:
  assumes "change_set c S = Some S'"
  shows "\<not> swapped c (map (branch_trace c S S') (map filter_branch qs))"
proof (cases c)
  case (Child n ch)
  have "node_row n \<in> S" "S' = S" using assms Child by (auto split: if_splits)
  then have t: "branch_trace c S S' (filter_branch q) = (q (node_row n), q (node_row n), the (graph_filter_push (\<lambda>r. Some (q r)) c))" for q
    using Child by (simp add: branch_trace_def filter_branch_def new_row_def)
  show ?thesis
    unfolding swapped_def some_old_def by (auto simp: list_ex_iff t)
qed (simp_all add: swapped_def)

section \<open>Properties\<close>

text \<open>
  C10. An \<open>OR\<close> of filters maintains its view: \<open>FanOut::push\<close> broadcasts a legal change to the
  branches, \<open>FanIn\<close> collapses what they push to at most one change, and that change turns the rows
  shown by some branch before into the rows shown by some branch after. \<open>FanIn\<close> is left with
  nothing accumulated.
\<close>

theorem fan_in_maintains_union:
  assumes "view_ok \<tau> order L" "apply_change \<tau> order c L = Some L'"
    and "accumulated f = []" "fi_inputs f \<noteq> []"
  shows "\<exists>cs. fan_out_push (map (\<lambda>q. graph_filter_push (\<lambda>r. Some (q r))) qs) True c f = Some (f, cs) \<and>
    length cs \<le> 1 \<and>
    apply_changes \<tau> order cs (filter (\<lambda>r. \<exists>q\<in>set qs. q r) L) = Some (filter (\<lambda>r. \<exists>q\<in>set qs. q r) L')"
proof -
  have S: "change_set c (set L) = Some (set L')" using apply_change_set assms(1,2) by blast
  have "branch_ok c (set L) (set L') b" if "b \<in> set (map filter_branch qs)" for b
    using filter_branch_ok [OF S] that by auto
  from fan_out_push_ok [OF assms(1,2) this assms(3,4) filter_branches_not_swapped [OF S]]
  show ?thesis by (simp add: filter_branch_def comp_def)
qed

theorem fan_in_maintains_union_witness:
  "\<exists>cs. fan_out_push (map (\<lambda>q. graph_filter_push (\<lambda>r. Some (q r)))
        [\<lambda>r. get r ''a'' = JNumber (F_Fin 1), \<lambda>r. get r ''a'' = JNumber (F_Fin 2)]) True
      (Edit (node_new (sample_row 2 3)) (node_new (sample_row 1 3)))
      (fan_in_new (SourceSchema ''t'' [''id''] sample_order []) [input_of sample_order (\<lambda>_. []) sample_table]) =
      Some (fan_in_new (SourceSchema ''t'' [''id''] sample_order []) [input_of sample_order (\<lambda>_. []) sample_table], cs) \<and>
    length cs \<le> 1"
proof -
  let ?f = "fan_in_new (SourceSchema ''t'' [''id''] sample_order []) [input_of sample_order (\<lambda>_. []) sample_table]"
  have "view_ok sample_types sample_order sample_table"
    "apply_change sample_types sample_order (Edit (node_new (sample_row 2 3)) (node_new (sample_row 1 3))) sample_table =
      Some [sample_row 1 1, sample_row 1 2, sample_row 2 3, sample_row 2 4]" by code_simp+
  from fan_in_maintains_union [OF this, of ?f "[\<lambda>r. get r ''a'' = JNumber (F_Fin 1), \<lambda>r. get r ''a'' = JNumber (F_Fin 2)]"]
  show ?thesis by (auto simp: fan_in_new_def)
qed

text \<open>
  C11. Fetching through an \<open>OR\<close>: \<open>FanIn::fetch\<close> over branches that show parts of one view returns,
  for every request, each row shown by some branch once and in order, with the relationships the
  first such branch attaches to it.
\<close>

theorem fan_in_fetch_union:
  assumes "view_ok \<tau> order L" "schema_sort (fi_schema f) = order"
    and "fi_inputs f = map (\<lambda>(q, rel). input_of order rel (filter q L)) bs"
  shows "fan_in_fetch f req = input_of order (branch_rel bs) (filter (\<lambda>r. \<exists>b\<in>set bs. fst b r) L) req"
  using assms by (rule fan_in_fetch_merge)

theorem fan_in_fetch_union_witness:
  "fan_in_fetch (fan_in_new (SourceSchema ''t'' [''id''] sample_order [])
      [input_of sample_order (\<lambda>_. [(''x'', [])]) (filter (\<lambda>r. get r ''a'' = JNumber (F_Fin 1)) sample_table),
       input_of sample_order (\<lambda>_. []) (filter (\<lambda>r. True) sample_table)]) (default_request\<lparr>req_reverse := True\<rparr>) =
    Some [Node (sample_row 2 4) [], Node (sample_row 1 3) [(''x'', [])], Node (sample_row 1 2) [(''x'', [])],
      Node (sample_row 1 1) [(''x'', [])]]"
proof -
  let ?bs = "[(\<lambda>r. get r ''a'' = JNumber (F_Fin 1), \<lambda>_. [(''x'', [])]), (\<lambda>r. True, \<lambda>_. [])]"
  have "view_ok sample_types sample_order sample_table" by code_simp
  then show ?thesis
    by (subst fan_in_fetch_union [where bs = ?bs]) (simp_all add: fan_in_new_def, code_simp)
qed

text \<open>
  A change that reaches \<open>FanIn\<close> from inside a branch, as a child change of a join built in an
  arm of an \<open>OR\<close> does, is not forwarded: it stays accumulated, and the next added row that some
  branch shows trips the assertion that an add yields only adds.
\<close>

theorem fan_in_keeps_inner_push:
  assumes "accumulated f = []" "fi_inputs f \<noteq> []" "q (node_row n)"
  shows "accumulated (fan_in_push (Child m d) f) = [Child m d] \<and>
    fan_out_push [graph_filter_push (\<lambda>r. Some (q r))] True (Add n) (fan_in_push (Child m d) f) = None"
  using assms
  by (simp add: fan_in_push_def fan_out_push_def graph_filter_push_def fan_out_done_pushing_to_all_branches_def
      push_accumulated_changes_def)

theorem fan_in_keeps_inner_push_witness:
  "fan_out_push [graph_filter_push (\<lambda>r. Some True)] True (Add (node_new (sample_row 1 1)))
     (fan_in_push (Child (node_new (sample_row 2 4)) (ChildData ''kids'' (Add (node_new []))))
       (fan_in_new (SourceSchema ''t'' [''id''] sample_order []) [\<lambda>_. Some []])) = None"
  using fan_in_keeps_inner_push [of "fan_in_new (SourceSchema ''t'' [''id''] sample_order []) [\<lambda>_. Some []]" "\<lambda>_. True"
      "node_new (sample_row 1 1)" "node_new (sample_row 2 4)" "ChildData ''kids'' (Add (node_new []))"]
  by (simp add: fan_in_new_def)

end
