(* ===== verification/Json_Parse.thy ===== *)
theory Json_Parse
  imports Json_Text
begin

text \<open>
  The parser of \<open>zero-cache-shared/src/bigint_json.rs\<close>. The input is the rest of the text that is
  still to be read, so that \<open>peek\<close> is its first byte. All syntax is ASCII, so reading bytes and
  reading characters is the same; an error is its kind, without the position and the text of the
  message. Rust's parsers of \<open>f64\<close> and of \<open>BigInt\<close> are the parameters \<open>pf\<close> and \<open>pb\<close>. The
  recursive functions take fuel; \<open>parse\<close> gives them enough for every text.
\<close>

section \<open>Rendering of large and fractional numbers\<close>

text \<open>
  The reshaping in \<open>format_number\<close>: \<open>sci\<close> is Rust's \<open>{:e}\<close> as mantissa and exponent, \<open>plain\<close> its \<open>{}\<close>.
  It instantiates the parameter \<open>fmt\<close> of the writer.
\<close>

definition js_number :: "(rat \<Rightarrow> string \<times> int) \<Rightarrow> (rat \<Rightarrow> string) \<Rightarrow> rat \<Rightarrow> string" where
  "js_number sci plain q =
     (let (mantissa, e) = sci q in
      if e \<ge> 21 \<or> e \<le> -7 then mantissa @ ''e'' @ (if e \<ge> 0 then ''+'' else ''-'') @ int_to_string \<bar>e\<bar>
      else plain q)"

section \<open>Tokens\<close>

datatype parse_error =
    UnexpectedToken
  | Expected char
  | ExpectedCommaOrClose
  | UnterminatedString
  | UnterminatedUnicodeEscape
  | InvalidHexDigit
  | InvalidEscape
  | InvalidLiteral
  | InvalidNumber
  | TrailingInput

definition is_ws :: "char \<Rightarrow> bool" where
  "is_ws c = (c = CHR '' '' \<or> c = CHR 0x09 \<or> c = CHR 0x0A \<or> c = CHR 0x0D)"

definition skip_ws :: "string \<Rightarrow> string" where
  "skip_ws s = dropWhile is_ws s"

fun expect :: "char \<Rightarrow> string \<Rightarrow> parse_error + string" where
  "expect c (d # s) = (if c = d then Inr s else Inl (Expected c))"
| "expect c [] = Inl (Expected c)"

text \<open>The test \<open>peek() == Some(c)\<close> with the step past the character.\<close>

fun eat :: "char \<Rightarrow> string \<Rightarrow> string option" where
  "eat c (d # s) = (if c = d then Some s else None)"
| "eat c [] = None"

text \<open>The UTF-8 bytes of a code below \<open>0x10000\<close>; a surrogate is not a character and becomes \<open>U+FFFD\<close>.\<close>

definition utf8 :: "nat \<Rightarrow> string" where
  "utf8 code =
     (if code < 128 then [char_of code]
      else if code < 2048 then [char_of (192 + code div 64), char_of (128 + code mod 64)]
      else [char_of (224 + code div 4096), char_of (128 + code div 64 mod 64), char_of (128 + code mod 64)])"

definition push_code :: "nat \<Rightarrow> string" where
  "push_code code = utf8 (if 55296 \<le> code \<and> code < 57344 then 65533 else code)"

fun hex4 :: "nat \<Rightarrow> nat \<Rightarrow> string \<Rightarrow> parse_error + nat \<times> string" where
  "hex4 0 code s = Inr (code, s)"
| "hex4 (Suc k) code [] = Inl UnterminatedUnicodeEscape"
| "hex4 (Suc k) code (c # s) =
     (case to_digit 16 c of None \<Rightarrow> Inl InvalidHexDigit | Some d \<Rightarrow> hex4 k (code * 16 + d) s)"

definition simple_escape :: "char \<Rightarrow> char option" where
  "simple_escape c =
     (if c = CHR 0x22 then Some (CHR 0x22)
      else if c = CHR 0x5C then Some (CHR 0x5C)
      else if c = CHR ''/'' then Some (CHR ''/'')
      else if c = CHR ''b'' then Some (CHR 0x08)
      else if c = CHR ''f'' then Some (CHR 0x0C)
      else if c = CHR ''n'' then Some (CHR 0x0A)
      else if c = CHR ''r'' then Some (CHR 0x0D)
      else if c = CHR ''t'' then Some (CHR 0x09)
      else None)"

text \<open>One step of the loop in \<open>parse_string\<close>: the bytes it appends, or the end of the string.\<close>

definition string_step :: "char \<Rightarrow> string \<Rightarrow> parse_error + string option \<times> string" where
  "string_step c s =
     (if c = CHR 0x22 then Inr (None, s)
      else if c = CHR 0x5C then
        (case s of
           [] \<Rightarrow> Inl InvalidEscape
         | d # t \<Rightarrow>
             (case simple_escape d of
                Some e \<Rightarrow> Inr (Some [e], t)
              | None \<Rightarrow>
                  if d = CHR ''u''
                  then (case hex4 4 0 t of Inl e \<Rightarrow> Inl e | Inr (code, t) \<Rightarrow> Inr (Some (push_code code), t))
                  else Inl InvalidEscape))
      else Inr (Some [c], s))"

lemma hex4_length: "hex4 k code s = Inr (n, t) \<Longrightarrow> length t \<le> length s"
  by (induction k code s rule: hex4.induct) (auto split: option.splits)

lemma string_step_length: "string_step c s = Inr (out, t) \<Longrightarrow> length t \<le> length s"
  by (auto simp: string_step_def dest!: hex4_length split: if_splits list.splits option.splits sum.splits)

function string_body :: "string \<Rightarrow> string \<Rightarrow> parse_error + string \<times> string" where
  "string_body out [] = Inl UnterminatedString"
| "string_body out (c # s) =
     (case string_step c s of
        Inl e \<Rightarrow> Inl e
      | Inr (None, t) \<Rightarrow> Inr (out, t)
      | Inr (Some bytes, t) \<Rightarrow> string_body (out @ bytes) t)"
  by pat_completeness auto
termination
  by (relation "measure (length \<circ> snd)") (auto dest!: string_step_length)

definition parse_string :: "string \<Rightarrow> parse_error + string \<times> string" where
  "parse_string s = (case expect (CHR 0x22) s of Inl e \<Rightarrow> Inl e | Inr s \<Rightarrow> string_body [] s)"

definition matches :: "string \<Rightarrow> string \<Rightarrow> string option" where
  "matches word s = (if take (length word) s = word then Some (drop (length word) s) else None)"

definition parse_bool :: "string \<Rightarrow> parse_error + json \<times> string" where
  "parse_bool s =
     (case matches ''true'' s of
        Some t \<Rightarrow> Inr (JBool True, t)
      | None \<Rightarrow> (case matches ''false'' s of Some t \<Rightarrow> Inr (JBool False, t) | None \<Rightarrow> Inl InvalidLiteral))"

definition parse_null :: "string \<Rightarrow> parse_error + json \<times> string" where
  "parse_null s = (case matches ''null'' s of Some t \<Rightarrow> Inr (JNull, t) | None \<Rightarrow> Inl InvalidLiteral)"

definition is_digit :: "char \<Rightarrow> bool" where
  "is_digit c = (CHR ''0'' \<le> c \<and> c \<le> CHR ''9'')"

text \<open>The pieces of a number token: a sign, digits, a fraction and an exponent, each with what follows.\<close>

definition scan_sign :: "string \<Rightarrow> string \<times> string" where
  "scan_sign s = (case s of c # t \<Rightarrow> if c = CHR ''-'' then ([c], t) else ([], s) | [] \<Rightarrow> ([], s))"

definition scan_digits :: "string \<Rightarrow> string \<times> string" where
  "scan_digits s = (takeWhile is_digit s, dropWhile is_digit s)"

definition scan_fraction :: "string \<Rightarrow> string \<times> string" where
  "scan_fraction s =
     (case s of c # t \<Rightarrow> if c = CHR ''.'' then (let (ds, u) = scan_digits t in (c # ds, u)) else ([], s) | [] \<Rightarrow> ([], s))"

definition scan_exponent :: "string \<Rightarrow> string \<times> string" where
  "scan_exponent s =
     (case s of
        c # t \<Rightarrow>
          if c = CHR ''e'' \<or> c = CHR ''E''
          then let (sg, u) = (case t of d # u \<Rightarrow> if d = CHR ''+'' \<or> d = CHR ''-'' then ([d], u) else ([], t) | [] \<Rightarrow> ([], t));
                   (ds, w) = scan_digits u
               in (c # sg @ ds, w)
          else ([], s)
      | [] \<Rightarrow> ([], s))"

text \<open>The token, whether it has a fraction or an exponent, and the rest.\<close>

definition scan_number :: "string \<Rightarrow> string \<times> bool \<times> string" where
  "scan_number s =
     (let (sg, s1) = scan_sign s; (ds, s2) = scan_digits s1; (fr, s3) = scan_fraction s2; (ex, s4) = scan_exponent s3
      in (sg @ ds @ fr @ ex, fr \<noteq> [] \<or> ex \<noteq> [], s4))"

definition safe_number :: "f64 \<Rightarrow> bool" where
  "safe_number n = (case n of F_Fin q \<Rightarrow> - 9007199254740991 \<le> q \<and> q \<le> 9007199254740991 | _ \<Rightarrow> False)"

definition parse_number ::
  "(string \<Rightarrow> f64 option) \<Rightarrow> (string \<Rightarrow> int option) \<Rightarrow> string \<Rightarrow> parse_error + json \<times> string" where
  "parse_number pf pb s =
     (let (token, has_fraction_or_exp, t) = scan_number s in
      case pf token of
        None \<Rightarrow> Inl InvalidNumber
      | Some n \<Rightarrow>
          if safe_number n \<or> has_fraction_or_exp then Inr (JNumber n, t)
          else (case pb token of Some b \<Rightarrow> Inr (JBigInt b, t) | None \<Rightarrow> Inr (JNumber n, t)))"

section \<open>Values\<close>

text \<open>\<open>None\<close> is running out of fuel.\<close>

fun parse_value ::
    "(string \<Rightarrow> f64 option) \<Rightarrow> (string \<Rightarrow> int option) \<Rightarrow> nat \<Rightarrow> string \<Rightarrow> (parse_error + json \<times> string) option"
  and object_loop ::
    "(string \<Rightarrow> f64 option) \<Rightarrow> (string \<Rightarrow> int option) \<Rightarrow> nat \<Rightarrow> (string \<times> json) list \<Rightarrow> string \<Rightarrow> (parse_error + json \<times> string) option"
  and array_loop ::
    "(string \<Rightarrow> f64 option) \<Rightarrow> (string \<Rightarrow> int option) \<Rightarrow> nat \<Rightarrow> json list \<Rightarrow> string \<Rightarrow> (parse_error + json \<times> string) option" where
  "parse_value pf pb 0 s = None"
| "parse_value pf pb (Suc n) [] = Some (Inl UnexpectedToken)"
| "parse_value pf pb (Suc n) (c # s) =
     (if c = CHR ''{'' then
        (case eat (CHR ''}'') (skip_ws s) of
           Some t \<Rightarrow> Some (Inr (JObject [], t))
         | None \<Rightarrow> object_loop pf pb n [] (skip_ws s))
      else if c = CHR ''['' then
        (case eat (CHR '']'') (skip_ws s) of
           Some t \<Rightarrow> Some (Inr (JArray [], t))
         | None \<Rightarrow> array_loop pf pb n [] (skip_ws s))
      else if c = CHR 0x22 then
        Some (case parse_string (c # s) of Inl e \<Rightarrow> Inl e | Inr (str, t) \<Rightarrow> Inr (JString str, t))
      else if c = CHR ''t'' \<or> c = CHR ''f'' then Some (parse_bool (c # s))
      else if c = CHR ''n'' then Some (parse_null (c # s))
      else if c = CHR ''-'' \<or> is_digit c then Some (parse_number pf pb (c # s))
      else Some (Inl UnexpectedToken))"
| "object_loop pf pb 0 entries s = None"
| "object_loop pf pb (Suc n) entries s =
     (case parse_string (skip_ws s) of
        Inl e \<Rightarrow> Some (Inl e)
      | Inr (key, s1) \<Rightarrow>
          (case expect (CHR '':'') (skip_ws s1) of
             Inl e \<Rightarrow> Some (Inl e)
           | Inr s2 \<Rightarrow>
               (case parse_value pf pb n (skip_ws s2) of
                  None \<Rightarrow> None
                | Some (Inl e) \<Rightarrow> Some (Inl e)
                | Some (Inr (val, s3)) \<Rightarrow>
                    (case eat (CHR '','') (skip_ws s3) of
                       Some t \<Rightarrow> object_loop pf pb n (entries @ [(key, val)]) t
                     | None \<Rightarrow>
                         (case eat (CHR ''}'') (skip_ws s3) of
                            Some t \<Rightarrow> Some (Inr (JObject (entries @ [(key, val)]), t))
                          | None \<Rightarrow> Some (Inl ExpectedCommaOrClose))))))"
| "array_loop pf pb 0 items s = None"
| "array_loop pf pb (Suc n) items s =
     (case parse_value pf pb n (skip_ws s) of
        None \<Rightarrow> None
      | Some (Inl e) \<Rightarrow> Some (Inl e)
      | Some (Inr (val, s3)) \<Rightarrow>
          (case eat (CHR '','') (skip_ws s3) of
             Some t \<Rightarrow> array_loop pf pb n (items @ [val]) t
           | None \<Rightarrow>
               (case eat (CHR '']'') (skip_ws s3) of
                  Some t \<Rightarrow> Some (Inr (JArray (items @ [val]), t))
                | None \<Rightarrow> Some (Inl ExpectedCommaOrClose))))"

definition parse :: "(string \<Rightarrow> f64 option) \<Rightarrow> (string \<Rightarrow> int option) \<Rightarrow> string \<Rightarrow> (parse_error + json) option" where
  "parse pf pb s =
     (case parse_value pf pb (2 * length s + 1) (skip_ws s) of
        None \<Rightarrow> None
      | Some (Inl e) \<Rightarrow> Some (Inl e)
      | Some (Inr (v, t)) \<Rightarrow> Some (if skip_ws t = [] then Inr v else Inl TrailingInput))"


section \<open>Every text is parsed\<close>

lemma skip_ws_length: "length (skip_ws s) \<le> length s"
  by (simp add: skip_ws_def length_dropWhile_le)

lemma eat_length: "eat c s = Some t \<Longrightarrow> length t < length s"
  by (cases s) (auto split: if_splits)

lemma expect_length: "expect c s = Inr t \<Longrightarrow> length t < length s"
  by (cases s) (auto split: if_splits)

lemma string_body_length: "string_body out s = Inr (r, t) \<Longrightarrow> length t \<le> length s"
proof (induction out s rule: string_body.induct)
  case (2 out c s)
  obtain bytes u where st: "string_step c s = Inr (bytes, u)" using 2(2) by (auto split: sum.splits)
  have u: "length u \<le> length s" by (rule string_step_length [OF st])
  show ?case
  proof (cases bytes)
    case None
    then show ?thesis using st 2(2) u by simp
  next
    case (Some b)
    then have "string_body (out @ b) u = Inr (r, t)" using st 2(2) by simp
    then have "length t \<le> length u" using 2(1) st Some by blast
    then show ?thesis using u by simp
  qed
qed simp

lemma parse_string_length: "parse_string s = Inr (r, t) \<Longrightarrow> length t < length s"
  by (auto simp: parse_string_def split: sum.splits dest!: expect_length string_body_length)

lemma matches_length: "matches w s = Some t \<Longrightarrow> w \<noteq> [] \<Longrightarrow> s \<noteq> [] \<Longrightarrow> length t < length s"
  by (cases w; cases s) (auto simp: matches_def split: if_splits)

lemma word_lengths:
  "s \<noteq> [] \<Longrightarrow> parse_bool s = Inr (v, t) \<Longrightarrow> length t < length s"
  "s \<noteq> [] \<Longrightarrow> parse_null s = Inr (v, t) \<Longrightarrow> length t < length s"
  by (auto simp: parse_bool_def parse_null_def split: option.splits intro: matches_length)

lemma scan_lengths:
  "scan_sign s = (x, t) \<Longrightarrow> length t \<le> length s" "scan_digits s = (x, t) \<Longrightarrow> length t \<le> length s"
  "scan_fraction s = (x, t) \<Longrightarrow> length t \<le> length s" "scan_exponent s = (x, t) \<Longrightarrow> length t \<le> length s"
  by (auto simp: scan_sign_def scan_digits_def scan_fraction_def scan_exponent_def Let_def
      intro: le_trans [OF length_dropWhile_le] split: list.splits if_splits)

lemma scan_number_length:
  assumes "c = CHR ''-'' \<or> is_digit c" "scan_number (c # s) = (tok, b, t)"
  shows "length t < length (c # s)"
proof -
  obtain sg s1 where 1: "scan_sign (c # s) = (sg, s1)" by fastforce
  obtain ds s2 where 2: "scan_digits s1 = (ds, s2)" by fastforce
  obtain fr s3 where 3: "scan_fraction s2 = (fr, s3)" by fastforce
  obtain ex s4 where 4: "scan_exponent s3 = (ex, s4)" by fastforce
  have "t = s4" using assms(2) 1 2 3 4 by (simp add: scan_number_def Let_def)
  moreover have "length s2 < length (c # s)"
    using 1 2 assms(1) scan_lengths(2) [OF 2] length_dropWhile_le [of is_digit s]
    by (auto simp: scan_sign_def scan_digits_def split: if_splits)
  ultimately show ?thesis using scan_lengths(3) [OF 3] scan_lengths(4) [OF 4] by simp
qed

lemma parse_number_length:
  "c = CHR ''-'' \<or> is_digit c \<Longrightarrow> parse_number pf pb (c # s) = Inr (v, t) \<Longrightarrow> length t < length (c # s)"
  using scan_number_length [of c s] by (auto simp: parse_number_def Let_def split: prod.splits option.splits if_splits)

definition consumes :: "string \<Rightarrow> (parse_error + json \<times> string) option \<Rightarrow> bool" where
  "consumes s r \<longleftrightarrow> (case r of None \<Rightarrow> False | Some (Inl _) \<Rightarrow> True | Some (Inr (_, t)) \<Rightarrow> length t < length s)"

lemma consumes_simps [simp]:
  "\<not> consumes s None" "consumes s (Some (Inl e))" "consumes s (Some (Inr (v, t))) \<longleftrightarrow> length t < length s"
  by (simp_all add: consumes_def)

lemma consumes_mono: "consumes s r \<Longrightarrow> length s \<le> length s' \<Longrightarrow> consumes s' r"
  by (auto simp: consumes_def split: option.splits sum.splits)

lemma consumes_cases:
  assumes "consumes s r"
  obtains e where "r = Some (Inl e)" | v t where "r = Some (Inr (v, t))" "length t < length s"
  using assms by (cases r; cases "the r") (auto simp: consumes_def)

lemma consumes_if: "(P \<Longrightarrow> consumes s a) \<Longrightarrow> (\<not> P \<Longrightarrow> consumes s b) \<Longrightarrow> consumes s (if P then a else b)"
  by simp

lemma parse_value_consumes_step:
  assumes "\<And>es t. length t \<le> length s \<Longrightarrow> consumes t (object_loop pf pb n es t)"
    "\<And>xs t. length t \<le> length s \<Longrightarrow> consumes t (array_loop pf pb n xs t)"
  shows "consumes (c # s) (parse_value pf pb (Suc n) (c # s))"
proof -
  have ws: "length (skip_ws s) \<le> length s" by (rule skip_ws_length)
  have "consumes (c # s) (object_loop pf pb n [] (skip_ws s))" "consumes (c # s) (array_loop pf pb n [] (skip_ws s))"
    using consumes_mono [OF assms(1) [OF ws]] consumes_mono [OF assms(2) [OF ws]] ws by simp_all
  note loops = this
  have O: "consumes (c # s) (case eat (CHR ''}'') (skip_ws s) of Some t \<Rightarrow> Some (Inr (JObject [], t)) | None \<Rightarrow> object_loop pf pb n [] (skip_ws s))"
    using loops(1) eat_length [of "CHR ''}''" "skip_ws s"] ws by (cases "eat (CHR ''}'') (skip_ws s)") auto
  have A: "consumes (c # s) (case eat (CHR '']'') (skip_ws s) of Some t \<Rightarrow> Some (Inr (JArray [], t)) | None \<Rightarrow> array_loop pf pb n [] (skip_ws s))"
    using loops(2) eat_length [of "CHR '']''" "skip_ws s"] ws by (cases "eat (CHR '']'') (skip_ws s)") auto
  have S: "consumes (c # s) (Some (case parse_string (c # s) of Inl e \<Rightarrow> Inl e | Inr (str, t) \<Rightarrow> Inr (JString str, t)))"
    using parse_string_length [of "c # s"] by (cases "parse_string (c # s)") auto
  have B: "consumes (c # s) (Some (parse_bool (c # s)))" using word_lengths(1) [of "c # s"] by (cases "parse_bool (c # s)") auto
  have N: "consumes (c # s) (Some (parse_null (c # s)))" using word_lengths(2) [of "c # s"] by (cases "parse_null (c # s)") auto
  have U: "c = CHR ''-'' \<or> is_digit c \<Longrightarrow> consumes (c # s) (Some (parse_number pf pb (c # s)))"
    using parse_number_length [of c pf pb s] by (cases "parse_number pf pb (c # s)") auto
  show ?thesis unfolding parse_value.simps(3)
    by (intro consumes_if O A S B N U consumes_simps(2))
qed


lemma object_loop_consumes_step:
  assumes V: "\<And>t. length t \<le> length s \<Longrightarrow> consumes t (parse_value pf pb n t)"
    and L: "\<And>es t. length t < length s \<Longrightarrow> consumes t (object_loop pf pb n es t)"
  shows "consumes s (object_loop pf pb (Suc n) es s)"
proof (cases "parse_string (skip_ws s)")
  case key: (Inr a)
  obtain k s1 where a: "a = (k, s1)" by fastforce
  have s1: "length s1 < length s" using parse_string_length key a skip_ws_length [of s] by fastforce
  show ?thesis
  proof (cases "expect (CHR '':'') (skip_ws s1)")
    case (Inr s2)
    have s2: "length (skip_ws s2) \<le> length s"
      using expect_length [OF Inr] skip_ws_length [of s1] skip_ws_length [of s2] s1 by simp
    show ?thesis
    proof (rule consumes_cases [OF V [OF s2]])
      fix e assume "parse_value pf pb n (skip_ws s2) = Some (Inl e)"
      then show ?thesis using key a Inr by simp
    next
      fix v s3 assume v: "parse_value pf pb n (skip_ws s2) = Some (Inr (v, s3))" "length s3 < length (skip_ws s2)"
      have s3: "length (skip_ws s3) < length s" using v(2) s2 skip_ws_length [of s3] by simp
      have e: "length t < length s" if "eat d (skip_ws s3) = Some t" for d t using eat_length [OF that] s3 by simp
      have "consumes s (object_loop pf pb n es' t)" if "eat d (skip_ws s3) = Some t" for es' d t
        using consumes_mono [OF L [OF e [OF that]]] e [OF that] by simp
      then show ?thesis using key a Inr v(1) e
        by (cases "eat (CHR '','') (skip_ws s3)"; cases "eat (CHR ''}'') (skip_ws s3)") auto
    qed
  qed (use key a in simp)
qed simp

lemma array_loop_consumes_step:
  assumes V: "\<And>t. length t \<le> length s \<Longrightarrow> consumes t (parse_value pf pb n t)"
    and L: "\<And>xs t. length t < length s \<Longrightarrow> consumes t (array_loop pf pb n xs t)"
  shows "consumes s (array_loop pf pb (Suc n) xs s)"
proof (rule consumes_cases [OF V [OF skip_ws_length]])
  fix e assume "parse_value pf pb n (skip_ws s) = Some (Inl e)"
  then show ?thesis by simp
next
  fix v s3 assume v: "parse_value pf pb n (skip_ws s) = Some (Inr (v, s3))" "length s3 < length (skip_ws s)"
  have s3: "length (skip_ws s3) < length s" using v(2) skip_ws_length [of s] skip_ws_length [of s3] by simp
  have e: "length t < length s" if "eat d (skip_ws s3) = Some t" for d t using eat_length [OF that] s3 by simp
  have "consumes s (array_loop pf pb n xs' t)" if "eat d (skip_ws s3) = Some t" for xs' d t
    using consumes_mono [OF L [OF e [OF that]]] e [OF that] by simp
  then show ?thesis using v(1) e
    by (cases "eat (CHR '','') (skip_ws s3)"; cases "eat (CHR '']'') (skip_ws s3)") auto
qed

lemma parser_consumes:
  "(\<forall>s. 2 * length s + 1 \<le> n \<longrightarrow> consumes s (parse_value pf pb n s)) \<and>
   (\<forall>s es. 2 * length s + 2 \<le> n \<longrightarrow> consumes s (object_loop pf pb n es s)) \<and>
   (\<forall>s xs. 2 * length s + 2 \<le> n \<longrightarrow> consumes s (array_loop pf pb n xs s))"
proof (induction n)
  case (Suc n)
  have "consumes s (parse_value pf pb (Suc n) s)" if "2 * length s + 1 \<le> Suc n" for s
  proof (cases s)
    case (Cons c t)
    then show ?thesis using that Suc by (auto intro!: parse_value_consumes_step simp del: parse_value.simps)
  qed simp
  moreover have "consumes s (object_loop pf pb (Suc n) es s)" if "2 * length s + 2 \<le> Suc n" for s es
    using that Suc by (intro object_loop_consumes_step) auto
  moreover have "consumes s (array_loop pf pb (Suc n) xs s)" if "2 * length s + 2 \<le> Suc n" for s xs
    using that Suc by (intro array_loop_consumes_step) auto
  ultimately show ?case by blast
qed simp

section \<open>Reading back strings\<close>

lemma hex4_control:
  assumes "n < 256"
  shows "hex4 4 0 (CHR ''0'' # CHR ''0'' # digit_char (n div 16) # digit_char (n mod 16) # s) = Inr (n, s)"
proof -
  have "to_digit 16 (CHR ''0'') = Some 0" by code_simp
  moreover have "to_digit 16 (digit_char (n div 16)) = Some (n div 16)" "to_digit 16 (digit_char (n mod 16)) = Some (n mod 16)"
    using assms by (auto intro!: to_digit_char)
  moreover have "n div 16 * 16 + n mod 16 = n" by simp
  moreover have "(4 :: nat) = Suc (Suc (Suc (Suc 0)))" by simp
  ultimately show ?thesis by (simp only: hex4.simps option.case) simp
qed

lemma string_step_plain: "c \<noteq> CHR 0x22 \<Longrightarrow> c \<noteq> CHR 0x5C \<Longrightarrow> string_step c s = Inr (Some [c], s)"
  by (simp add: string_step_def)

lemma string_step_escape: "simple_escape d = Some e \<Longrightarrow> string_step (CHR 0x5C) (d # s) = Inr (Some [e], s)"
  by (simp add: string_step_def)

lemma string_step_control:
  assumes "(of_char c :: nat) < 32"
  shows "string_step (CHR 0x5C) (CHR ''u'' # CHR ''0'' # CHR ''0'' # digit_char (of_char c div 16) # digit_char (of_char c mod 16) # s) =
    Inr (Some [c], s)"
proof -
  have "simple_escape (CHR ''u'') = None" by code_simp
  moreover have "push_code (of_char c) = [c]" using assms by (simp add: push_code_def utf8_def)
  ultimately show ?thesis using hex4_control [of "of_char c" s] assms by (simp add: string_step_def)
qed

lemma string_body_escape: "string_body out (escape_char c @ s) = string_body (out @ [c]) s"
proof (cases "c \<in> {CHR 0x22, CHR 0x5C, CHR 0x08, CHR 0x0C, CHR 0x0A, CHR 0x0D, CHR 0x09}")
  case True
  then show ?thesis by (auto simp: escape_char_def string_step_escape simple_escape_def)
next
  case False
  then have e: "escape_char c = (if (of_char c :: nat) < 32
      then [CHR 0x5C, CHR ''u'', CHR ''0'', CHR ''0'', digit_char (of_char c div 16), digit_char (of_char c mod 16)] else [c])"
    by (simp add: escape_char_def)
  show ?thesis
  proof (cases "(of_char c :: nat) < 32")
    case True
    then show ?thesis unfolding e by (simp add: string_step_control)
  next
    case n: False
    then show ?thesis using False unfolding e by (simp add: string_step_plain)
  qed
qed

lemma string_body_write: "string_body out (concat (map escape_char str) @ CHR 0x22 # s) = Inr (out @ str, s)"
proof (induction str arbitrary: out)
  case Nil
  then show ?case by (simp add: string_step_def)
next
  case (Cons c str)
  then show ?case by (simp add: string_body_escape del: string_body.simps)
qed

lemma parse_write_string: "parse_string (write_json_string str @ s) = Inr (str, s)"
  by (simp add: parse_string_def write_json_string_def string_body_write del: string_body.simps)

section \<open>Reading back numbers\<close>

text \<open>What may follow a value: the end, or a character no number continues with.\<close>

definition stops :: "string \<Rightarrow> bool" where
  "stops s = (case s of [] \<Rightarrow> True | c # _ \<Rightarrow> c \<in> {CHR '','', CHR '']'', CHR ''}''})"

lemma scan_append:
  assumes "stops r"
  shows "scan_sign (s @ r) = (fst (scan_sign s), snd (scan_sign s) @ r)"
    "scan_digits (s @ r) = (fst (scan_digits s), snd (scan_digits s) @ r)"
    "scan_fraction (s @ r) = (fst (scan_fraction s), snd (scan_fraction s) @ r)"
    "scan_exponent (s @ r) = (fst (scan_exponent s), snd (scan_exponent s) @ r)"
proof -
  have r: "takeWhile is_digit r = []" "dropWhile is_digit r = r" "r = [] \<or> hd r \<in> {CHR '','', CHR '']'', CHR ''}''}"
    using assms by (cases r; auto simp: stops_def is_digit_def)+
  show 2: "scan_digits (s @ r) = (fst (scan_digits s), snd (scan_digits s) @ r)" for s
    using r by (cases "\<forall>x\<in>set s. is_digit x") (auto simp: scan_digits_def takeWhile_append dropWhile_append takeWhile_eq_all_conv [THEN iffD2])
  show "scan_sign (s @ r) = (fst (scan_sign s), snd (scan_sign s) @ r)"
    using r(3) by (cases s; cases r) (auto simp: scan_sign_def)
  show "scan_fraction (s @ r) = (fst (scan_fraction s), snd (scan_fraction s) @ r)"
    using r(3) 2 [of "tl s"] by (cases s; cases r) (auto simp: scan_fraction_def split_beta)
  show "scan_exponent (s @ r) = (fst (scan_exponent s), snd (scan_exponent s) @ r)"
  proof (cases s)
    case Nil
    then show ?thesis using r(3) by (cases r) (auto simp: scan_exponent_def)
  next
    case (Cons c t)
    show ?thesis
    proof (cases t)
      case Nil
      then show ?thesis using Cons r(3) 2 [of "[]"] by (cases r) (auto simp: scan_exponent_def scan_digits_def Let_def)
    next
      case t: (Cons d u)
      then show ?thesis using Cons 2 [of u] 2 [of t]
        by (cases "d = CHR ''+'' \<or> d = CHR ''-''") (auto simp: scan_exponent_def Let_def split_beta)
    qed
  qed
qed

lemma scan_number_append: "scan_number t = (t, b, []) \<Longrightarrow> stops r \<Longrightarrow> scan_number (t @ r) = (t, b, r)"
  by (auto simp: scan_number_def scan_append Let_def split_beta)

section \<open>Reading back values\<close>

text \<open>
  The values the text determines. A number's text is one token that \<open>pf\<close> reads back, and it is
  in the safe range or has a fraction or an exponent; a big integer's text is read back by \<open>pb\<close>
  and its double is outside the safe range.
\<close>

definition number_ok :: "(rat \<Rightarrow> string) \<Rightarrow> (string \<Rightarrow> f64 option) \<Rightarrow> f64 \<Rightarrow> bool" where
  "number_ok fmt pf n =
     (let t = format_number fmt n; (tok, frac, r) = scan_number t
      in tok = t \<and> r = [] \<and> t \<noteq> [] \<and> (hd t = CHR ''-'' \<or> is_digit (hd t)) \<and> pf t = Some n \<and> (safe_number n \<or> frac))"

definition bigint_ok :: "(string \<Rightarrow> f64 option) \<Rightarrow> (string \<Rightarrow> int option) \<Rightarrow> int \<Rightarrow> bool" where
  "bigint_ok pf pb i =
     (let t = int_to_string i; (tok, frac, r) = scan_number t
      in tok = t \<and> r = [] \<and> \<not> frac \<and> t \<noteq> [] \<and> (hd t = CHR ''-'' \<or> is_digit (hd t)) \<and> pb t = Some i \<and>
         (case pf t of None \<Rightarrow> False | Some n \<Rightarrow> \<not> safe_number n))"

fun json_ok :: "(rat \<Rightarrow> string) \<Rightarrow> (string \<Rightarrow> f64 option) \<Rightarrow> (string \<Rightarrow> int option) \<Rightarrow> json \<Rightarrow> bool" where
  "json_ok fmt pf pb (JNumber n) = number_ok fmt pf n"
| "json_ok fmt pf pb (JBigInt i) = bigint_ok pf pb i"
| "json_ok fmt pf pb (JArray items) = (\<forall>x\<in>set items. json_ok fmt pf pb x)"
| "json_ok fmt pf pb (JObject entries) = (\<forall>x\<in>set entries. json_ok fmt pf pb (snd x))"
| "json_ok fmt pf pb _ = True"

definition reads_back :: "(rat \<Rightarrow> string) \<Rightarrow> (string \<Rightarrow> f64 option) \<Rightarrow> (string \<Rightarrow> int option) \<Rightarrow> json \<Rightarrow> bool" where
  "reads_back fmt pf pb v \<longleftrightarrow> (\<forall>n r. 2 * length (json_write fmt v) + 1 \<le> n \<longrightarrow> stops r \<longrightarrow>
     parse_value pf pb n (json_write fmt v @ r) = Some (Inr (v, r)))"

lemma reads_backD:
  "reads_back fmt pf pb v \<Longrightarrow> 2 * length (json_write fmt v) + 1 \<le> n \<Longrightarrow> stops r \<Longrightarrow>
   parse_value pf pb n (json_write fmt v @ r) = Some (Inr (v, r))"
  by (simp add: reads_back_def)

definition starts_value :: "string \<Rightarrow> bool" where
  "starts_value s \<longleftrightarrow> (\<exists>c t. s = c # t \<and> \<not> is_ws c \<and> c \<notin> {CHR '','', CHR '']'', CHR ''}''})"

lemma digit_not_ws: "c = CHR ''-'' \<or> is_digit c \<Longrightarrow> \<not> is_ws c \<and> c \<notin> {CHR '','', CHR '']'', CHR ''}'', CHR ''{'', CHR ''['', CHR 0x22, CHR ''t'', CHR ''f'', CHR ''n''}"
  by (auto simp: is_ws_def is_digit_def)

lemma starts_value_write: "json_ok fmt pf pb v \<Longrightarrow> starts_value (json_write fmt v)"
proof (cases v)
  case (JBool b)
  then show ?thesis by (cases b) (auto simp: starts_value_def is_ws_def)
next
  case (JNumber n)
  assume "json_ok fmt pf pb v"
  then show ?thesis using JNumber digit_not_ws [of "hd (format_number fmt n)"]
    by (cases "format_number fmt n") (auto simp: starts_value_def number_ok_def Let_def split_beta)
next
  case (JBigInt i)
  assume "json_ok fmt pf pb v"
  then show ?thesis using JBigInt digit_not_ws [of "hd (int_to_string i)"]
    by (cases "int_to_string i") (auto simp: starts_value_def bigint_ok_def Let_def split_beta)
qed (auto simp: starts_value_def is_ws_def write_json_string_def)

lemma skip_ws_starts: "starts_value s \<Longrightarrow> skip_ws (s @ r) = s @ r"
  by (auto simp: starts_value_def skip_ws_def)

lemma eat_starts: "starts_value s \<Longrightarrow> c \<in> {CHR '','', CHR '']'', CHR ''}''} \<Longrightarrow> eat c (s @ r) = None"
  by (auto simp: starts_value_def)

lemma skip_ws_stops: "stops s \<Longrightarrow> skip_ws s = s"
  by (cases s) (auto simp: stops_def skip_ws_def is_ws_def)

lemma reads_number:
  assumes "number_ok fmt pf n"
  shows "reads_back fmt pf pb (JNumber n)"
  unfolding reads_back_def
proof (intro allI impI)
  fix k r assume k: "2 * length (json_write fmt (JNumber n)) + 1 \<le> k" and r: "stops r"
  let ?t = "format_number fmt n"
  obtain frac where t: "scan_number ?t = (?t, frac, [])" "?t \<noteq> []" "hd ?t = CHR ''-'' \<or> is_digit (hd ?t)" "pf ?t = Some n" "safe_number n \<or> frac"
    using assms by (auto simp: number_ok_def Let_def split: prod.splits)
  obtain c u where c: "?t = c # u" using t(2) by (cases ?t) auto
  have "parse_number pf pb (?t @ r) = Inr (JNumber n, r)"
    using scan_number_append [OF t(1) r] t(4,5) by (simp add: parse_number_def)
  then show "parse_value pf pb k (json_write fmt (JNumber n) @ r) = Some (Inr (JNumber n, r))"
    using k t(3) c digit_not_ws [of c] by (cases k) auto
qed

lemma reads_bigint:
  assumes "bigint_ok pf pb i"
  shows "reads_back fmt pf pb (JBigInt i)"
  unfolding reads_back_def
proof (intro allI impI)
  fix k r assume k: "2 * length (json_write fmt (JBigInt i)) + 1 \<le> k" and r: "stops r"
  let ?t = "int_to_string i"
  obtain n where t: "scan_number ?t = (?t, False, [])" "?t \<noteq> []" "hd ?t = CHR ''-'' \<or> is_digit (hd ?t)" "pb ?t = Some i" "pf ?t = Some n" "\<not> safe_number n"
    using assms by (auto simp: bigint_ok_def Let_def split: prod.splits option.splits)
  obtain c u where c: "?t = c # u" using t(2) by (cases ?t) auto
  have "parse_number pf pb (?t @ r) = Inr (JBigInt i, r)"
    using scan_number_append [OF t(1) r] t(4,5,6) by (simp add: parse_number_def)
  then show "parse_value pf pb k (json_write fmt (JBigInt i) @ r) = Some (Inr (JBigInt i, r))"
    using k t(3) c digit_not_ws [of c] by (cases k) auto
qed

lemma reads_words:
  "reads_back fmt pf pb JNull" "reads_back fmt pf pb (JBool b)" "reads_back fmt pf pb (JString s)"
proof -
  show "reads_back fmt pf pb JNull" unfolding reads_back_def
  proof (intro allI impI)
    fix n r show "2 * length (json_write fmt JNull) + 1 \<le> n \<Longrightarrow> parse_value pf pb n (json_write fmt JNull @ r) = Some (Inr (JNull, r))"
      by (cases n) (simp_all add: parse_null_def matches_def)
  qed
  show "reads_back fmt pf pb (JBool b)" unfolding reads_back_def
  proof (intro allI impI)
    fix n r show "2 * length (json_write fmt (JBool b)) + 1 \<le> n \<Longrightarrow> parse_value pf pb n (json_write fmt (JBool b) @ r) = Some (Inr (JBool b, r))"
      by (cases n; cases b) (simp_all add: parse_bool_def matches_def)
  qed
  show "reads_back fmt pf pb (JString s)" unfolding reads_back_def
  proof (intro allI impI)
    fix n r assume n: "2 * length (json_write fmt (JString s)) + 1 \<le> n"
    obtain w where w: "write_json_string s @ r = CHR 0x22 # w" by (simp add: write_json_string_def)
    show "parse_value pf pb n (json_write fmt (JString s) @ r) = Some (Inr (JString s, r))"
      using n parse_write_string [of s r] by (cases n) (simp_all add: w)
  qed
qed

lemma stops_Cons: "c \<in> {CHR '','', CHR '']'', CHR ''}''} \<Longrightarrow> stops (c # s)"
  by (simp add: stops_def)

lemma not_ws_close: "skip_ws (CHR '','' # s) = CHR '','' # s" "skip_ws (CHR '']'' # s) = CHR '']'' # s"
  "skip_ws (CHR ''}'' # s) = CHR ''}'' # s" "skip_ws (CHR '':'' # s) = CHR '':'' # s" "skip_ws (CHR 0x22 # s) = CHR 0x22 # s"
  by (simp_all add: skip_ws_def is_ws_def)

lemma array_reads:
  "\<forall>x\<in>set (x # xs). reads_back fmt pf pb x \<and> json_ok fmt pf pb x \<Longrightarrow>
   2 * length (json_write fmt x @ json_write_items fmt False xs) + 2 \<le> n \<Longrightarrow>
   array_loop pf pb n acc (json_write fmt x @ json_write_items fmt False xs @ CHR '']'' # r) = Some (Inr (JArray (acc @ x # xs), r))"
proof (induction xs arbitrary: x acc n)
  case Nil
  then obtain m where n: "n = Suc m" by (cases n) auto
  have st: "starts_value (json_write fmt x)" using Nil by (auto intro: starts_value_write)
  have "parse_value pf pb m (json_write fmt x @ CHR '']'' # r) = Some (Inr (x, CHR '']'' # r))"
    using Nil n by (intro reads_backD) (auto intro: stops_Cons)
  then show ?case unfolding n by (simp add: skip_ws_starts [OF st] not_ws_close)
next
  case (Cons y xs)
  then obtain m where n: "n = Suc m" by (cases n) auto
  have st: "starts_value (json_write fmt x)" using Cons.prems(1) by (auto intro: starts_value_write)
  let ?r = "CHR '','' # json_write fmt y @ json_write_items fmt False xs @ CHR '']'' # r"
  have "parse_value pf pb m (json_write fmt x @ ?r) = Some (Inr (x, ?r))"
    using Cons.prems n by (intro reads_backD) (auto intro: stops_Cons)
  moreover have "array_loop pf pb m (acc @ [x]) (json_write fmt y @ json_write_items fmt False xs @ CHR '']'' # r) =
      Some (Inr (JArray ((acc @ [x]) @ y # xs), r))"
    using Cons.prems n by (intro Cons.IH) auto
  ultimately show ?case unfolding n by (simp add: skip_ws_starts [OF st] not_ws_close)
qed

lemma string_starts: "skip_ws (write_json_string k @ s) = write_json_string k @ s" "eat (CHR ''}'') (write_json_string k @ s) = None"
  by (simp_all add: write_json_string_def skip_ws_def is_ws_def)

lemma object_reads:
  "\<forall>x\<in>set ((k, v) # es). reads_back fmt pf pb (snd x) \<and> json_ok fmt pf pb (snd x) \<Longrightarrow>
   2 * length (write_json_string k @ '':'' @ json_write fmt v @ json_write_entries fmt False es) + 2 \<le> n \<Longrightarrow>
   object_loop pf pb n acc (write_json_string k @ CHR '':'' # json_write fmt v @ json_write_entries fmt False es @ CHR ''}'' # r) =
     Some (Inr (JObject (acc @ (k, v) # es), r))"
proof (induction es arbitrary: k v acc n)
  case Nil
  then obtain m where n: "n = Suc m" by (cases n) auto
  have st: "starts_value (json_write fmt v)" using Nil by (auto intro: starts_value_write)
  have "parse_value pf pb m (json_write fmt v @ CHR ''}'' # r) = Some (Inr (v, CHR ''}'' # r))"
    using Nil n by (intro reads_backD) (auto intro: stops_Cons)
  then show ?case unfolding n
    by (simp add: skip_ws_starts [OF st] string_starts parse_write_string not_ws_close)
next
  case (Cons y es)
  obtain l w where y: "y = (l, w)" by fastforce
  obtain m where n: "n = Suc m" using Cons.prems(2) by (cases n) auto
  have st: "starts_value (json_write fmt v)" using Cons.prems(1) by (auto intro: starts_value_write)
  let ?r = "CHR '','' # write_json_string l @ CHR '':'' # json_write fmt w @ json_write_entries fmt False es @ CHR ''}'' # r"
  have "parse_value pf pb m (json_write fmt v @ ?r) = Some (Inr (v, ?r))"
    using Cons.prems n by (intro reads_backD) (auto intro: stops_Cons)
  moreover have "object_loop pf pb m (acc @ [(k, v)]) (write_json_string l @ CHR '':'' # json_write fmt w @ json_write_entries fmt False es @ CHR ''}'' # r) =
      Some (Inr (JObject ((acc @ [(k, v)]) @ (l, w) # es), r))"
    using Cons.prems n y by (intro Cons.IH) auto
  ultimately show ?case unfolding n y
    by (simp add: skip_ws_starts [OF st] string_starts parse_write_string not_ws_close)
qed

lemma reads_array:
  assumes "\<forall>x\<in>set xs. reads_back fmt pf pb x \<and> json_ok fmt pf pb x"
  shows "reads_back fmt pf pb (JArray xs)"
  unfolding reads_back_def
proof (intro allI impI)
  fix n r assume n: "2 * length (json_write fmt (JArray xs)) + 1 \<le> n"
  obtain m where m: "n = Suc m" using n by (cases n) auto
  show "parse_value pf pb n (json_write fmt (JArray xs) @ r) = Some (Inr (JArray xs, r))"
  proof (cases xs)
    case Nil
    then show ?thesis unfolding m by (simp add: not_ws_close)
  next
    case (Cons y ys)
    have st: "starts_value (json_write fmt y)" using assms Cons by (auto intro: starts_value_write)
    show ?thesis using n Cons assms array_reads [of y ys fmt pf pb m "[]" r] unfolding m
      by (simp add: skip_ws_starts [OF st] eat_starts [OF st])
  qed
qed

lemma reads_object:
  assumes "\<forall>x\<in>set es. reads_back fmt pf pb (snd x) \<and> json_ok fmt pf pb (snd x)"
  shows "reads_back fmt pf pb (JObject es)"
  unfolding reads_back_def
proof (intro allI impI)
  fix n r assume n: "2 * length (json_write fmt (JObject es)) + 1 \<le> n"
  obtain m where m: "n = Suc m" using n by (cases n) auto
  show "parse_value pf pb n (json_write fmt (JObject es) @ r) = Some (Inr (JObject es, r))"
  proof (cases es)
    case Nil
    then show ?thesis unfolding m by (simp add: not_ws_close)
  next
    case (Cons y ys)
    obtain k v where y: "y = (k, v)" by fastforce
    show ?thesis using n Cons y assms object_reads [of k v ys fmt pf pb m "[]" r] unfolding m
      by (simp add: string_starts)
  qed
qed

lemma json_reads_back: "json_ok fmt pf pb v \<Longrightarrow> reads_back fmt pf pb v"
proof (induction v)
  case (JArray xs)
  then show ?case by (intro reads_array) auto
next
  case (JObject es)
  have "reads_back fmt pf pb (snd x)" if "x \<in> set es" for x
    using JObject that by (cases x) (auto simp: snds.simps)
  then show ?case using JObject.prems by (intro reads_object) auto
qed (auto intro: reads_number reads_bigint reads_words)

section \<open>Properties\<close>

text \<open>
  C26. The parser returns for every text: a value or an error, never a loop.
\<close>

theorem parse_terminates: "\<exists>r. parse pf pb s = Some r"
proof -
  have "2 * length (skip_ws s) + 1 \<le> 2 * length s + 1" using skip_ws_length [of s] by simp
  then have "consumes (skip_ws s) (parse_value pf pb (2 * length s + 1) (skip_ws s))" using parser_consumes by blast
  then show ?thesis by (rule consumes_cases) (auto simp: parse_def)
qed



definition sample_pf :: "string \<Rightarrow> f64 option" where
  "sample_pf s = (if s = ''1.5'' then Some (F_Fin (3 / 2)) else if s = ''7'' then Some (F_Fin 7)
     else if s = ''9007199254740993'' then Some (F_Fin 9007199254740992) else None)"

definition sample_json :: json where
  "sample_json = JObject [(''a'', JArray [JNumber (F_Fin 7), JNumber (F_Fin (3 / 2)), JBool True]), ([CHR 0x22, CHR 0x0A], JString [CHR 0x01]),
     (''b'', JNull), (''c'', JBigInt 9007199254740993)]"

lemma sample_bigint: "int_to_string 9007199254740993 = ''9007199254740993''"
proof -
  have "radix_digits 10 9007199254740993 = [9, 0, 0, 7, 1, 9, 9, 2, 5, 4, 7, 4, 0, 9, 9, 3]" by (simp add: radix_digits.simps)
  moreover have "map digit_char [9, 0, 0, 7, 1, 9, 9, 2, 5, 4, 7, 4, 0, 9, 9, 3] = ''9007199254740993''" by code_simp
  ultimately show ?thesis by (simp add: int_to_string_def nat_digits_def)
qed



lemma parse_value_string:
  "0 < n \<Longrightarrow> parse_value pf pb n (CHR 0x22 # s) =
     Some (case parse_string (CHR 0x22 # s) of Inl e \<Rightarrow> Inl e | Inr (str, t) \<Rightarrow> Inr (JString str, t))"
  by (cases n) simp_all

text \<open>
  A character outside the basic plane, escaped as the pair of surrogates JSON prescribes, is not
  read as that character: each half becomes the replacement character.
\<close>

theorem parse_surrogate_pair:
  "parse pf pb ([CHR 0x22, CHR 0x5C] @ ''ud83d'' @ [CHR 0x5C] @ ''ude00'' @ [CHR 0x22]) = Some (Inr (JString (utf8 65533 @ utf8 65533)))"
proof -
  have d: "to_digit 16 (CHR ''d'') = Some 13" "to_digit 16 (CHR ''8'') = Some 8" "to_digit 16 (CHR ''3'') = Some 3"
    "to_digit 16 (CHR ''e'') = Some 14" "to_digit 16 (CHR ''0'') = Some 0" "simple_escape (CHR ''u'') = None" by code_simp+
  have four: "(4 :: nat) = Suc (Suc (Suc (Suc 0)))" by simp
  have "hex4 4 0 (''d83d'' @ s) = Inr (55357, s)" "hex4 4 0 (''de00'' @ s) = Inr (56832, s)" for s
    unfolding four by (simp_all add: d)
  then have "string_step (CHR 0x5C) (''ud83d'' @ s) = Inr (Some (utf8 65533), s)" "string_step (CHR 0x5C) (''ude00'' @ s) = Inr (Some (utf8 65533), s)" for s
    by (simp_all add: string_step_def d push_code_def)
  then have "parse_string ([CHR 0x22, CHR 0x5C] @ ''ud83d'' @ [CHR 0x5C] @ ''ude00'' @ [CHR 0x22]) = Inr (utf8 65533 @ utf8 65533, [])"
    by (simp add: parse_string_def string_step_def [of "CHR 0x22"])
  then show ?thesis by (simp add: parse_def skip_ws_def is_ws_def parse_value_string)
qed

end
