(* ===== verification/Zql_Predicate.thy ===== *)
theory Zql_Predicate
  imports Ast
begin

text \<open>
  Conditions as predicates on rows (\<open>zero-cache-zql/src/builder\<close>: \<open>filter.rs\<close>, \<open>like.rs\<close>). A
  predicate is built once and then run per row; both steps can panic, so building gives an
  \<open>option\<close> and running gives an \<open>option\<close>. The regular-expression crate and Unicode lower-casing are
  parameters, the fields of \<open>like_lib\<close>.
\<close>

section \<open>LIKE patterns\<close>

record like_lib =
  lowercase :: "string \<Rightarrow> string"
  regex_new :: "string \<Rightarrow> (string \<Rightarrow> bool) option"

datatype like_predicate =
    LikeExact string
  | LikeExactCaseInsensitive string
  | LikeRegex "string \<Rightarrow> bool"

definition like_predicate_matches :: "'b like_lib_scheme \<Rightarrow> like_predicate \<Rightarrow> string \<Rightarrow> bool" where
  "like_predicate_matches L p lhs =
     (case p of
        LikeExact pattern \<Rightarrow> lhs = pattern
      | LikeExactCaseInsensitive pattern \<Rightarrow> lowercase L lhs = pattern
      | LikeRegex re \<Rightarrow> re lhs)"

definition has_wildcards :: "string \<Rightarrow> bool" where
  "has_wildcards pattern \<longleftrightarrow> CHR ''_'' \<in> set pattern \<or> CHR ''%'' \<in> set pattern \<or> CHR 0x5C \<in> set pattern"

definition is_special_regex_char :: "string \<Rightarrow> bool" where
  "is_special_regex_char c \<longleftrightarrow>
     c \<in> set [''$'', ''('', '')'', ''*'', ''+'', ''.'', ''?'', ''['', '']'', [CHR 0x5C], ''^'', ''{'', ''|'', ''}'']"

definition push_literal :: "string \<Rightarrow> string" where
  "push_literal c = (if is_special_regex_char c then CHR 0x5C # c else c)"

fun regex_body :: "string list \<Rightarrow> string option" where
  "regex_body [] = Some []"
| "regex_body (c # cs) =
     (if c = ''%'' then map_option (\<lambda>r. ''.*'' @ r) (regex_body cs)
      else if c = ''_'' then map_option (\<lambda>r. ''.'' @ r) (regex_body cs)
      else if c = [CHR 0x5C] then
        (case cs of
           [] \<Rightarrow> None
         | d # ds \<Rightarrow> map_option (\<lambda>r. push_literal d @ r) (regex_body ds))
      else map_option (\<lambda>r. push_literal c @ r) (regex_body cs))"

definition pattern_to_regex :: "'b like_lib_scheme \<Rightarrow> string \<Rightarrow> bool \<Rightarrow> (string \<Rightarrow> bool) option" where
  "pattern_to_regex L source case_insensitive =
     do {
       body \<leftarrow> regex_body (chars source);
       regex_new L ((if case_insensitive then ''(?is)'' else ''(?s)'') @ ''^'' @ body @ ''$'')
     }"

definition get_like_predicate :: "'b like_lib_scheme \<Rightarrow> string \<Rightarrow> bool \<Rightarrow> like_predicate option" where
  "get_like_predicate L pattern case_insensitive =
     (if \<not> has_wildcards pattern then
        Some (if case_insensitive then LikeExactCaseInsensitive (lowercase L pattern) else LikeExact pattern)
      else map_option LikeRegex (pattern_to_regex L pattern case_insensitive))"

section \<open>Simple conditions\<close>

fun literal_to_value :: "literal_value \<Rightarrow> json"
  and literals_to_values :: "literal_value list \<Rightarrow> json list" where
  "literal_to_value (LitString s) = JString s"
| "literal_to_value (LitNumber n) = JNumber n"
| "literal_to_value (LitBool b) = JBool b"
| "literal_to_value LitNull = JNull"
| "literal_to_value (LitArray items) = JArray (literals_to_values items)"
| "literals_to_values [] = []"
| "literals_to_values (i # is) = literal_to_value i # literals_to_values is"

datatype resolved = RLiteral json | RColumn string

fun resolve :: "value_position \<Rightarrow> resolved option" where
  "resolve (VLiteral lit) = Some (RLiteral (literal_to_value lit))"
| "resolve (VColumn col) = Some (RColumn col)"
| "resolve (VParameter p) = None"

fun resolved_literal :: "resolved \<Rightarrow> json option" where
  "resolved_literal (RLiteral v) = Some v"
| "resolved_literal (RColumn c) = None"

definition like_matches :: "'b like_lib_scheme \<Rightarrow> json \<Rightarrow> json \<Rightarrow> bool \<Rightarrow> bool option" where
  "like_matches L lhs rhs case_insensitive =
     (case (rhs, lhs) of
        (JString pattern, JString s) \<Rightarrow>
          do { p \<leftarrow> get_like_predicate L pattern case_insensitive; Some (like_predicate_matches L p s) }
      | _ \<Rightarrow> None)"

definition in_set :: "json \<Rightarrow> json \<Rightarrow> bool option" where
  "in_set lhs rhs = (case rhs of JArray items \<Rightarrow> Some (\<exists>item\<in>set items. json_eq item lhs) | _ \<Rightarrow> None)"

fun eval_is :: "simple_operator \<Rightarrow> json \<Rightarrow> json \<Rightarrow> bool option" where
  "eval_is OpIs lhs rhs = Some (json_eq lhs rhs)"
| "eval_is OpIsNot lhs rhs = Some (\<not> json_eq lhs rhs)"
| "eval_is op lhs rhs = None"

fun eval_non_null_op :: "'b like_lib_scheme \<Rightarrow> simple_operator \<Rightarrow> json \<Rightarrow> json \<Rightarrow> bool option" where
  "eval_non_null_op L OpEq lhs rhs = Some (json_eq lhs rhs)"
| "eval_non_null_op L OpNe lhs rhs = Some (\<not> json_eq lhs rhs)"
| "eval_non_null_op L OpLt lhs rhs = map_option (\<lambda>c. c = Less) (compare_values lhs rhs)"
| "eval_non_null_op L OpLe lhs rhs = map_option (\<lambda>c. c \<noteq> Greater) (compare_values lhs rhs)"
| "eval_non_null_op L OpGt lhs rhs = map_option (\<lambda>c. c = Greater) (compare_values lhs rhs)"
| "eval_non_null_op L OpGe lhs rhs = map_option (\<lambda>c. c \<noteq> Less) (compare_values lhs rhs)"
| "eval_non_null_op L OpLike lhs rhs = like_matches L lhs rhs False"
| "eval_non_null_op L OpNotLike lhs rhs = map_option Not (like_matches L lhs rhs False)"
| "eval_non_null_op L OpILike lhs rhs = like_matches L lhs rhs True"
| "eval_non_null_op L OpNotILike lhs rhs = map_option Not (like_matches L lhs rhs True)"
| "eval_non_null_op L OpIn lhs rhs = in_set lhs rhs"
| "eval_non_null_op L OpNotIn lhs rhs = map_option Not (in_set lhs rhs)"
| "eval_non_null_op L OpIs lhs rhs = None"
| "eval_non_null_op L OpIsNot lhs rhs = None"

type_synonym row_predicate = "row \<Rightarrow> bool option"

definition create_simple_predicate ::
  "'b like_lib_scheme \<Rightarrow> simple_operator \<Rightarrow> resolved \<Rightarrow> resolved \<Rightarrow> row_predicate option" where
  "create_simple_predicate L op left right =
     do {
       rhs \<leftarrow> resolved_literal right;
       if op = OpIs \<or> op = OpIsNot then
         (case left of
            RLiteral lv \<Rightarrow> do { result \<leftarrow> eval_is op lv rhs; Some (\<lambda>_. Some result) }
          | RColumn name \<Rightarrow> Some (\<lambda>row. eval_is op (get row name) rhs))
       else if rhs = JNull then Some (\<lambda>_. Some False)
       else
         (case left of
            RLiteral lv \<Rightarrow>
              if lv = JNull then Some (\<lambda>_. Some False)
              else do { result \<leftarrow> eval_non_null_op L op lv rhs; Some (\<lambda>_. Some result) }
          | RColumn name \<Rightarrow>
              Some (\<lambda>row. let lhs = get row name in
                if lhs = JNull then Some False else eval_non_null_op L op lhs rhs))
     }"

section \<open>Conditions\<close>

text \<open>\<open>Iterator::all\<close> and \<open>any\<close> stop at the first member that decides them.\<close>

fun all_opt :: "row_predicate list \<Rightarrow> row_predicate" where
  "all_opt [] row = Some True"
| "all_opt (p # ps) row = do { b \<leftarrow> p row; if b then all_opt ps row else Some False }"

fun any_opt :: "row_predicate list \<Rightarrow> row_predicate" where
  "any_opt [] row = Some False"
| "any_opt (p # ps) row = do { b \<leftarrow> p row; if b then Some True else any_opt ps row }"

type_synonym exists_fn = "correlated_subquery \<Rightarrow> row \<Rightarrow> bool option"

fun create_predicate_with_exists :: "'b like_lib_scheme \<Rightarrow> exists_fn \<Rightarrow> condition \<Rightarrow> row_predicate option"
  and create_predicates :: "'b like_lib_scheme \<Rightarrow> exists_fn \<Rightarrow> condition list \<Rightarrow> row_predicate list option" where
  "create_predicate_with_exists L ex (And cs) = map_option all_opt (create_predicates L ex cs)"
| "create_predicate_with_exists L ex (Or cs) = map_option any_opt (create_predicates L ex cs)"
| "create_predicate_with_exists L ex (Correlated r op f s p) =
     Some (\<lambda>row. map_option (\<lambda>matched. case op of Exists \<Rightarrow> matched | NotExists \<Rightarrow> \<not> matched) (ex r row))"
| "create_predicate_with_exists L ex (Simple op l r) =
     do { left \<leftarrow> resolve l; right \<leftarrow> resolve r; create_simple_predicate L op left right }"
| "create_predicates L ex [] = Some []"
| "create_predicates L ex (c # cs) =
     do { p \<leftarrow> create_predicate_with_exists L ex c; ps \<leftarrow> create_predicates L ex cs; Some (p # ps) }"

definition create_predicate :: "'b like_lib_scheme \<Rightarrow> condition \<Rightarrow> row_predicate option" where
  "create_predicate L c = create_predicate_with_exists L (\<lambda>_ _. None) c"

section \<open>The meaning of a condition\<close>

text \<open>The truth of a condition from the truth of its leaves.\<close>

fun cond_holds :: "(condition \<Rightarrow> bool) \<Rightarrow> condition \<Rightarrow> bool" where
  "cond_holds tr (And cs) \<longleftrightarrow> (\<forall>c\<in>set cs. cond_holds tr c)"
| "cond_holds tr (Or cs) \<longleftrightarrow> (\<exists>c\<in>set cs. cond_holds tr c)"
| "cond_holds tr (Simple op l r) \<longleftrightarrow> tr (Simple op l r)"
| "cond_holds tr (Correlated r op f s p) \<longleftrightarrow> tr (Correlated r op f s p)"

fun leaves :: "condition \<Rightarrow> condition set" where
  "leaves (And cs) = (\<Union>c\<in>set cs. leaves c)"
| "leaves (Or cs) = (\<Union>c\<in>set cs. leaves c)"
| "leaves (Simple op l r) = {Simple op l r}"
| "leaves (Correlated r op f s p) = {Correlated r op f s p}"

fun no_empty :: "condition \<Rightarrow> bool" where
  "no_empty (And cs) \<longleftrightarrow> cs \<noteq> [] \<and> (\<forall>c\<in>set cs. no_empty c)"
| "no_empty (Or cs) \<longleftrightarrow> cs \<noteq> [] \<and> (\<forall>c\<in>set cs. no_empty c)"
| "no_empty _ \<longleftrightarrow> True"

text \<open>What a condition evaluates to on a row: \<open>None\<close> when building or running its predicate panics.\<close>

definition eval_cond :: "'b like_lib_scheme \<Rightarrow> exists_fn \<Rightarrow> row \<Rightarrow> condition \<Rightarrow> bool option" where
  "eval_cond L ex row c = do { p \<leftarrow> create_predicate_with_exists L ex c; p row }"

definition leaf_true :: "'b like_lib_scheme \<Rightarrow> exists_fn \<Rightarrow> row \<Rightarrow> condition \<Rightarrow> bool" where
  "leaf_true L ex row c \<longleftrightarrow> eval_cond L ex row c = Some True"

definition leaves_total :: "'b like_lib_scheme \<Rightarrow> exists_fn \<Rightarrow> row \<Rightarrow> condition \<Rightarrow> bool" where
  "leaves_total L ex row c \<longleftrightarrow> (\<forall>l\<in>leaves c. eval_cond L ex row l \<noteq> None)"

lemma all_opt_map:
  "(\<And>p. p \<in> set ps \<Longrightarrow> p row = Some (v p)) \<Longrightarrow> all_opt ps row = Some (\<forall>p\<in>set ps. v p)"
proof (induction ps)
  case (Cons a ps)
  have "a row = Some (v a)" by (rule Cons.prems) simp
  moreover have "all_opt ps row = Some (\<forall>p\<in>set ps. v p)" by (rule Cons.IH) (simp add: Cons.prems)
  ultimately show ?case by simp
qed simp

lemma any_opt_map:
  "(\<And>p. p \<in> set ps \<Longrightarrow> p row = Some (v p)) \<Longrightarrow> any_opt ps row = Some (\<exists>p\<in>set ps. v p)"
proof (induction ps)
  case (Cons a ps)
  have "a row = Some (v a)" by (rule Cons.prems) simp
  moreover have "any_opt ps row = Some (\<exists>p\<in>set ps. v p)" by (rule Cons.IH) (simp add: Cons.prems)
  ultimately show ?case by simp
qed simp

lemma create_predicates_map: "create_predicates L ex cs = map_opt (create_predicate_with_exists L ex) cs"
  by (induction cs) auto

lemma map_opt_Some_nth: "map_opt f xs = Some ys \<Longrightarrow> set ys = (\<lambda>x. the (f x)) ` set xs"
  by (induction xs arbitrary: ys) (auto simp: option_mono)

lemma map_opt_ex: "(\<forall>x\<in>set xs. f x \<noteq> None) \<Longrightarrow> \<exists>ys. map_opt f xs = Some ys"
  by (induction xs) auto

text \<open>
  When no leaf panics, building and running the predicate of a condition gives the truth of the
  condition: \<open>And\<close> and \<open>Or\<close> are conjunction and disjunction.
\<close>

lemma eval_junction:
  assumes "\<And>c. c \<in> set cs \<Longrightarrow> eval_cond L ex row c = Some (v c)"
  shows "eval_cond L ex row (And cs) = Some (\<forall>c\<in>set cs. v c)"
    and "eval_cond L ex row (Or cs) = Some (\<exists>c\<in>set cs. v c)"
proof -
  let ?f = "create_predicate_with_exists L ex"
  have c: "\<exists>p. ?f c = Some p \<and> p row = Some (v c)" if "c \<in> set cs" for c
    using assms [OF that] by (simp add: eval_cond_def bind_Some_iff)
  then have "\<forall>c\<in>set cs. ?f c \<noteq> None" by blast
  then obtain ps where ps: "map_opt ?f cs = Some ps" using map_opt_ex by blast
  have img: "set ps = (\<lambda>c. the (?f c)) ` set cs" by (rule map_opt_Some_nth [OF ps])
  have r: "the (?f c) row = Some (v c)" if "c \<in> set cs" for c using c [OF that] by auto
  have s: "p row = Some (the (p row))" if "p \<in> set ps" for p
  proof -
    from that img obtain c where "c \<in> set cs" "p = the (?f c)" by blast
    then show ?thesis using r by simp
  qed
  have "(\<forall>p\<in>set ps. the (p row)) \<longleftrightarrow> (\<forall>c\<in>set cs. v c)" "(\<exists>p\<in>set ps. the (p row)) \<longleftrightarrow> (\<exists>c\<in>set cs. v c)"
    unfolding img by (simp_all add: r)
  moreover have "eval_cond L ex row (And cs) = all_opt ps row" "eval_cond L ex row (Or cs) = any_opt ps row"
    using ps by (simp_all add: eval_cond_def create_predicates_map)
  moreover have "all_opt ps row = Some (\<forall>p\<in>set ps. the (p row))" by (rule all_opt_map [OF s])
  moreover have "any_opt ps row = Some (\<exists>p\<in>set ps. the (p row))" by (rule any_opt_map [OF s])
  ultimately show "eval_cond L ex row (And cs) = Some (\<forall>c\<in>set cs. v c)"
    "eval_cond L ex row (Or cs) = Some (\<exists>c\<in>set cs. v c)"
    by simp_all
qed

lemma eval_cond_holds:
  "leaves_total L ex row c \<Longrightarrow> eval_cond L ex row c = Some (cond_holds (leaf_true L ex row) c)"
proof (induction c rule: leaves.induct)
  case (1 cs)
  have "eval_cond L ex row c = Some (cond_holds (leaf_true L ex row) c)" if "c \<in> set cs" for c
    using 1(1) [OF that] 1(2) that unfolding leaves_total_def by simp
  from eval_junction(1) [of cs, OF this] show ?case by simp
next
  case (2 cs)
  have "eval_cond L ex row c = Some (cond_holds (leaf_true L ex row) c)" if "c \<in> set cs" for c
    using 2(1) [OF that] 2(2) that unfolding leaves_total_def by simp
  from eval_junction(2) [of cs, OF this] show ?case by simp
qed (auto simp: leaves_total_def leaf_true_def)

section \<open>Normalization keeps the meaning\<close>

definition jn_holds :: "(condition \<Rightarrow> bool) \<Rightarrow> bool \<Rightarrow> condition list \<Rightarrow> bool" where
  "jn_holds tr is_and cs \<longleftrightarrow> (if is_and then \<forall>c\<in>set cs. cond_holds tr c else \<exists>c\<in>set cs. cond_holds tr c)"

definition all_leaves :: "condition list \<Rightarrow> condition set" where
  "all_leaves cs = (\<Union>c\<in>set cs. leaves c)"

lemma jn_holds_simps [simp]:
  "jn_holds tr b [] = b"
  "jn_holds tr b (c # cs) = (if b then cond_holds tr c \<and> jn_holds tr b cs else cond_holds tr c \<or> jn_holds tr b cs)"
  "jn_holds tr b (cs @ ds) = (if b then jn_holds tr b cs \<and> jn_holds tr b ds else jn_holds tr b cs \<or> jn_holds tr b ds)"
  by (auto simp: jn_holds_def)

lemma all_leaves_simps [simp]:
  "all_leaves [] = {}" "all_leaves (c # cs) = leaves c \<union> all_leaves cs" "all_leaves (cs @ ds) = all_leaves cs \<union> all_leaves ds"
  by (auto simp: all_leaves_def)

lemma junctions:
  "cond_holds tr (And cs) = jn_holds tr True cs" "cond_holds tr (Or cs) = jn_holds tr False cs"
  "leaves (And cs) = all_leaves cs" "leaves (Or cs) = all_leaves cs"
  by (auto simp: jn_holds_def all_leaves_def)

lemmas no_junction = cond_holds.simps(1,2) leaves.simps(1,2)

lemma rejoin_holds:
  "flat \<noteq> [] \<Longrightarrow> \<exists>d. rejoin is_and flat = Some d \<and> cond_holds tr d = jn_holds tr is_and flat \<and> leaves d = all_leaves flat"
  by (cases flat rule: remdups_adj.cases) (auto simp: rejoin_def junctions simp del: no_junction)

lemma flatten_holds:
  "no_empty c \<Longrightarrow> flatten c \<noteq> None \<and> cond_holds tr (the (flatten c)) = cond_holds tr c \<and> leaves (the (flatten c)) = leaves c"
  "\<forall>c\<in>set cs. no_empty c \<Longrightarrow>
     (flatten_members is_and cs = [] \<longleftrightarrow> cs = []) \<and>
     jn_holds tr is_and (flatten_members is_and cs) = jn_holds tr is_and cs \<and>
     all_leaves (flatten_members is_and cs) = all_leaves cs"
  "\<forall>c\<in>set cs. no_empty c \<Longrightarrow>
     (flatten_each cs = [] \<longleftrightarrow> cs = []) \<and> jn_holds tr True (flatten_each cs) = jn_holds tr True cs \<and>
     jn_holds tr False (flatten_each cs) = jn_holds tr False cs \<and> all_leaves (flatten_each cs) = all_leaves cs"
proof (induction c and is_and cs and cs rule: flatten_flatten_members_flatten_each.induct)
  case (3 cs)
  then show ?case using rejoin_holds [of "flatten_members True cs" True tr] by (auto simp: junctions simp del: no_junction)
next
  case (4 cs)
  then show ?case using rejoin_holds [of "flatten_members False cs" False tr] by (auto simp: junctions simp del: no_junction)
qed (simp_all add: junctions del: no_junction split: option.splits, auto)

lemma sort_by_set: "sort_by cmp xs = Some ys \<Longrightarrow> set ys = set xs"
  by (auto simp: sort_by_def split: if_splits)

lemma normalize_conditions_map: "normalize_conditions B cs = map_opt (normalize_condition B) cs"
  by (induction cs) auto

text \<open>A subquery resolver that does not tell a subquery from its normal form.\<close>

definition respects_normal_form :: "'a text_lib_scheme \<Rightarrow> exists_fn \<Rightarrow> bool" where
  "respects_normal_form B ex \<longleftrightarrow>
     (\<forall>corr q q' sys hid row. normalize_ast B q = Some q' \<longrightarrow>
        ex (Subquery corr q' sys hid) row = ex (Subquery corr q sys hid) row)"

lemma eval_cond_normal_leaf:
  assumes "respects_normal_form B ex" "normalize_ast B q = Some q'"
  shows "eval_cond L ex row (Correlated (Subquery corr q' sys hid) op f s p) =
    eval_cond L ex row (Correlated (Subquery corr q sys hid) op f s p)"
  using assms by (auto simp: eval_cond_def respects_normal_form_def)

lemma map_opt_mem: "map_opt f xs = Some ys \<Longrightarrow> x \<in> set xs \<Longrightarrow> \<exists>y. f x = Some y"
  by (induction xs arbitrary: ys) (auto simp: bind_Some_iff)

definition same_meaning :: "'b like_lib_scheme \<Rightarrow> exists_fn \<Rightarrow> row \<Rightarrow> condition \<Rightarrow> condition \<Rightarrow> bool" where
  "same_meaning L ex row n c \<longleftrightarrow>
     cond_holds (leaf_true L ex row) n = cond_holds (leaf_true L ex row) c \<and>
     eval_cond L ex row ` leaves n \<subseteq> eval_cond L ex row ` leaves c"

lemma same_meaning_members:
  assumes "map_opt (normalize_condition B) cs = Some ms" "sort_by (cmp_condition B) ms = Some ns"
    and "\<And>d e. d \<in> set cs \<Longrightarrow> normalize_condition B d = Some e \<Longrightarrow> same_meaning L ex row e d"
  shows "same_meaning L ex row (And ns) (And cs)" and "same_meaning L ex row (Or ns) (Or cs)"
proof -
  let ?g = "\<lambda>d. the (normalize_condition B d)"
  have s: "set ns = ?g ` set cs" using sort_by_set [OF assms(2)] map_opt_Some_nth [OF assms(1)] by simp
  have g: "same_meaning L ex row (?g d) d" if "d \<in> set cs" for d
    using map_opt_mem [OF assms(1) that] assms(3) [OF that] by auto
  have h: "cond_holds (leaf_true L ex row) (?g d) = cond_holds (leaf_true L ex row) d"
    "eval_cond L ex row ` leaves (?g d) \<subseteq> eval_cond L ex row ` leaves d" if "d \<in> set cs" for d
    using g [OF that] by (simp_all add: same_meaning_def)
  have l: "eval_cond L ex row ` (\<Union>e\<in>set ns. leaves e) \<subseteq> eval_cond L ex row ` (\<Union>d\<in>set cs. leaves d)"
    unfolding s image_UN using h(2) by fast
  show "same_meaning L ex row (And ns) (And cs)"
    unfolding same_meaning_def leaves.simps cond_holds.simps using l s h(1) by simp
  show "same_meaning L ex row (Or ns) (Or cs)"
    unfolding same_meaning_def leaves.simps cond_holds.simps using l s h(1) by simp
qed

lemma normalize_condition_meaning:
  assumes ex: "respects_normal_form B ex"
  shows "normalize_condition B c = Some n \<Longrightarrow> same_meaning L ex row n c"
proof (induction c arbitrary: n rule: leaves.induct)
  case (1 cs)
  then obtain ms ns where "map_opt (normalize_condition B) cs = Some ms" "sort_by (cmp_condition B) ms = Some ns" "n = And ns"
    by (auto simp: bind_Some_iff normalize_conditions_map)
  with same_meaning_members(1) [OF this(1,2), of L ex row] 1(1) show ?case by simp
next
  case (2 cs)
  then obtain ms ns where "map_opt (normalize_condition B) cs = Some ms" "sort_by (cmp_condition B) ms = Some ns" "n = Or ns"
    by (auto simp: bind_Some_iff normalize_conditions_map)
  with same_meaning_members(2) [OF this(1,2), of L ex row] 2(1) show ?case by simp
next
  case (4 r op f s p)
  then obtain corr q sys hid q' where r: "r = Subquery corr q sys hid" "normalize_ast B q = Some q'"
    "n = Correlated (Subquery corr q' sys hid) op f s p"
    by (cases r) (auto simp: bind_Some_iff)
  show ?case
    using eval_cond_normal_leaf [OF ex r(2), of L row corr sys hid op f s p] r(1,3)
    by (simp add: leaf_true_def same_meaning_def)
qed (simp add: same_meaning_def)

lemma same_meaning_eval:
  assumes "same_meaning L ex row n c" "leaves_total L ex row c"
  shows "eval_cond L ex row n = eval_cond L ex row c"
proof -
  have "None \<notin> eval_cond L ex row ` leaves c" using assms(2) by (auto simp: leaves_total_def)
  then have "None \<notin> eval_cond L ex row ` leaves n" using assms(1) by (auto simp: same_meaning_def)
  then have "leaves_total L ex row n" unfolding leaves_total_def by (metis imageI)
  then show ?thesis using assms eval_cond_holds [of L ex row n] eval_cond_holds [of L ex row c] by (simp add: same_meaning_def)
qed

lemma normalize_ast_where:
  "normalize_ast B q = Some q' \<Longrightarrow> ast_where q = Some c \<Longrightarrow>
   (case flatten c of
      None \<Rightarrow> ast_where q' = None
    | Some f \<Rightarrow> \<exists>n. normalize_condition B f = Some n \<and> ast_where q' = Some n)"
  by (cases q) (auto simp: bind_Some_iff split: option.splits)

section \<open>LIKE patterns as token lists\<close>

datatype like_tok = TStar | TAny | TChar string

fun tok_match :: "(string \<Rightarrow> string \<Rightarrow> bool) \<Rightarrow> like_tok list \<Rightarrow> string list \<Rightarrow> bool" where
  "tok_match E [] s \<longleftrightarrow> s = []"
| "tok_match E (TStar # ts) s \<longleftrightarrow> (\<exists>n\<in>set [0..<Suc (length s)]. tok_match E ts (drop n s))"
| "tok_match E (TAny # ts) s \<longleftrightarrow> s \<noteq> [] \<and> tok_match E ts (tl s)"
| "tok_match E (TChar c # ts) s \<longleftrightarrow> s \<noteq> [] \<and> E c (hd s) \<and> tok_match E ts (tl s)"

text \<open>The tokens of a pattern; a trailing escape has none.\<close>

fun like_tokens :: "string list \<Rightarrow> like_tok list option" where
  "like_tokens [] = Some []"
| "like_tokens (c # cs) =
     (if c = ''%'' then map_option (Cons TStar) (like_tokens cs)
      else if c = ''_'' then map_option (Cons TAny) (like_tokens cs)
      else if c = [CHR 0x5C] then (case cs of [] \<Rightarrow> None | d # ds \<Rightarrow> map_option (Cons (TChar d)) (like_tokens ds))
      else map_option (Cons (TChar c)) (like_tokens cs))"

fun tok_regex :: "like_tok \<Rightarrow> string" where
  "tok_regex TStar = ''.*''"
| "tok_regex TAny = ''.''"
| "tok_regex (TChar c) = push_literal c"

lemma regex_body_tokens: "regex_body cs = map_option (\<lambda>ts. concat (map tok_regex ts)) (like_tokens cs)"
  by (induction cs rule: regex_body.induct) (auto split: list.splits simp: option.map_comp comp_def)

definition is_char :: "string \<Rightarrow> bool" where
  "is_char c \<longleftrightarrow> c \<noteq> [] \<and> \<not> is_cont (hd c) \<and> (\<forall>b\<in>set (tl c). is_cont b)"

definition text_ok :: "string \<Rightarrow> bool" where
  "text_ok s \<longleftrightarrow> s = [] \<or> \<not> is_cont (hd s)"

definition toks_ok :: "like_tok list \<Rightarrow> bool" where
  "toks_ok ts \<longleftrightarrow> (\<forall>c. TChar c \<in> set ts \<longrightarrow> is_char c)"

text \<open>
  What the regular-expression crate documents for the expressions built here: \<open>.\<close> matches any
  character under the flag \<open>s\<close>, \<open>.*\<close> any number of them, an escaped or ordinary character itself
  (up to case under the flag \<open>i\<close>), between the two anchors.
\<close>

definition like_lib_ok :: "'b like_lib_scheme \<Rightarrow> (string \<Rightarrow> string \<Rightarrow> bool) \<Rightarrow> bool" where
  "like_lib_ok L E \<longleftrightarrow>
     (\<forall>ts. toks_ok ts \<longrightarrow>
        regex_new L (''(?s)^'' @ concat (map tok_regex ts) @ ''$'') = Some (\<lambda>s. tok_match (=) ts (chars s)) \<and>
        regex_new L (''(?is)^'' @ concat (map tok_regex ts) @ ''$'') = Some (\<lambda>s. tok_match E ts (chars s)))"

lemma chars_append: "is_char c \<Longrightarrow> text_ok s \<Longrightarrow> chars (c @ s) = c # chars s"
proof -
  assume c: "is_char c" and s: "text_ok s"
  obtain b bs where b: "c = b # bs" "\<forall>x\<in>set bs. is_cont x" using c by (cases c) (auto simp: is_char_def)
  have "takeWhile is_cont s = []" "dropWhile is_cont s = s" using s by (cases s; auto simp: text_ok_def)+
  then show ?thesis using b by (simp add: takeWhile_append dropWhile_append)
qed

lemma concat_chars [simp]: "concat (chars s) = s"
  by (induction s rule: chars.induct) auto

lemma chars_inj: "chars s = chars t \<longleftrightarrow> s = t"
  by (metis concat_chars)

lemma chars_is_char: "text_ok s \<Longrightarrow> c \<in> set (chars s) \<Longrightarrow> is_char c"
proof (induction s rule: chars.induct)
  case (2 b bs)
  have "text_ok (dropWhile is_cont bs)" unfolding text_ok_def using hd_dropWhile by blast
  moreover have "\<forall>x\<in>set (takeWhile is_cont bs). is_cont x" using set_takeWhileD by fast
  then have "is_char (b # takeWhile is_cont bs)" using 2(2) by (simp add: text_ok_def is_char_def)
  moreover from 2(3) have "c = b # takeWhile is_cont bs \<or> c \<in> set (chars (dropWhile is_cont bs))" by simp
  ultimately show ?case using 2(1) by blast
qed simp

lemma like_tokens_ok: "like_tokens cs = Some ts \<Longrightarrow> TChar c \<in> set ts \<Longrightarrow> c \<in> set cs"
proof (induction cs arbitrary: ts rule: like_tokens.induct)
  case (2 x cs)
  consider "x = ''%''" | "x = ''_''" "x \<noteq> ''%''" | "x = [CHR 0x5C]" | "x \<noteq> ''%''" "x \<noteq> ''_''" "x \<noteq> [CHR 0x5C]" by blast
  then show ?case
  proof cases
    case 3
    with 2(5) obtain d ds us where d: "cs = d # ds" "like_tokens ds = Some us" "ts = TChar d # us"
      by (auto split: list.splits)
    with 2(3) [of d ds us] 3 2(6) show ?thesis by auto
  qed (use 2 in auto)
qed simp

lemma tok_match_literal: "tok_match (=) (map TChar cs) s \<longleftrightarrow> s = cs"
proof (induction cs arbitrary: s)
  case (Cons c cs)
  then show ?case by (cases s) auto
qed auto

lemma like_tokens_plain:
  assumes "\<not> has_wildcards p" "text_ok p"
  shows "like_tokens (chars p) = Some (map TChar (chars p))"
proof -
  have "c \<noteq> ''%'' \<and> c \<noteq> ''_'' \<and> c \<noteq> [CHR 0x5C]" if "c \<in> set (chars p)" for c
  proof -
    have "set c \<subseteq> set p" using that concat_chars [of p] by (metis UN_upper set_concat)
    then show ?thesis using assms(1) by (auto simp: has_wildcards_def)
  qed
  moreover have "like_tokens cs = Some (map TChar cs)"
    if "\<And>c. c \<in> set cs \<Longrightarrow> c \<noteq> ''%'' \<and> c \<noteq> ''_'' \<and> c \<noteq> [CHR 0x5C]" for cs
    using that by (induction cs) auto
  ultimately show ?thesis by blast
qed

locale like_engine =
  fixes L :: "'b like_lib_scheme" and E :: "string \<Rightarrow> string \<Rightarrow> bool"
  assumes ok: "like_lib_ok L E"
begin

lemma regex_match:
  assumes "text_ok p" "has_wildcards p"
  shows "get_like_predicate L p i =
    map_option (\<lambda>ts. LikeRegex (\<lambda>s. tok_match (if i then E else (=)) ts (chars s))) (like_tokens (chars p))"
proof (cases "like_tokens (chars p)")
  case (Some ts)
  have "toks_ok ts" using like_tokens_ok [OF Some] chars_is_char [OF assms(1)] by (auto simp: toks_ok_def)
  then show ?thesis
    using Some ok assms(2)
    by (cases i) (auto simp: get_like_predicate_def pattern_to_regex_def regex_body_tokens like_lib_ok_def)
qed (use assms in \<open>simp add: get_like_predicate_def pattern_to_regex_def regex_body_tokens\<close>)

lemma like_correct:
  assumes "text_ok p"
  shows "map_option (\<lambda>q. like_predicate_matches L q s) (get_like_predicate L p False) =
    map_option (\<lambda>ts. tok_match (=) ts (chars s)) (like_tokens (chars p))"
proof (cases "has_wildcards p")
  case True
  then show ?thesis
    using regex_match [OF assms True, of False] by (simp add: option.map_comp comp_def like_predicate_matches_def)
next
  case False
  then show ?thesis
    using like_tokens_plain [OF False assms] tok_match_literal
    by (simp add: get_like_predicate_def like_predicate_matches_def chars_inj)
qed

end

subsection \<open>A reader of these expressions\<close>

fun read_toks :: "string list \<Rightarrow> like_tok list" where
  "read_toks [] = []"
| "read_toks [c] = []"
| "read_toks (c # d # cs) =
     (if c = ''.'' then if d = ''*'' then TStar # read_toks cs else TAny # read_toks (d # cs)
      else if c = [CHR 0x5C] then TChar d # read_toks cs
      else TChar c # read_toks (d # cs))"

definition std_like :: like_lib where
  "std_like = \<lparr>lowercase = (\<lambda>s. s),
     regex_new = (\<lambda>re. Some (\<lambda>s. tok_match (=)
        (read_toks (chars (if take 5 re = ''(?s)^'' then drop 5 re else drop 6 re))) (chars s)))\<rparr>"

lemma is_char_ascii: "(of_char c :: nat) < 128 \<Longrightarrow> is_char [c]"
  by (simp add: is_char_def is_cont_def)

lemma text_ok_char: "is_char c \<Longrightarrow> text_ok (c @ s)"
  by (cases c) (auto simp: is_char_def text_ok_def)

lemma text_ok_toks: "toks_ok ts \<Longrightarrow> text_ok (concat (map tok_regex ts) @ ''$'')"
proof (cases ts)
  case (Cons t us)
  assume "toks_ok ts"
  then have "\<not> is_cont (hd (tok_regex t))" "tok_regex t \<noteq> []"
    using Cons by (cases t; auto simp: toks_ok_def push_literal_def is_cont_def is_char_def)+
  then show ?thesis using Cons by (simp add: text_ok_def)
qed (simp add: text_ok_def is_cont_def)

lemma chars_ascii: "(of_char c :: nat) < 128 \<Longrightarrow> text_ok s \<Longrightarrow> chars (c # s) = [c] # chars s"
  using chars_append [OF is_char_ascii, of c s] by simp

lemma chars_toks:
  "toks_ok ts \<Longrightarrow> chars (concat (map tok_regex ts) @ ''$'') =
     concat (map (\<lambda>t. case t of TStar \<Rightarrow> [''.'', ''*''] | TAny \<Rightarrow> [''.'']
       | TChar c \<Rightarrow> if is_special_regex_char c then [[CHR 0x5C], c] else [c]) ts) @ [''$'']"
proof (induction ts)
  case Nil
  show ?case using chars_ascii [of "CHR ''$''" "[]"] by (simp add: text_ok_def)
next
  case (Cons t ts)
  then have us: "toks_ok ts" by (auto simp: toks_ok_def)
  note T = text_ok_toks [OF us] and IH = Cons.IH [OF us]
  show ?case
  proof (cases t)
    case TStar
    have "text_ok (CHR ''*'' # concat (map tok_regex ts) @ ''$'')" by (simp add: text_ok_def is_cont_def)
    then show ?thesis using T IH TStar by (simp add: chars_ascii del: chars.simps)
  next
    case TAny
    then show ?thesis using T IH by (simp add: chars_ascii del: chars.simps)
  next
    case (TChar c)
    then have c: "is_char c" using Cons.prems by (auto simp: toks_ok_def)
    show ?thesis
      using TChar T IH chars_append [OF c T] chars_ascii [of "CHR 0x5C", OF _ text_ok_char [OF c]]
      by (simp add: push_literal_def del: chars.simps)
  qed
qed

lemma read_toks_inverse:
  assumes "toks_ok ts"
  shows "read_toks (concat (map (\<lambda>t. case t of TStar \<Rightarrow> [''.'', ''*''] | TAny \<Rightarrow> [''.'']
       | TChar c \<Rightarrow> if is_special_regex_char c then [[CHR 0x5C], c] else [c]) ts) @ [''$'']) = ts"
    (is "read_toks (?r ts @ _) = ts")
  using assms
proof (induction ts)
  case (Cons t ts)
  then have IH: "read_toks (?r ts @ [''$'']) = ts" by (auto simp: toks_ok_def)
  obtain d ds where d: "?r ts @ [''$''] = d # ds" by (cases "?r ts @ [''$'']") auto
  have "d \<noteq> ''*''"
  proof (cases ts)
    case (Cons u us)
    then show ?thesis using d by (cases u) (auto simp: is_special_regex_char_def split: if_splits)
  qed (use d in auto)
  then show ?case
    using IH d by (cases t) (auto simp: is_special_regex_char_def)
qed simp

interpretation std_like: like_engine std_like "(=)"
proof (unfold_locales, unfold like_lib_ok_def, intro allI impI)
  fix ts assume "toks_ok ts"
  then have "read_toks (chars (concat (map tok_regex ts) @ ''$'')) = ts"
    by (simp add: chars_toks read_toks_inverse)
  then show "regex_new std_like (''(?s)^'' @ concat (map tok_regex ts) @ ''$'') = Some (\<lambda>s. tok_match (=) ts (chars s)) \<and>
      regex_new std_like (''(?is)^'' @ concat (map tok_regex ts) @ ''$'') = Some (\<lambda>s. tok_match (=) ts (chars s))"
    by (simp add: std_like_def)
qed

section \<open>Primary-key lookups\<close>

text \<open>\<open>zero-cache-zql/src/ivm/constraint.rs\<close>: the constraint a condition puts on a primary key.\<close>

fun pull_simple_and_components :: "condition \<Rightarrow> (simple_operator \<times> value_position \<times> value_position) list"
  and pull_components :: "condition list \<Rightarrow> (simple_operator \<times> value_position \<times> value_position) list" where
  "pull_simple_and_components (And cs) = pull_components cs"
| "pull_simple_and_components (Simple op l r) = [(op, l, r)]"
| "pull_simple_and_components (Or [c]) = pull_simple_and_components c"
| "pull_simple_and_components _ = []"
| "pull_components [] = []"
| "pull_components (c # cs) = pull_simple_and_components c @ pull_components cs"

fun extract_column :: "value_position \<Rightarrow> value_position \<Rightarrow> (string \<times> json) option option" where
  "extract_column (VColumn col) (VLiteral lit) = Some (Some (col, literal_to_value lit))"
| "extract_column (VColumn col) r = None"
| "extract_column l r = Some None"

fun pk_loop :: "primary_key \<Rightarrow> (simple_operator \<times> value_position \<times> value_position) list \<Rightarrow> constraint option" where
  "pk_loop primary [] = Some []"
| "pk_loop primary ((op, l, r) # cs) =
     (if op \<noteq> OpEq then pk_loop primary cs
      else do {
        e \<leftarrow> extract_column l r;
        rest \<leftarrow> pk_loop primary cs;
        Some (case e of Some (name, v) \<Rightarrow> if name \<in> set primary then (name, v) # rest else rest | None \<Rightarrow> rest)
      })"

definition primary_key_constraint_from_filters :: "condition option \<Rightarrow> primary_key \<Rightarrow> constraint option option" where
  "primary_key_constraint_from_filters c primary =
     (case c of
        None \<Rightarrow> Some None
      | Some condition \<Rightarrow>
          let conditions = pull_simple_and_components condition in
          if conditions = [] then Some None
          else do {
            result \<leftarrow> pk_loop primary conditions;
            Some (if length result \<noteq> length primary then None else Some result)
          })"

lemma all_opt_True: "all_opt ps row = Some True \<Longrightarrow> p \<in> set ps \<Longrightarrow> p row = Some True"
  by (induction ps) (auto simp: bind_Some_iff split: if_splits)

lemma eval_And_True: "eval_cond L ex row (And cs) = Some True \<Longrightarrow> c \<in> set cs \<Longrightarrow> eval_cond L ex row c = Some True"
proof (induction cs)
  case (Cons d cs)
  then show ?case
    by (auto simp: eval_cond_def create_predicates_map bind_Some_iff split: if_splits)
qed simp

lemma eval_Or1_True: "eval_cond L ex row (Or [c]) = Some True \<Longrightarrow> eval_cond L ex row c = Some True"
  by (auto simp: eval_cond_def bind_Some_iff split: if_splits)

lemma pulled_true:
  "eval_cond L ex row c = Some True \<Longrightarrow> (op, l, r) \<in> set (pull_simple_and_components c) \<Longrightarrow>
     eval_cond L ex row (Simple op l r) = Some True"
  "(\<forall>c\<in>set cs. eval_cond L ex row c = Some True) \<Longrightarrow> (op, l, r) \<in> set (pull_components cs) \<Longrightarrow>
     eval_cond L ex row (Simple op l r) = Some True"
proof (induction c and cs rule: pull_simple_and_components_pull_components.induct)
  case (1 cs)
  then show ?case using eval_And_True [of L ex row cs] by simp
next
  case (3 c)
  then show ?case using eval_Or1_True [of L ex row c] by simp
qed auto

lemma pk_loop_mem:
  "pk_loop primary cs = Some con \<Longrightarrow> (k, v) \<in> set con \<Longrightarrow>
   k \<in> set primary \<and> (\<exists>lit. v = literal_to_value lit \<and> (OpEq, VColumn k, VLiteral lit) \<in> set cs)"
proof (induction cs arbitrary: con)
  case (Cons x cs)
  obtain opr l r where x: "x = (opr, l, r)" by (cases x)
  show ?case
  proof (cases "opr = OpEq")
    case True
    with x Cons.prems(1) obtain e rest where ext: "extract_column l r = Some e" and rest: "pk_loop primary cs = Some rest"
      and con: "con = (case e of Some (name, v) \<Rightarrow> if name \<in> set primary then (name, v) # rest else rest | None \<Rightarrow> rest)"
      by (auto simp: bind_Some_iff)
    note IH = Cons.IH [OF rest]
    show ?thesis
      using ext con IH True x Cons.prems(2) by (cases l; cases r) (auto split: if_splits, blast+)
  next
    case False
    then show ?thesis using Cons x by auto
  qed
qed simp

lemma eval_eq_column:
  assumes "eval_cond L ex row (Simple OpEq (VColumn k) (VLiteral lit)) = Some True"
  shows "values_equal (get row k) (literal_to_value lit)"
  using assms
  by (auto simp: eval_cond_def create_simple_predicate_def values_equal_def Let_def split: if_splits)

lemma pk_constraint_eq:
  "primary_key_constraint_from_filters (Some c) pk = Some (Some con) \<Longrightarrow>
   pk_loop pk (pull_simple_and_components c) = Some con \<and> length con = length pk"
  by (auto simp: primary_key_constraint_from_filters_def Let_def bind_Some_iff split: if_splits)

section \<open>Properties\<close>




definition sample_cond :: condition where
  "sample_cond = And [Or [Simple OpGt (VColumn ''b'') (VLiteral (LitNumber (F_Fin 3)))], Simple OpEq (VColumn ''a'') (VLiteral (LitNumber (F_Fin 1)))]"


text \<open>
  An empty disjunction, which no row satisfies, is dropped by normalization, so that the
  normalized query has no condition.
\<close>

theorem normalize_drops_empty_or:
  "normalize_ast B (Ast schema table alias (Some (Or [])) None st lmt ord) = Some (Ast schema table alias None None st lmt ord) \<and>
   eval_cond L ex row (Or []) = Some False"
  by (simp add: rejoin_def eval_cond_def)

text \<open>
  The comparator that orders conditions is not an order: a subquery condition and a
  conjunction are each less than the other.
\<close>

theorem cmp_condition_not_antisymmetric:
  "cmp_condition B (Correlated r op f s p) (And cs) = Some Less \<and> cmp_condition B (And cs) (Correlated r op f s p) = Some Less"
  by simp

text \<open>
  C40. The constraint read off a condition is implied by it: every row that satisfies the condition
  matches the constraint, whose columns are primary-key columns.
\<close>

theorem pk_constraint_sound:
  assumes "primary_key_constraint_from_filters (Some c) pk = Some (Some con)" "eval_cond L ex row c = Some True"
  shows "constraint_matches_row con row \<and> fst ` set con \<subseteq> set pk"
proof -
  note con = pk_constraint_eq [OF assms(1)]
  have "values_equal (get row k) v \<and> k \<in> set pk" if "(k, v) \<in> set con" for k v
    using pk_loop_mem [OF conjunct1 [OF con] that] pulled_true(1) [OF assms(2)] eval_eq_column by blast
  then show ?thesis by (auto simp: constraint_matches_row_def list_all_iff)
qed

theorem pk_constraint_sound_witness:
  "constraint_matches_row [(''id'', JString ''x'')] [(''id'', JString ''x''), (''a'', JNull)]"
proof -
  let ?c = "And [Simple OpEq (VColumn ''id'') (VLiteral (LitString ''x''))]"
  have "primary_key_constraint_from_filters (Some ?c) [''id''] = Some (Some [(''id'', JString ''x'')])" by code_simp
  moreover have "eval_cond std_like (\<lambda>_ _. None) [(''id'', JString ''x''), (''a'', JNull)] ?c = Some True" by code_simp
  ultimately show ?thesis using pk_constraint_sound by blast
qed

text \<open>
  A condition that pins one key column twice is taken for a full key lookup although it leaves
  another key column free.
\<close>

theorem pk_constraint_duplicate:
  "primary_key_constraint_from_filters
     (Some (And [Simple OpEq (VColumn ''a'') (VLiteral LitNull), Simple OpEq (VColumn ''a'') (VLiteral (LitBool True))])) [''a'', ''b''] =
   Some (Some [(''a'', JNull), (''a'', JBool True)])"
  by code_simp

end
