(* ===== verification/Cvr_Version.thy ===== *)
theory Cvr_Version
  imports Lexi_Version "HOL-Library.Product_Lexorder"
begin

text \<open>
  Versions of a client view record (\<open>zero-cache-view-syncer/src\<close>: \<open>cvr_version.rs\<close>,
  \<open>cvr_updater.rs\<close>): the replica's state version and a counter of configuration changes, the
  cookie strings clients hold, and the version bump of an updater.
\<close>

section \<open>Versions\<close>

record cvr_version =
  state_ver :: string
  config_ver :: "int option"

definition config_or_0 :: "cvr_version \<Rightarrow> int" where
  "config_or_0 v = (case config_ver v of None \<Rightarrow> 0 | Some c \<Rightarrow> c)"

definition zero_version :: "'a text_lib_scheme \<Rightarrow> string option" where
  "zero_version B = (case version_to_lexi B (V_Num (f64_of_i64 0)) of Inl _ \<Rightarrow> None | Inr s \<Rightarrow> Some s)"

definition empty_cvr_version :: "'a text_lib_scheme \<Rightarrow> cvr_version option" where
  "empty_cvr_version B = do { s \<leftarrow> zero_version B; Some \<lparr>state_ver = s, config_ver = None\<rparr> }"

definition one_after :: "'a text_lib_scheme \<Rightarrow> cvr_version option \<Rightarrow> cvr_version option" where
  "one_after B v =
     (case v of
        None \<Rightarrow> do { s \<leftarrow> zero_version B; Some \<lparr>state_ver = s, config_ver = None\<rparr> }
      | Some v \<Rightarrow> Some \<lparr>state_ver = state_ver v, config_ver = Some (i64_add (config_or_0 v) 1)\<rparr>)"

definition cmp_versions :: "cvr_version option \<Rightarrow> cvr_version option \<Rightarrow> int" where
  "cmp_versions a b =
     (case (a, b) of
        (None, None) \<Rightarrow> 0
      | (None, Some _) \<Rightarrow> - 1
      | (Some _, None) \<Rightarrow> 1
      | (Some a, Some b) \<Rightarrow>
          if state_ver a < state_ver b then - 1
          else if state_ver a > state_ver b then 1
          else i64_sub (config_or_0 a) (config_or_0 b))"

definition max_version :: "cvr_version \<Rightarrow> cvr_version option \<Rightarrow> cvr_version" where
  "max_version a b =
     (case b of
        None \<Rightarrow> a
      | Some b \<Rightarrow> if cmp_versions (Some b) (Some a) > 0 then b else a)"

section \<open>Cookies\<close>

datatype version_error = InvalidCookie string | ConfigVersionOverflow string

text \<open>The text of an error is the parameter \<open>show_err\<close> (its \<open>Display\<close>).\<close>

definition version_to_cookie ::
  "'a text_lib_scheme \<Rightarrow> (lexi_error \<Rightarrow> string) \<Rightarrow> cvr_version \<Rightarrow> version_error + string" where
  "version_to_cookie B show_err v =
     (case config_ver v of
        None \<Rightarrow> Inr (state_ver v)
      | Some cv \<Rightarrow>
          if cv = 0 then Inr (state_ver v)
          else case version_to_lexi B (V_Num (f64_of_i64 cv)) of
              Inl e \<Rightarrow> Inl (InvalidCookie (show_err e))
            | Inr lexi \<Rightarrow> Inr (state_ver v @ '':'' @ lexi))"

definition version_to_nullable_cookie ::
  "'a text_lib_scheme \<Rightarrow> (lexi_error \<Rightarrow> string) \<Rightarrow> cvr_version option \<Rightarrow> version_error + string option" where
  "version_to_nullable_cookie B show_err v =
     (case v of
        None \<Rightarrow> Inr None
      | Some v \<Rightarrow> (case version_to_cookie B show_err v of Inl e \<Rightarrow> Inl e | Inr c \<Rightarrow> Inr (Some c)))"

text \<open>A panic is \<open>None\<close>: in \<open>version_from_lexi\<close>, or in the conversion to an \<open>i64\<close>.\<close>

definition version_from_string :: "'a text_lib_scheme \<Rightarrow> string \<Rightarrow> (version_error + cvr_version) option" where
  "version_from_string B str =
     (let parts = split_on (CHR '':'') str in
      if length parts = 1 then
        do {
          r \<leftarrow> state_version_from_string B (parts ! 0);
          Some (case r of
             Inl _ \<Rightarrow> Inl (InvalidCookie str)
           | Inr _ \<Rightarrow> Inr \<lparr>state_ver = parts ! 0, config_ver = None\<rparr>)
        }
      else if length parts = 2 then
        do {
          r \<leftarrow> version_from_lexi B (parts ! 1);
          case r of
            Inl _ \<Rightarrow> Some (Inl (InvalidCookie str))
          | Inr cv \<Rightarrow>
              if cv > max_safe_integer then Some (Inl (ConfigVersionOverflow (parts ! 1)))
              else if - (2 ^ 63) \<le> cv \<and> cv < 2 ^ 63
                then Some (Inr \<lparr>state_ver = parts ! 0, config_ver = Some cv\<rparr>)
              else None
        }
      else Some (Inl (InvalidCookie str)))"

definition cookie_to_version ::
  "'a text_lib_scheme \<Rightarrow> string option \<Rightarrow> (version_error + cvr_version option) option" where
  "cookie_to_version B cookie =
     (case cookie of
        None \<Rightarrow> Some (Inr None)
      | Some c \<Rightarrow> do {
          r \<leftarrow> version_from_string B c;
          Some (case r of Inl e \<Rightarrow> Inl e | Inr v \<Rightarrow> Inr (Some v))
        })"

section \<open>The version bump of an updater\<close>

definition set_version :: "cvr_version \<Rightarrow> cvr_version \<Rightarrow> cvr_version option" where
  "set_version current new_version =
     do { assert_ok (cmp_versions (Some current) (Some new_version) < 0); Some new_version }"

text \<open>The new value of \<open>current\<close>, which is also what the function returns.\<close>

definition ensure_new_version :: "'a text_lib_scheme \<Rightarrow> cvr_version \<Rightarrow> cvr_version \<Rightarrow> cvr_version option" where
  "ensure_new_version B orig current =
     (if cmp_versions (Some orig) (Some current) = 0
      then do { n \<leftarrow> one_after B (Some current); set_version current n }
      else Some current)"

section \<open>The order of versions\<close>

text \<open>Configuration counters stay far from the ends of \<open>i64\<close>: cookies carry at most \<open>2 ^ 53 - 1\<close>.\<close>

definition version_ok :: "cvr_version \<Rightarrow> bool" where
  "version_ok v \<longleftrightarrow> 0 \<le> config_or_0 v \<and> config_or_0 v < 2 ^ 62"

definition version_key :: "cvr_version \<Rightarrow> string \<times> int" where
  "version_key v = (state_ver v, config_or_0 v)"

definition opt_key :: "cvr_version option \<Rightarrow> nat \<times> string \<times> int" where
  "opt_key v = (case v of None \<Rightarrow> (0, '''', 0) | Some v \<Rightarrow> (1, version_key v))"

lemma cmp_versions_key:
  assumes "\<And>v. a = Some v \<Longrightarrow> version_ok v" "\<And>v. b = Some v \<Longrightarrow> version_ok v"
  shows "cmp_versions a b < 0 \<longleftrightarrow> opt_key a < opt_key b"
    and "cmp_versions a b = 0 \<longleftrightarrow> opt_key a = opt_key b"
    and "cmp_versions a b > 0 \<longleftrightarrow> opt_key b < opt_key a"
proof -
  have s: "i64_sub (config_or_0 v) (config_or_0 w) = config_or_0 v - config_or_0 w"
    if "a = Some v" "b = Some w" for v w
    using assms that by (intro i64_sub_small) (auto simp: version_ok_def)
  show "cmp_versions a b < 0 \<longleftrightarrow> opt_key a < opt_key b" "cmp_versions a b = 0 \<longleftrightarrow> opt_key a = opt_key b"
    "cmp_versions a b > 0 \<longleftrightarrow> opt_key b < opt_key a"
    using s by (auto simp: cmp_versions_def opt_key_def version_key_def split: option.splits)
qed

lemma cmp_versions_Some:
  assumes "version_ok v" "version_ok w"
  shows "cmp_versions (Some v) (Some w) < 0 \<longleftrightarrow> version_key v < version_key w"
    and "cmp_versions (Some v) (Some w) = 0 \<longleftrightarrow> version_key v = version_key w"
    and "cmp_versions (Some v) (Some w) > 0 \<longleftrightarrow> version_key w < version_key v"
  using cmp_versions_key [of "Some v" "Some w"] assms by (auto simp: opt_key_def)

lemma max_version_key:
  assumes "version_ok a" "\<And>v. b = Some v \<Longrightarrow> version_ok v"
  shows "version_ok (max_version a b)" and "version_key a \<le> version_key (max_version a b)"
    and "b = Some v \<Longrightarrow> version_key v \<le> version_key (max_version a b)"
  using assms cmp_versions_Some(3) [of "the b" a]
  by (auto simp: max_version_def not_less split: option.splits)

lemma bump_key:
  assumes "version_ok v" "config_or_0 v < 2 ^ 53" "one_after B (Some v) = Some w"
  shows "version_ok w" and "version_key v < version_key w" and "state_ver w = state_ver v"
    and "config_ver w = Some (config_or_0 v + 1)"
proof -
  have "i64_add (config_or_0 v) 1 = config_or_0 v + 1"
    using assms(1,2) by (intro i64_add_small) (auto simp: version_ok_def)
  then have w: "w = \<lparr>state_ver = state_ver v, config_ver = Some (config_or_0 v + 1)\<rparr>"
    using assms(3) by (simp add: one_after_def)
  show "version_ok w" using w assms(1,2) by (simp add: version_ok_def config_or_0_def)
  show "version_key v < version_key w" by (simp add: w version_key_def config_or_0_def)
  show "state_ver w = state_ver v" "config_ver w = Some (config_or_0 v + 1)" by (simp_all add: w)
qed

lemma one_after_Some: "\<exists>w. one_after B (Some v) = Some w"
  by (simp add: one_after_def)

lemma ensure_new_version_key:
  assumes "version_ok orig" "version_ok cur" "config_or_0 cur < 2 ^ 53"
  shows "\<exists>new. ensure_new_version B orig cur = Some new \<and> version_ok new \<and>
    version_key cur \<le> version_key new \<and> version_key new \<noteq> version_key orig \<and>
    ensure_new_version B orig new = Some new"
proof (cases "version_key orig = version_key cur")
  case True
  obtain w where w: "one_after B (Some cur) = Some w" using one_after_Some by blast
  note b = bump_key [OF assms(2,3) w]
  have "cmp_versions (Some cur) (Some w) < 0" "cmp_versions (Some orig) (Some w) \<noteq> 0"
    using b True assms by (auto simp: cmp_versions_Some)
  with True w b assms show ?thesis
    by (auto simp: ensure_new_version_def set_version_def cmp_versions_Some)
next
  case False
  then have "cmp_versions (Some orig) (Some cur) \<noteq> 0" using assms by (simp add: cmp_versions_Some)
  then show ?thesis using False assms by (auto simp: ensure_new_version_def)
qed

section \<open>Cookies of versions\<close>

definition cookie_of :: "string \<Rightarrow> int \<Rightarrow> string" where
  "cookie_of s c = (if c = 0 then s else s @ '':'' @ lexi_text (nat c))"

lemma num_to_lexi:
  assumes "0 \<le> c" "c < 2 ^ 53"
  shows "version_to_lexi B (V_Num (f64_of_i64 c)) = version_to_lexi B (V_Big c)"
  using assms f64_of_i64_small [OF assms]
  by (simp add: version_to_lexi_def version_big_def max_safe_integer_def cmp_linorder_def of_int_le_iff [symmetric])

lemma encodable_config: "0 \<le> c \<Longrightarrow> c < 2 ^ 53 \<Longrightarrow> encodable c"
proof -
  assume "0 \<le> c" "c < 2 ^ 53"
  moreover have "(2 :: int) ^ 53 \<le> 36 ^ 36" by simp
  ultimately show "encodable c" unfolding encodable_def by linarith
qed

context text_codec
begin

lemma to_cookie:
  assumes "0 \<le> config_or_0 v" "config_or_0 v < 2 ^ 53"
  shows "version_to_cookie B e v = Inr (cookie_of (state_ver v) (config_or_0 v))"
proof (cases "config_ver v")
  case (Some c)
  have "version_to_lexi B (V_Num (f64_of_i64 c)) = Inr (lexi_text (nat c))"
    using assms Some num_to_lexi [of c B] encodable_config [of c] by (simp add: config_or_0_def to_lexi)
  then show ?thesis using Some by (simp add: version_to_cookie_def cookie_of_def config_or_0_def)
qed (simp add: version_to_cookie_def cookie_of_def config_or_0_def)

lemma state_string_plain:
  assumes "state_version_to_string B sv = Inr s"
  shows "CHR '':'' \<notin> set s" and "state_version_from_string B s = Some (Inr sv)"
proof -
  note S = assms [unfolded state_to_string]
  show "CHR '':'' \<notin> set s"
    using S lexi_text_chars [OF encodable_nat] by (auto split: option.splits)
  show "state_version_from_string B s = Some (Inr sv)"
    using S state_from_string [OF encodable_nat encodable_nat]
    by (cases sv) (auto simp: encodable_def split: option.splits)
qed

lemma from_cookie:
  assumes "state_version_to_string B sv = Inr s" "0 \<le> c" "c < 2 ^ 53"
  shows "version_from_string B (cookie_of s c) =
    Some (Inr \<lparr>state_ver = s, config_ver = (if c = 0 then None else Some c)\<rparr>)"
proof -
  note S = state_string_plain [OF assms(1)]
  have e: "encodable (int (nat c))" using encodable_config assms by simp
  note T = lexi_text_chars [OF e, THEN conjunct2]
  show ?thesis
  proof (cases "c = 0")
    case True
    then show ?thesis using S by (simp add: version_from_string_def cookie_of_def split_on_none)
  next
    case False
    have "split_on (CHR '':'') (cookie_of s c) = [s, lexi_text (nat c)]"
      using False S(1) T split_on_two by (simp add: cookie_of_def)
    then show ?thesis
      using False from_lexi [OF e] assms by (simp add: version_from_string_def max_safe_integer_def)
  qed
qed

end

section \<open>Properties\<close>

text \<open>
  \<open>cmp_versions\<close> is the total order that puts no version first and then compares state
  versions as strings and configuration counters as numbers, an absent counter being 0; the
  subtraction of counters does not overflow.
\<close>

theorem cmp_versions_order:
  assumes "\<And>v. a = Some v \<Longrightarrow> version_ok v" "\<And>v. b = Some v \<Longrightarrow> version_ok v"
  shows "(cmp_versions a b < 0 \<longleftrightarrow> opt_key a < opt_key b) \<and> (cmp_versions a b = 0 \<longleftrightarrow> opt_key a = opt_key b) \<and>
    (cmp_versions a b > 0 \<longleftrightarrow> opt_key b < opt_key a)"
  using cmp_versions_key [OF assms] by simp

theorem cmp_versions_order_witness:
  "cmp_versions (Some \<lparr>state_ver = ''01'', config_ver = Some 3\<rparr>) (Some \<lparr>state_ver = ''01'', config_ver = None\<rparr>) > 0"
  using cmp_versions_order [of "Some \<lparr>state_ver = ''01'', config_ver = Some 3\<rparr>" "Some \<lparr>state_ver = ''01'', config_ver = None\<rparr>"]
  by (auto simp: version_ok_def config_or_0_def opt_key_def version_key_def)

text \<open>
  C35. An updater's version bump: when the current version is not behind the original one,
  \<open>ensure_new_version\<close> does not panic and gives a version above the original and not below the
  current one; a second call changes nothing.
\<close>

theorem ensure_new_version_bumps:
  assumes "version_ok orig" "version_ok cur" "config_or_0 cur < 2 ^ 53" "version_key orig \<le> version_key cur"
  shows "\<exists>new. ensure_new_version B orig cur = Some new \<and> cmp_versions (Some orig) (Some new) < 0 \<and>
    cmp_versions (Some cur) (Some new) \<le> 0 \<and> ensure_new_version B orig new = Some new"
proof -
  obtain new where n: "ensure_new_version B orig cur = Some new" "version_ok new"
    "version_key cur \<le> version_key new" "version_key new \<noteq> version_key orig" "ensure_new_version B orig new = Some new"
    using ensure_new_version_key [OF assms(1-3)] by blast
  have "version_key orig < version_key new" using n assms(4) by force
  moreover have "cmp_versions (Some cur) (Some new) \<le> 0"
    using cmp_versions_Some(3) [OF assms(2) n(2)] n(3) by (simp add: not_less [symmetric])
  ultimately show ?thesis using n assms by (auto simp: cmp_versions_Some)
qed

theorem ensure_new_version_bumps_witness:
  "\<exists>new. ensure_new_version std_text \<lparr>state_ver = ''01'', config_ver = None\<rparr> \<lparr>state_ver = ''01'', config_ver = None\<rparr> = Some new \<and>
    cmp_versions (Some \<lparr>state_ver = ''01'', config_ver = None\<rparr>) (Some new) < 0"
  using ensure_new_version_bumps [of "\<lparr>state_ver = ''01'', config_ver = None\<rparr>" "\<lparr>state_ver = ''01'', config_ver = None\<rparr>" std_text]
  by (auto simp: version_ok_def config_or_0_def)

text \<open>
  C36. Cookies: the cookie of a version whose state version is well formed and whose counter is at
  most \<open>2 ^ 53 - 1\<close> is produced and parses back to a version that compares equal to it.
\<close>

theorem cookie_roundtrip:
  assumes "text_lib_ok B" "state_version_to_string B sv = Inr (state_ver v)"
    and "0 \<le> config_or_0 v" "config_or_0 v < 2 ^ 53"
  shows "\<exists>c w. version_to_cookie B e v = Inr c \<and> version_from_string B c = Some (Inr w) \<and>
    cmp_versions (Some w) (Some v) = 0 \<and> (config_ver v \<noteq> Some 0 \<longrightarrow> w = v)"
proof -
  from assms(1) have codec: "text_codec B" by (rule text_codec.intro)
  let ?w = "\<lparr>state_ver = state_ver v, config_ver = (if config_or_0 v = 0 then None else Some (config_or_0 v))\<rparr>"
  have "cmp_versions (Some ?w) (Some v) = 0" by (simp add: cmp_versions_def config_or_0_def i64_sub_def)
  moreover have "config_ver v \<noteq> Some 0 \<longrightarrow> ?w = v"
    by (cases v) (auto simp: config_or_0_def split: option.splits)
  ultimately show ?thesis
    using text_codec.to_cookie [OF codec assms(3,4), of e] text_codec.from_cookie [OF codec assms(2-4)] by blast
qed

theorem cookie_roundtrip_witness:
  "\<exists>c w. version_to_cookie std_text (\<lambda>_. '''') \<lparr>state_ver = ''01.02'', config_ver = Some 5\<rparr> = Inr c \<and>
    version_from_string std_text c = Some (Inr w) \<and> w = \<lparr>state_ver = ''01.02'', config_ver = Some 5\<rparr>"
proof -
  have "state_version_to_string std_text \<lparr>sv_major = 1, sv_minor = Some 2\<rparr> = Inr ''01.02''" by code_simp
  then show ?thesis
    using cookie_roundtrip [OF std.ok, of "\<lparr>sv_major = 1, sv_minor = Some 2\<rparr>" "\<lparr>state_ver = ''01.02'', config_ver = Some 5\<rparr>" "\<lambda>_. ''''"]
    by (auto simp: config_or_0_def)
qed

text \<open>
  For state versions without a minor part, cookies are ordered as strings the way
  \<open>cmp_versions\<close> orders the versions.
\<close>

theorem cookie_order_major:
  assumes "text_lib_ok B" "version_to_lexi B (V_Big a) = Inr (state_ver v)" "version_to_lexi B (V_Big b) = Inr (state_ver w)"
    and "0 \<le> config_or_0 v" "config_or_0 v < 2 ^ 53" "0 \<le> config_or_0 w" "config_or_0 w < 2 ^ 53"
    and "version_to_cookie B e v = Inr c" "version_to_cookie B e w = Inr d"
  shows "c < d \<longleftrightarrow> cmp_versions (Some v) (Some w) < 0"
proof -
  from assms(1) have codec: "text_codec B" by (rule text_codec.intro)
  have ab: "encodable a" "state_ver v = lexi_text (nat a)" "encodable b" "state_ver w = lexi_text (nat b)"
    using assms(2,3) by (auto simp: text_codec.to_lexi [OF codec] split: if_splits)
  have n: "state_ver v < state_ver w \<longleftrightarrow> a < b" "state_ver v = state_ver w \<longleftrightarrow> a = b"
    using ab lexi_int_less(4) [of a b] lexi_int_less(4) [of b a] by (auto simp: linorder_neq_iff)
  have cd: "c = cookie_of (state_ver v) (config_or_0 v)" "d = cookie_of (state_ver w) (config_or_0 w)"
    using assms(8,9) text_codec.to_cookie [OF codec assms(4,5), of e] text_codec.to_cookie [OF codec assms(6,7), of e]
    by simp_all
  have e: "encodable (config_or_0 v)" "encodable (config_or_0 w)" using assms(4-7) encodable_config by auto
  have "c < d \<longleftrightarrow> a < b \<or> a = b \<and> config_or_0 v < config_or_0 w"
    using ab e assms(4,6) by (auto simp: cd cookie_of_def lexi_int_less)
  moreover have "version_ok v" "version_ok w" using assms(4-7) by (auto simp: version_ok_def)
  ultimately show ?thesis by (auto simp: cmp_versions_Some version_key_def n order_le_less)
qed

theorem cookie_order_major_witness:
  "version_to_cookie std_text (\<lambda>_. '''') \<lparr>state_ver = ''01'', config_ver = Some 9\<rparr> = Inr ''01:09'' \<and>
   version_to_cookie std_text (\<lambda>_. '''') \<lparr>state_ver = ''0z'', config_ver = None\<rparr> = Inr ''0z'' \<and>
   (''01:09'' < ''0z'' \<longleftrightarrow> cmp_versions (Some \<lparr>state_ver = ''01'', config_ver = Some 9\<rparr>) (Some \<lparr>state_ver = ''0z'', config_ver = None\<rparr>) < 0)"
proof -
  have c: "version_to_cookie std_text (\<lambda>_. '''') \<lparr>state_ver = ''01'', config_ver = Some 9\<rparr> = Inr ''01:09''"
    "version_to_cookie std_text (\<lambda>_. '''') \<lparr>state_ver = ''0z'', config_ver = None\<rparr> = Inr ''0z''"
    "version_to_lexi std_text (V_Big 1) = Inr ''01''" "version_to_lexi std_text (V_Big 35) = Inr ''0z''" by code_simp+
  then show ?thesis
    using cookie_order_major [OF std.ok, of 1 "\<lparr>state_ver = ''01'', config_ver = Some 9\<rparr>" 35
        "\<lparr>state_ver = ''0z'', config_ver = None\<rparr>" "\<lambda>_. ''''" "''01:09''" "''0z''"]
    by (simp add: config_or_0_def)
qed

text \<open>
  With a minor part the two orders disagree: the version \<open>01\<close> with counter 1 is below the
  version \<open>01.02\<close>, but its cookie is above.
\<close>

theorem cookie_order_minor:
  "\<exists>v w c d. state_version_from_string std_text (state_ver w) = Some (Inr \<lparr>sv_major = 1, sv_minor = Some 2\<rparr>) \<and>
    cmp_versions (Some v) (Some w) < 0 \<and>
    version_to_cookie std_text e v = Inr c \<and> version_to_cookie std_text e w = Inr d \<and> d < c"
proof -
  let ?v = "\<lparr>state_ver = ''01'', config_ver = Some 1\<rparr>" and ?w = "\<lparr>state_ver = ''01.02'', config_ver = None\<rparr>"
  have "state_version_from_string std_text (state_ver ?w) = Some (Inr \<lparr>sv_major = 1, sv_minor = Some 2\<rparr>)"
    "cmp_versions (Some ?v) (Some ?w) < 0" "version_to_cookie std_text e ?w = Inr ''01.02''" "''01.02'' < ''01:01''"
    by code_simp+
  moreover have "version_to_cookie std_text e ?v = Inr ''01:01''"
    using std.to_cookie [of ?v e] by (simp add: config_or_0_def cookie_of_def) code_simp
  ultimately show ?thesis by blast
qed

text \<open>
  A cookie that starts with a character outside ASCII makes the parser of cookies panic
  instead of returning \<open>InvalidCookie\<close>.
\<close>

theorem version_from_string_panics:
  assumes "CHR '':'' \<notin> set s" "CHR ''.'' \<notin> set s" "2 \<le> length s" "\<not> char_boundary s 1"
  shows "cookie_to_version B (Some s) = None"
  using assms
  by (simp add: cookie_to_version_def version_from_string_def split_on_none state_version_from_string_def version_from_lexi_def)

theorem version_from_string_panics_witness:
  "cookie_to_version std_text (Some [CHR 0xC3, CHR 0xA9]) = None"
  by (rule version_from_string_panics) (code_simp+)

end
