(* ===== verification/Btree.thy ===== *)
theory Btree
  imports Prelude
begin

text \<open>
  Ordered maps: Rust's \<open>BTreeMap\<close> as an association list strictly sorted by key, so that iteration
  in key order is the list itself and lookup is \<open>map_of\<close>.
\<close>

type_synonym ('k, 'v) btree = "('k \<times> 'v) list"

fun bt_set :: "'k::linorder \<Rightarrow> 'v \<Rightarrow> ('k, 'v) btree \<Rightarrow> ('k, 'v) btree" where
  "bt_set key value [] = [(key, value)]"
| "bt_set key value ((k, v) # rest) =
     (if key < k then (key, value) # (k, v) # rest
      else if key = k then (k, value) # rest
      else (k, v) # bt_set key value rest)"

fun bt_del :: "'k::linorder \<Rightarrow> ('k, 'v) btree \<Rightarrow> ('k, 'v) btree" where
  "bt_del key [] = []"
| "bt_del key ((k, v) # rest) = (if key = k then rest else (k, v) # bt_del key rest)"

definition bt_ok :: "('k::linorder, 'v) btree \<Rightarrow> bool" where
  "bt_ok m \<longleftrightarrow> sorted_wrt (<) (map fst m)"

lemma bt_ok_Nil [simp]: "bt_ok []"
  by (simp add: bt_ok_def)

lemma bt_ok_Cons: "bt_ok ((k, v) # m) \<longleftrightarrow> (\<forall>x\<in>set m. k < fst x) \<and> bt_ok m"
  by (auto simp: bt_ok_def)

lemma bt_ok_distinct: "bt_ok m \<Longrightarrow> distinct (map fst m)"
  by (auto simp: bt_ok_def strict_sorted_iff)

lemma keys_bt_set [simp]: "fst ` set (bt_set k v m) = insert k (fst ` set m)"
  by (induction k v m rule: bt_set.induct) auto

lemma bt_ok_set [simp]: "bt_ok m \<Longrightarrow> bt_ok (bt_set k v m)"
proof (induction k v m rule: bt_set.induct)
  case (2 key v0 k v rest)
  have "\<forall>x\<in>set (bt_set key v0 rest). k < fst x" if "\<forall>x\<in>set rest. k < fst x" "k < key"
    using keys_bt_set [of key v0 rest] that by (metis image_eqI image_iff insert_iff)
  with 2 show ?case by (auto simp: bt_ok_Cons)
qed (simp add: bt_ok_Cons)

lemma set_bt_set: "set (bt_set k v m) \<subseteq> insert (k, v) (set m)"
  by (induction k v m rule: bt_set.induct) auto

lemma set_bt_del: "set (bt_del k m) \<subseteq> set m"
  by (induction k m rule: bt_del.induct) auto

lemma bt_set_ball: "\<forall>x\<in>set m. P x \<Longrightarrow> P (k, v) \<Longrightarrow> \<forall>x\<in>set (bt_set k v m). P x"
  using set_bt_set [of k v m] by blast

lemma bt_del_ball: "\<forall>x\<in>set m. P x \<Longrightarrow> \<forall>x\<in>set (bt_del k m). P x"
  using set_bt_del [of k m] by blast

lemma bt_ok_del [simp]: "bt_ok m \<Longrightarrow> bt_ok (bt_del k m)"
  by (induction k m rule: bt_del.induct) (auto simp: bt_ok_Cons dest!: subsetD [OF set_bt_del])

lemma map_of_bt_set [simp]: "map_of (bt_set k v m) = (map_of m)(k \<mapsto> v)"
  by (induction k v m rule: bt_set.induct) auto

lemma map_of_bt_del [simp]: "bt_ok m \<Longrightarrow> map_of (bt_del k m) = (map_of m)(k := None)"
proof (induction k m rule: bt_del.induct)
  case (2 key k v rest)
  then have "map_of rest k = None" by (force simp: bt_ok_Cons map_of_eq_None_iff)
  with 2 show ?case by (auto simp: bt_ok_Cons)
qed auto

interpretation btree: kv_store bt_ok map_of bt_set bt_del
  by unfold_locales auto

lemma map_of_iff: "bt_ok m \<Longrightarrow> map_of m k = Some v \<longleftrightarrow> (k, v) \<in> set m"
  using bt_ok_distinct [of m] by simp

text \<open>Two ordered maps with the same lookups are the same list.\<close>

lemma bt_eqI: "bt_ok m \<Longrightarrow> bt_ok n \<Longrightarrow> map_of m = map_of n \<Longrightarrow> m = n"
proof (induction m arbitrary: n)
  case Nil
  then show ?case by (cases n) (auto simp: fun_eq_iff split: if_splits)
next
  case (Cons x m)
  obtain k v where x: "x = (k, v)" by (cases x)
  have "n \<noteq> []" using Cons.prems(3) x by (auto simp: fun_eq_iff split: if_splits)
  then obtain l w n' where n: "n = (l, w) # n'" by (cases n) auto
  have bm: "\<forall>x\<in>set m. k < fst x" "bt_ok m" and bn: "\<forall>x\<in>set n'. l < fst x" "bt_ok n'"
    using Cons.prems x n by (auto simp: bt_ok_Cons)
  have "map_of n k = Some v" "map_of (x # m) l = Some w"
    using fun_cong [OF Cons.prems(3), of k] fun_cong [OF Cons.prems(3), of l] x n by simp_all
  then have "(k, v) \<in> set n" "(l, w) \<in> set (x # m)" by (simp_all only: map_of_SomeD)
  then have "k = l" using bm(1) bn(1) x n by force
  moreover have "map_of m = map_of n'"
  proof
    fix y
    have "map_of m k = None" "map_of n' l = None" using bm(1) bn(1) by (force simp: map_of_eq_None_iff)+
    then show "map_of m y = map_of n' y" using fun_cong [OF Cons.prems(3), of y] x n \<open>k = l\<close> by (auto split: if_splits)
  qed
  ultimately show ?case using Cons.IH [OF bm(2) bn(2)] fun_cong [OF Cons.prems(3), of k] x n by simp
qed

end
