(* ===== verification/Ttl.thy ===== *)
theory Ttl
  imports Lexi_Version
begin

text \<open>
  Time-to-live of queries (\<open>zero-cache-zql/src/ttl.rs\<close>): parsing to milliseconds, where \<open>-1\<close> stands
  for forever, comparison, normalization and clamping. Rust's parser of doubles is the parameter
  \<open>pf\<close>; \<open>parses_ints\<close> states what it documents for plain integers.
\<close>

datatype ttl = TtlForever | TtlNone | TtlMillis f64 | TtlDuration string

definition default_ttl_ms :: f64 where
  "default_ttl_ms = F_Fin 300000"

definition default_preload_ttl_ms :: f64 where
  "default_preload_ttl_ms = F_Fin 0"

definition max_ttl_ms :: f64 where
  "max_ttl_ms = F_Fin 600000"

definition default_preload_ttl :: ttl where
  "default_preload_ttl = TtlNone"

definition default_ttl :: ttl where
  "default_ttl = TtlDuration ''5m''"

definition max_ttl :: ttl where
  "max_ttl = TtlDuration ''10m''"

definition multiplier :: "string \<Rightarrow> f64 option" where
  "multiplier unit =
     (if unit = ''s'' then Some (F_Fin 1000)
      else if unit = ''m'' then Some (F_Fin 60000)
      else if unit = ''h'' then Some (F_Fin 3600000)
      else if unit = ''d'' then Some (F_Fin 86400000)
      else if unit = ''y'' then Some (F_Fin 31536000000)
      else None)"

definition or_nan :: "f64 option \<Rightarrow> f64" where
  "or_nan x = (case x of None \<Rightarrow> F_NaN | Some v \<Rightarrow> v)"

definition f64_lt :: "f64 \<Rightarrow> f64 \<Rightarrow> bool" where
  "f64_lt x y \<longleftrightarrow> f64_partial_cmp x y = Some Less"

fun parse_ttl :: "(string \<Rightarrow> f64 option) \<Rightarrow> ttl \<Rightarrow> f64" where
  "parse_ttl pf (TtlMillis n) =
     (if n = F_NaN then F_Fin 0
      else if n = F_PosInf \<or> n = F_NegInf \<or> f64_lt n (F_Fin 0) then F_Fin (- 1)
      else n)"
| "parse_ttl pf TtlNone = F_Fin 0"
| "parse_ttl pf TtlForever = F_Fin (- 1)"
| "parse_ttl pf (TtlDuration s) =
     (if s = [] then F_NaN
      else let unit = last (chars s)
           in f64_mul (or_nan (pf (take (length s - length unit) s))) (or_nan (multiplier unit)))"

definition compare_ttl :: "(string \<Rightarrow> f64 option) \<Rightarrow> ttl \<Rightarrow> ttl \<Rightarrow> int" where
  "compare_ttl pf a b =
     (let ap = parse_ttl pf a; bp = parse_ttl pf b in
      if f64_eq ap (F_Fin (- 1)) \<and> \<not> f64_eq bp (F_Fin (- 1)) then 1
      else if \<not> f64_eq ap (F_Fin (- 1)) \<and> f64_eq bp (F_Fin (- 1)) then - 1
      else case f64_partial_cmp ap bp of
          Some Less \<Rightarrow> - 1
        | Some Greater \<Rightarrow> 1
        | _ \<Rightarrow> 0)"

fun f64_div_fin :: "f64 \<Rightarrow> rat \<Rightarrow> f64" where
  "f64_div_fin (F_Fin p) q = f64_round (p / q)"
| "f64_div_fin x q = x"

fun shortest_ttl :: "'a text_lib_scheme \<Rightarrow> f64 \<Rightarrow> string \<Rightarrow> (string \<times> rat) list \<Rightarrow> string" where
  "shortest_ttl B ms shortest [] = shortest"
| "shortest_ttl B ms shortest ((unit, multi) # us) =
     (let candidate = js_number_to_string B (f64_div_fin ms multi) @ unit
      in shortest_ttl B ms (if length candidate < length shortest then candidate else shortest) us)"

definition normalize_ttl :: "'a text_lib_scheme \<Rightarrow> ttl \<Rightarrow> ttl" where
  "normalize_ttl B t =
     (case t of
        TtlMillis ms \<Rightarrow>
          if f64_lt ms (F_Fin 0) then TtlForever
          else if f64_eq ms (F_Fin 0) then TtlNone
          else let number_str = js_number_to_string B ms;
                   shortest = shortest_ttl B ms number_str
                     [(''y'', 31536000000), (''d'', 86400000), (''h'', 3600000), (''m'', 60000), (''s'', 1000)]
               in if length shortest < length number_str then TtlDuration shortest else TtlMillis ms
      | _ \<Rightarrow> t)"

definition clamp_ttl :: "(string \<Rightarrow> f64 option) \<Rightarrow> ttl \<Rightarrow> f64 \<times> bool" where
  "clamp_ttl pf t =
     (let parsed = parse_ttl pf t in
      if f64_eq parsed (F_Fin (- 1)) \<or> f64_lt max_ttl_ms parsed then (parse_ttl pf max_ttl, True)
      else (parsed, False))"

section \<open>Facts\<close>

definition parses_ints :: "(string \<Rightarrow> f64 option) \<Rightarrow> bool" where
  "parses_ints pf \<longleftrightarrow> (\<forall>n < 2 ^ 53. pf (nat_digits n) = Some (F_Fin (of_nat n)))"

lemma f64_lt_Fin [simp]: "f64_lt (F_Fin p) (F_Fin q) \<longleftrightarrow> p < q"
  by (simp add: f64_lt_def cmp_linorder_def)

lemma f64_eq_Fin [simp]: "f64_eq (F_Fin p) (F_Fin q) \<longleftrightarrow> p = q"
  by (simp add: f64_eq_iff)

lemma parse_millis: "\<exists>q. parse_ttl pf (TtlMillis n) = F_Fin q \<and> (q = - 1 \<or> 0 \<le> q)"
  by (cases n) (auto simp: not_less)

lemma parse_max_ttl: "parses_ints pf \<Longrightarrow> parse_ttl pf max_ttl = F_Fin 600000"
proof -
  assume "parses_ints pf"
  moreover have "(10 :: nat) < 2 ^ 53" by simp
  ultimately have "pf (nat_digits 10) = Some (F_Fin (of_nat 10))" unfolding parses_ints_def by blast
  moreover have "nat_digits 10 = ''10''" "last (chars ''10m'') = ''m''" "multiplier ''m'' = Some (F_Fin 60000)" by code_simp+
  moreover have "f64_round (of_int 600000) = F_Fin (of_int 600000)" by (rule f64_round_int) simp
  ultimately show ?thesis by (simp add: max_ttl_def or_nan_def Let_def)
qed

lemma clamp_millis:
  assumes "parses_ints pf"
  shows "\<exists>q. fst (clamp_ttl pf (TtlMillis n)) = F_Fin q \<and> 0 \<le> q \<and> q \<le> 600000"
  using parse_millis [of pf n] parse_max_ttl [OF assms]
  by (auto simp: clamp_ttl_def max_ttl_ms_def Let_def)

lemma clamp_fixed:
  assumes "0 \<le> q" "q \<le> 600000"
  shows "clamp_ttl pf (TtlMillis (F_Fin q)) = (F_Fin q, False)"
  using assms by (auto simp: clamp_ttl_def max_ttl_ms_def Let_def)

text \<open>Forever is the greatest time-to-live, and the others are ordered by their milliseconds.\<close>

definition ttl_rank :: "(string \<Rightarrow> f64 option) \<Rightarrow> ttl \<Rightarrow> nat \<times> rat" where
  "ttl_rank pf t = (case parse_ttl pf t of F_Fin q \<Rightarrow> if q = - 1 then (1, 0) else (0, q) | _ \<Rightarrow> (0, 0))"

lemma compare_ttl_rank:
  assumes "parse_ttl pf a = F_Fin p" "parse_ttl pf b = F_Fin q"
  shows "compare_ttl pf a b > 0 \<longleftrightarrow>
    fst (ttl_rank pf b) < fst (ttl_rank pf a) \<or> fst (ttl_rank pf a) = fst (ttl_rank pf b) \<and> snd (ttl_rank pf b) < snd (ttl_rank pf a)"
  using assms by (auto simp: compare_ttl_def ttl_rank_def Let_def cmp_linorder_def)

end
