(* ===== verification/Cvr_Types.thy ===== *)
theory Cvr_Types
  imports Cvr_Version Ast Btree Ttl
begin

text \<open>
  The records of a client view record (CVR) and the patches sent to clients
  (\<open>zero-cache-view-syncer/src\<close>: \<open>cvr_types.rs\<close>, \<open>client_patch.rs\<close>, \<open>cvr_ref_counts.rs\<close>,
  \<open>cvr_internal_queries.rs\<close>, \<open>cvr_client_state.rs\<close>), and the reference counts by which queries hold
  rows.
\<close>

section \<open>Records\<close>

datatype ttl_clock = TtlClock (as_number: f64)

record client_record =
  cr_id :: string
  desired_query_ids :: "string list"

record client_query_state =
  inactivated_at :: "ttl_clock option"
  cq_ttl :: f64
  cq_deleted :: bool
  cq_version :: cvr_version

record external_query_base =
  eq_id :: string
  eq_transformation_hash :: "string option"
  eq_transformation_version :: "cvr_version option"
  eq_row_set_signature :: "string option"
  client_state :: "(string, client_query_state) btree"
  eq_patch_version :: "cvr_version option"

record internal_query_record =
  iq_id :: string
  iq_transformation_hash :: "string option"
  iq_transformation_version :: "cvr_version option"
  iq_row_set_signature :: "string option"
  iq_ast :: ast

datatype query_record =
    QClient external_query_base ast
  | QCustom external_query_base string "json list"
  | QInternal internal_query_record

record row_id =
  rid_schema :: string
  rid_table :: string
  rid_row_key :: "(string, json) btree"

type_synonym ref_counts = "(string, int) btree"

record row_record =
  rr_patch_version :: cvr_version
  rr_id :: row_id
  rr_row_version :: string
  rr_ref_counts :: "ref_counts option"

datatype patch_op = PutOp | DelOp

record query_patch =
  qp_op :: patch_op
  qp_id :: string
  qp_client_id :: "string option"

record cvr =
  cvr_id :: string
  cvr_ver :: cvr_version
  last_active :: f64
  ttl_clk :: ttl_clock
  replica_version :: "string option"
  clients :: "(string, client_record) btree"
  queries :: "(string, query_record) btree"
  client_schema :: "json option"
  profile_id :: "string option"

datatype client_row_patch = RowPut row_id "(string \<times> json) list" | RowDelete row_id

datatype patch = PConfig query_patch | PRow client_row_patch

record patch_to_version =
  pv_patch :: patch
  pv_to_version :: cvr_version

section \<open>Reference counts\<close>

text \<open>One of the two passes of \<open>merge_ref_counts\<close>: counts are added, and a count that becomes 0 is dropped.\<close>

fun merge_pass :: "string set \<Rightarrow> ref_counts \<Rightarrow> ref_counts \<Rightarrow> ref_counts" where
  "merge_pass skip merged [] = merged"
| "merge_pass skip merged ((hash, count) # counts) =
     (if hash \<in> skip then merge_pass skip merged counts
      else let entry = i64_add (case map_of merged hash of None \<Rightarrow> 0 | Some c \<Rightarrow> c) count;
               m = bt_set hash entry merged
           in merge_pass skip (if entry = 0 then bt_del hash m else m) counts)"

definition merge_ref_counts :: "ref_counts option \<Rightarrow> ref_counts option \<Rightarrow> string set option \<Rightarrow> ref_counts option" where
  "merge_ref_counts existing received remove_hashes =
     (let merged =
        (case existing of
           None \<Rightarrow> (case received of None \<Rightarrow> [] | Some r \<Rightarrow> r)
         | Some e \<Rightarrow>
             let m = merge_pass (case remove_hashes of None \<Rightarrow> {} | Some rm \<Rightarrow> rm) [] e
             in (case received of None \<Rightarrow> m | Some r \<Rightarrow> merge_pass {} m r))
      in if \<exists>x\<in>set merged. snd x > 0 then Some merged else None)"

section \<open>Query records\<close>

definition new_base :: "string \<Rightarrow> external_query_base" where
  "new_base qid =
     \<lparr>eq_id = qid, eq_transformation_hash = None, eq_transformation_version = None, eq_row_set_signature = None,
      client_state = [], eq_patch_version = None\<rparr>"

definition new_query_record ::
  "string \<Rightarrow> ast option \<Rightarrow> string option \<Rightarrow> json list option \<Rightarrow> query_record option" where
  "new_query_record qid q name args =
     (case q of
        Some q \<Rightarrow> do { assert_ok (name = None \<and> args = None); Some (QClient (new_base qid) q) }
      | None \<Rightarrow>
          (case (name, args) of
             (Some n, Some a) \<Rightarrow> Some (QCustom (new_base qid) n a)
           | _ \<Rightarrow> None))"

fun query_client_state :: "query_record \<Rightarrow> (string, client_query_state) btree option" where
  "query_client_state (QClient b q) = Some (client_state b)"
| "query_client_state (QCustom b n a) = Some (client_state b)"
| "query_client_state (QInternal i) = None"

fun set_query_client_state :: "(string, client_query_state) btree \<Rightarrow> query_record \<Rightarrow> query_record" where
  "set_query_client_state s (QClient b q) = QClient (b\<lparr>client_state := s\<rparr>) q"
| "set_query_client_state s (QCustom b n a) = QCustom (b\<lparr>client_state := s\<rparr>) n a"
| "set_query_client_state s (QInternal i) = QInternal i"

definition client_lmid_query_id :: string where
  "client_lmid_query_id = ''lmids''"

definition client_mutation_results_query_id :: string where
  "client_mutation_results_query_id = ''mutationResults''"

definition internal_record :: "string \<Rightarrow> ast \<Rightarrow> internal_query_record" where
  "internal_record qid q =
     \<lparr>iq_id = qid, iq_transformation_hash = None, iq_transformation_version = None, iq_row_set_signature = None, iq_ast = q\<rparr>"

definition get_mutation_results_query :: "string \<Rightarrow> string \<Rightarrow> internal_query_record" where
  "get_mutation_results_query upstream_schema client_group_id =
     internal_record client_mutation_results_query_id
       (Ast (Some '''') (upstream_schema @ ''.mutations'') None
         (Some (And [Simple OpEq (VColumn ''clientGroupID'') (VLiteral (LitString client_group_id))]))
         None None None
         (Some [(''clientGroupID'', Asc), (''clientID'', Asc), (''mutationID'', Asc)]))"

definition get_lmids_query :: "string \<Rightarrow> string \<Rightarrow> internal_query_record" where
  "get_lmids_query upstream_clients_schema group_id =
     internal_record client_lmid_query_id
       (Ast (Some '''') (upstream_clients_schema @ ''.clients'') None
         (Some (Simple OpEq (VColumn ''clientGroupID'') (VLiteral (LitString group_id))))
         None None None
         (Some [(''clientGroupID'', Asc), (''clientID'', Asc)]))"

section \<open>Client schema and profile\<close>

datatype protocol_error = InvalidConnectionRequest string

definition set_client_schema :: "cvr \<Rightarrow> json \<Rightarrow> cvr \<times> (protocol_error + unit)" where
  "set_client_schema v schema =
     (case client_schema v of
        None \<Rightarrow> (v\<lparr>client_schema := Some schema\<rparr>, Inr ())
      | Some existing \<Rightarrow>
          if \<not> json_eq existing schema
          then (v, Inl (InvalidConnectionRequest ''Provided schema does not match previous schema''))
          else (v, Inr ()))"

definition set_profile_id :: "cvr \<Rightarrow> string \<Rightarrow> cvr \<times> bool" where
  "set_profile_id v pid =
     (if profile_id v = Some pid then (v, False)
      else (v\<lparr>profile_id := Some pid\<rparr>,
            (case profile_id v of None \<Rightarrow> False | Some existing \<Rightarrow> take 2 existing \<noteq> ''cg'')))"

section \<open>Facts on reference counts\<close>

definition count_of :: "ref_counts \<Rightarrow> string \<Rightarrow> int" where
  "count_of m h = (case map_of m h of None \<Rightarrow> 0 | Some c \<Rightarrow> c)"

text \<open>Counts of a row: positive, far from the ends of \<open>i64\<close>, and at least one.\<close>

definition refs_ok :: "ref_counts \<Rightarrow> bool" where
  "refs_ok m \<longleftrightarrow> bt_ok m \<and> m \<noteq> [] \<and> (\<forall>x\<in>set m. 0 < snd x \<and> snd x < 2 ^ 61)"

lemma count_of_Nil [simp]: "count_of [] h = 0"
  by (simp add: count_of_def)

lemma count_of_set [simp]: "count_of (bt_set k c m) h = (if h = k then c else count_of m h)"
  by (simp add: count_of_def)

lemma count_of_del [simp]: "bt_ok m \<Longrightarrow> count_of (bt_del k m) h = (if h = k then 0 else count_of m h)"
  by (simp add: count_of_def)

lemma count_of_Cons [simp]: "count_of ((k, c) # m) h = (if h = k then c else count_of m h)"
  by (simp add: count_of_def)

lemma count_of_fresh: "k \<notin> fst ` set m \<Longrightarrow> count_of m k = 0"
  by (simp add: count_of_def map_of_eq_None_iff [THEN iffD2])

lemma count_of_mem: "bt_ok m \<Longrightarrow> (k, c) \<in> set m \<Longrightarrow> count_of m k = c"
  by (simp add: count_of_def map_of_iff [THEN iffD2])

lemma merge_step_nonzero:
  assumes "bt_ok m" "0 \<notin> snd ` set m"
  shows "0 \<notin> snd ` set (if e = 0 then bt_del k (bt_set k e m) else bt_set k e m)"
proof -
  have "(h, 0) \<notin> set (bt_del k (bt_set k 0 m))" for h
  proof
    assume "(h, 0) \<in> set (bt_del k (bt_set k 0 m))"
    then have "map_of (bt_del k (bt_set k 0 m)) h = Some 0"
      using map_of_iff [OF bt_ok_del [OF bt_ok_set [OF assms(1)]], of k k 0 h 0] by blast
    then have "map_of m h = Some 0" using assms(1) by (simp split: if_splits)
    then show False using assms(2) by (force dest: map_of_SomeD)
  qed
  moreover have "0 \<notin> snd ` set (bt_set k e m)" if "e \<noteq> 0"
    using assms(2) set_bt_set [of k e m] that by auto
  ultimately show ?thesis by (auto simp: image_iff)
qed

lemma merge_pass_count:
  "bt_ok m \<Longrightarrow> bt_ok cs \<Longrightarrow> 0 \<notin> snd ` set m \<Longrightarrow> \<forall>h\<in>fst ` set cs. \<bar>count_of m h\<bar> < 2 ^ 61 \<Longrightarrow>
   \<forall>x\<in>set cs. \<bar>snd x\<bar> < 2 ^ 61 \<Longrightarrow>
   bt_ok (merge_pass skip m cs) \<and> 0 \<notin> snd ` set (merge_pass skip m cs) \<and>
   (\<forall>h. count_of (merge_pass skip m cs) h = (if h \<in> skip then count_of m h else count_of m h + count_of cs h))"
proof (induction skip m cs rule: merge_pass.induct)
  case (2 skip m k c cs)
  have cs: "bt_ok cs" "k \<notin> fst ` set cs" using 2(4) by (force simp: bt_ok_Cons)+
  show ?case
  proof (cases "k \<in> skip")
    case True
    then show ?thesis using 2(1) [OF True 2(3) cs(1) 2(5)] 2(6,7) by auto
  next
    case False
    let ?e = "count_of m k + c"
    let ?m = "if ?e = 0 then bt_del k (bt_set k ?e m) else bt_set k ?e m"
    have "\<bar>count_of m k\<bar> < 2 ^ 61" "\<bar>c\<bar> < 2 ^ 61" using 2(6,7) by auto
    then have e: "i64_add (count_of m k) c = ?e" by (intro i64_add_small) auto
    have m: "bt_ok ?m" "count_of ?m h = (if h = k then ?e else count_of m h)" for h using 2(3) by auto
    have "\<forall>h\<in>fst ` set cs. \<bar>count_of ?m h\<bar> < 2 ^ 61" using 2(6) cs(2) m(2) by auto
    with 2(2) [OF False refl refl, unfolded count_of_def [symmetric] e] m(1) cs(1) 2(7) merge_step_nonzero [OF 2(3,5), of ?e k]
    have "bt_ok (merge_pass skip ?m cs) \<and> 0 \<notin> snd ` set (merge_pass skip ?m cs) \<and>
      (\<forall>h. count_of (merge_pass skip ?m cs) h = (if h \<in> skip then count_of ?m h else count_of ?m h + count_of cs h))"
      by simp
    moreover have "merge_pass skip m ((k, c) # cs) = merge_pass skip ?m cs"
      using False e by (simp add: Let_def count_of_def)
    ultimately show ?thesis using m(2) count_of_fresh [OF cs(2)] False by auto
  qed
qed simp

end
