(* ===== verification/Cvr_Queries.thy ===== *)
theory Cvr_Queries
  imports Cvr_Types Ivm_Operator
begin

text \<open>
  The query side of a CVR (\<open>zero-cache-view-syncer/src\<close>: \<open>cvr_query_driven_updater.rs\<close>,
  \<open>cvr_desired_queries.rs\<close>, \<open>cvr_query_handler.rs\<close>, \<open>cvr_eviction.rs\<close>, \<open>query_set_sync.rs\<close>,
  \<open>query_invalidation.rs\<close>): which queries clients desire, which have been executed or removed, and
  when inactive ones expire. Each operation returns the new CVR; a panic is \<open>None\<close>. A \<open>BTreeSet\<close> is
  an ordered map to \<open>unit\<close>.
\<close>

section \<open>Executed and removed queries\<close>

fun is_internal :: "query_record \<Rightarrow> bool" where
  "is_internal (QInternal i) = True"
| "is_internal _ = False"

fun transformation_hash :: "query_record \<Rightarrow> string option" where
  "transformation_hash (QClient b q) = eq_transformation_hash b"
| "transformation_hash (QCustom b n a) = eq_transformation_hash b"
| "transformation_hash (QInternal i) = iq_transformation_hash i"

fun needs_got_patch :: "query_record \<Rightarrow> bool" where
  "needs_got_patch (QClient b q) \<longleftrightarrow> eq_patch_version b = None"
| "needs_got_patch (QCustom b n a) \<longleftrightarrow> eq_patch_version b = None"
| "needs_got_patch (QInternal i) \<longleftrightarrow> False"

fun set_transformation :: "string \<Rightarrow> cvr_version \<Rightarrow> query_record \<Rightarrow> query_record" where
  "set_transformation h v (QClient b q) = QClient (b\<lparr>eq_transformation_hash := Some h, eq_transformation_version := Some v\<rparr>) q"
| "set_transformation h v (QCustom b n a) = QCustom (b\<lparr>eq_transformation_hash := Some h, eq_transformation_version := Some v\<rparr>) n a"
| "set_transformation h v (QInternal i) = QInternal (i\<lparr>iq_transformation_hash := Some h, iq_transformation_version := Some v\<rparr>)"

fun set_got :: "cvr_version \<Rightarrow> query_record \<Rightarrow> query_record option" where
  "set_got v (QClient b q) = Some (QClient (b\<lparr>eq_patch_version := Some v\<rparr>) q)"
| "set_got v (QCustom b n a) = Some (QCustom (b\<lparr>eq_patch_version := Some v\<rparr>) n a)"
| "set_got v (QInternal i) = None"

definition got_patch :: "patch_op \<Rightarrow> string \<Rightarrow> query_patch" where
  "got_patch opr qid = \<lparr>qp_op = opr, qp_id = qid, qp_client_id = None\<rparr>"

definition track_executed ::
  "'a text_lib_scheme \<Rightarrow> cvr_version \<Rightarrow> string \<Rightarrow> string \<Rightarrow> cvr \<times> string set \<Rightarrow> (cvr \<times> string set \<times> query_patch list) option" where
  "track_executed B orig query_id new_hash st =
     (let (v, tracked) = st in
      if query_id \<in> tracked then Some (v, tracked, [])
      else let tracked = insert query_id tracked in
        (case map_of (queries v) query_id of
           None \<Rightarrow> Some (v, tracked, [])
         | Some query \<Rightarrow>
             if transformation_hash query = Some new_hash then Some (v, tracked, [])
             else do {
               ver \<leftarrow> ensure_new_version B orig (cvr_ver v);
               (query, patches) \<leftarrow>
                 (if needs_got_patch query
                  then do { q \<leftarrow> set_got ver query; Some (q, [got_patch PutOp query_id]) }
                  else Some (query, []));
               Some (v\<lparr>cvr_ver := ver, queries := bt_set query_id (set_transformation new_hash ver query) (queries v)\<rparr>,
                     tracked, patches)
             }))"

definition track_removed ::
  "'a text_lib_scheme \<Rightarrow> cvr_version \<Rightarrow> string \<Rightarrow> cvr \<times> string set \<Rightarrow> (cvr \<times> string set \<times> query_patch) option" where
  "track_removed B orig query_id st =
     (let (v, tracked) = st in
      do {
        query \<leftarrow> map_of (queries v) query_id;
        assert_ok (\<not> is_internal query);
        assert_ok (query_id \<notin> tracked);
        ver \<leftarrow> ensure_new_version B orig (cvr_ver v);
        Some (v\<lparr>cvr_ver := ver, queries := bt_del query_id (queries v)\<rparr>, insert query_id tracked, got_patch DelOp query_id)
      })"

fun track_all_executed ::
  "'a text_lib_scheme \<Rightarrow> cvr_version \<Rightarrow> (string \<times> string) list \<Rightarrow> cvr \<times> string set \<Rightarrow> (cvr \<times> string set \<times> query_patch list) option" where
  "track_all_executed B orig [] st = Some (fst st, snd st, [])"
| "track_all_executed B orig ((qid, h) # rest) st =
     do {
       (v, tracked, ps) \<leftarrow> track_executed B orig qid h st;
       (v, tracked, qs) \<leftarrow> track_all_executed B orig rest (v, tracked);
       Some (v, tracked, ps @ qs)
     }"

fun track_all_removed ::
  "'a text_lib_scheme \<Rightarrow> cvr_version \<Rightarrow> string list \<Rightarrow> cvr \<times> string set \<Rightarrow> (cvr \<times> string set \<times> query_patch list) option" where
  "track_all_removed B orig [] st = Some (fst st, snd st, [])"
| "track_all_removed B orig (qid # rest) st =
     do {
       (v, tracked, p) \<leftarrow> track_removed B orig qid st;
       (v, tracked, qs) \<leftarrow> track_all_removed B orig rest (v, tracked);
       Some (v, tracked, p # qs)
     }"

definition track_queries ::
  "'a text_lib_scheme \<Rightarrow> cvr_version \<Rightarrow> (string \<times> string) list \<Rightarrow> string list \<Rightarrow> cvr \<times> string set \<Rightarrow>
   (cvr \<times> string set \<times> cvr_version \<times> query_patch list) option" where
  "track_queries B orig executed removed st =
     do {
       (v, tracked, ps) \<leftarrow> track_all_executed B orig executed st;
       (v, tracked, qs) \<leftarrow> track_all_removed B orig removed (v, tracked);
       Some (v, tracked, cvr_ver v, ps @ qs)
     }"

section \<open>Desired queries\<close>

type_synonym 'k bset = "('k, unit) btree"

definition bset_of_list :: "'k::linorder list \<Rightarrow> 'k bset" where
  "bset_of_list xs = fold (\<lambda>x. bt_set x ()) xs []"

record desired_query_request =
  dq_hash :: string
  dq_ast :: "ast option"
  dq_name :: "string option"
  dq_args :: "json list option"
  dq_ttl :: "ttl option"

definition requested_ttl :: "desired_query_request \<Rightarrow> ttl" where
  "requested_ttl q = (case dq_ttl q of None \<Rightarrow> TtlMillis default_ttl_ms | Some t \<Rightarrow> t)"

text \<open>Whether a query of \<open>desired\<close>, a hash with its time-to-live, needs an update for the client.\<close>

definition query_needed ::
  "(string \<Rightarrow> f64 option) \<Rightarrow> (string, query_record) btree \<Rightarrow> string \<Rightarrow> string \<times> ttl \<Rightarrow> bool" where
  "query_needed pf existing_queries client_id q \<longleftrightarrow>
     (case map_of existing_queries (fst q) of
        None \<Rightarrow> True
      | Some existing \<Rightarrow>
          (case query_client_state existing of
             None \<Rightarrow> False
           | Some cs \<Rightarrow>
               (case map_of cs client_id of
                  None \<Rightarrow> True
                | Some old \<Rightarrow>
                    if inactivated_at old \<noteq> None then True
                    else compare_ttl pf (snd q) (TtlMillis (cq_ttl old)) > 0)))"

definition compute_needed_queries ::
  "(string \<Rightarrow> f64 option) \<Rightarrow> (string \<times> ttl) list \<Rightarrow> (string, query_record) btree \<Rightarrow> string \<Rightarrow> string bset" where
  "compute_needed_queries pf desired existing_queries client_id =
     bset_of_list (map fst (filter (query_needed pf existing_queries client_id) desired))"

definition ensure_client :: "string \<Rightarrow> cvr \<Rightarrow> cvr" where
  "ensure_client client_id v =
     (case map_of (clients v) client_id of
        None \<Rightarrow> v\<lparr>clients := bt_set client_id \<lparr>cr_id = client_id, desired_query_ids = []\<rparr> (clients v)\<rparr>
      | Some _ \<Rightarrow> v)"

definition set_desired :: "string \<Rightarrow> string list \<Rightarrow> cvr \<Rightarrow> cvr option" where
  "set_desired client_id ids v =
     do {
       client \<leftarrow> map_of (clients v) client_id;
       Some (v\<lparr>clients := bt_set client_id (client\<lparr>desired_query_ids := ids\<rparr>) (clients v)\<rparr>)
     }"

definition config_patch :: "patch_op \<Rightarrow> string \<Rightarrow> string \<Rightarrow> cvr_version \<Rightarrow> patch_to_version" where
  "config_patch opr qid client_id ver =
     \<lparr>pv_patch = PConfig \<lparr>qp_op = opr, qp_id = qid, qp_client_id = Some client_id\<rparr>, pv_to_version = ver\<rparr>"

definition put_one ::
  "(string \<Rightarrow> f64 option) \<Rightarrow> string \<Rightarrow> cvr_version \<Rightarrow> desired_query_request list \<Rightarrow> string \<Rightarrow>
   (string, query_record) btree \<Rightarrow> (string, query_record) btree option" where
  "put_one pf client_id new_version reqs qid qs =
     do {
       q \<leftarrow> find (\<lambda>q. dq_hash q = qid) reqs;
       query \<leftarrow> (case map_of qs qid of
           Some query \<Rightarrow> Some query
         | None \<Rightarrow> new_query_record qid (dq_ast q) (dq_name q) (dq_args q));
       cs \<leftarrow> query_client_state query;
       let state = \<lparr>inactivated_at = None, cq_ttl = fst (clamp_ttl pf (requested_ttl q)), cq_deleted = False, cq_version = new_version\<rparr>;
       Some (bt_set qid (set_query_client_state (bt_set client_id state cs) query) qs)
     }"

fun put_loop ::
  "(string \<Rightarrow> f64 option) \<Rightarrow> string \<Rightarrow> cvr_version \<Rightarrow> desired_query_request list \<Rightarrow> string list \<Rightarrow>
   (string, query_record) btree \<Rightarrow> ((string, query_record) btree \<times> patch_to_version list) option" where
  "put_loop pf client_id ver reqs [] qs = Some (qs, [])"
| "put_loop pf client_id ver reqs (qid # ids) qs =
     do {
       qs \<leftarrow> put_one pf client_id ver reqs qid qs;
       (qs, ps) \<leftarrow> put_loop pf client_id ver reqs ids qs;
       Some (qs, config_patch PutOp qid client_id ver # ps)
     }"

definition put_desired_queries ::
  "'a text_lib_scheme \<Rightarrow> (string \<Rightarrow> f64 option) \<Rightarrow> cvr_version \<Rightarrow> string \<Rightarrow> desired_query_request list \<Rightarrow> cvr \<Rightarrow>
   (cvr \<times> patch_to_version list) option" where
  "put_desired_queries B pf orig client_id reqs v =
     (let v = ensure_client client_id v;
          needed = map fst (compute_needed_queries pf (map (\<lambda>q. (dq_hash q, requested_ttl q)) reqs) (queries v) client_id)
      in if needed = [] then Some (v, [])
         else do {
           ver \<leftarrow> ensure_new_version B orig (cvr_ver v);
           client \<leftarrow> map_of (clients v) client_id;
           v \<leftarrow> set_desired client_id (map fst (bset_of_list (desired_query_ids client @ needed))) (v\<lparr>cvr_ver := ver\<rparr>);
           (qs, ps) \<leftarrow> put_loop pf client_id ver reqs needed (queries v);
           Some (v\<lparr>queries := qs\<rparr>, ps)
         })"

definition delete_one ::
  "(string \<Rightarrow> f64 option) \<Rightarrow> string \<Rightarrow> cvr_version \<Rightarrow> ttl_clock option \<Rightarrow> query_record \<Rightarrow> query_record option" where
  "delete_one pf client_id ver inactivated query =
     do {
       cs \<leftarrow> query_client_state query;
       (case inactivated of
          None \<Rightarrow> Some (set_query_client_state (bt_del client_id cs) query)
        | Some at_time \<Rightarrow>
            (case map_of cs client_id of
               None \<Rightarrow> Some query
             | Some state \<Rightarrow> do {
                 assert_ok (inactivated_at state = None);
                 let new_state = \<lparr>inactivated_at = Some at_time, cq_ttl = fst (clamp_ttl pf (TtlMillis (cq_ttl state))),
                   cq_deleted = True, cq_version = ver\<rparr>;
                 Some (set_query_client_state (bt_set client_id new_state cs) query)
               }))
     }"

fun delete_loop ::
  "(string \<Rightarrow> f64 option) \<Rightarrow> string \<Rightarrow> cvr_version \<Rightarrow> ttl_clock option \<Rightarrow> string list \<Rightarrow>
   (string, query_record) btree \<Rightarrow> ((string, query_record) btree \<times> patch_to_version list) option" where
  "delete_loop pf client_id ver inactivated [] qs = Some (qs, [])"
| "delete_loop pf client_id ver inactivated (qid # ids) qs =
     (case map_of qs qid of
        None \<Rightarrow> delete_loop pf client_id ver inactivated ids qs
      | Some query \<Rightarrow> do {
          query \<leftarrow> delete_one pf client_id ver inactivated query;
          (qs, ps) \<leftarrow> delete_loop pf client_id ver inactivated ids (bt_set qid query qs);
          Some (qs, config_patch DelOp qid client_id ver # ps)
        })"

definition delete_queries ::
  "'a text_lib_scheme \<Rightarrow> (string \<Rightarrow> f64 option) \<Rightarrow> cvr_version \<Rightarrow> string \<Rightarrow> string list \<Rightarrow> ttl_clock option \<Rightarrow> cvr \<Rightarrow>
   (cvr \<times> patch_to_version list) option" where
  "delete_queries B pf orig client_id hashes inactivated v =
     (let v = ensure_client client_id v in
      do {
        client \<leftarrow> map_of (clients v) client_id;
        let current = map fst (bset_of_list (desired_query_ids client));
        let remove = filter (\<lambda>h. h \<in> set hashes) current;
        if remove = [] then Some (v, [])
        else do {
          ver \<leftarrow> ensure_new_version B orig (cvr_ver v);
          v \<leftarrow> set_desired client_id (filter (\<lambda>h. h \<notin> set hashes) current) (v\<lparr>cvr_ver := ver\<rparr>);
          (qs, ps) \<leftarrow> delete_loop pf client_id ver inactivated remove (queries v);
          Some (v\<lparr>queries := qs\<rparr>, ps)
        }
      })"

section \<open>The handler of a connection\<close>

record up_queries_put_op =
  up_hash :: string
  up_ttl :: "f64 option"
  up_ast :: "ast option"
  up_name :: "string option"
  up_args :: "json list option"

datatype up_queries_patch_op = UpPut up_queries_put_op | UpDel string | UpClear

definition cvr_handler_new :: "'a text_lib_scheme \<Rightarrow> string \<Rightarrow> string option \<Rightarrow> cvr option" where
  "cvr_handler_new B group_id rep =
     do {
       ver \<leftarrow> empty_cvr_version B;
       Some \<lparr>cvr_id = group_id, cvr_ver = ver, last_active = F_Fin 0, ttl_clk = TtlClock (F_Fin 0),
         replica_version = rep, clients = [], queries = [], client_schema = None, profile_id = None\<rparr>
     }"

definition cvr_handler_from_cvr :: "cvr \<Rightarrow> string \<Rightarrow> cvr option" where
  "cvr_handler_from_cvr v group_id = do { assert_ok (cvr_id v = group_id); Some v }"

definition seed_version :: "cvr_version \<Rightarrow> cvr \<Rightarrow> cvr" where
  "seed_version ver v = v\<lparr>cvr_ver := ver\<rparr>"

definition desired_put :: "cvr \<Rightarrow> string \<Rightarrow> string \<Rightarrow> up_queries_put_op option" where
  "desired_put v client_id hash =
     do {
       query \<leftarrow> map_of (queries v) hash;
       (case query of
          QClient b q \<Rightarrow> do {
            state \<leftarrow> map_of (client_state b) client_id;
            if inactivated_at state = None \<and> \<not> cq_deleted state
            then Some \<lparr>up_hash = hash, up_ttl = Some (cq_ttl state), up_ast = Some q, up_name = None, up_args = None\<rparr>
            else None
          }
        | QCustom b n a \<Rightarrow> do {
            state \<leftarrow> map_of (client_state b) client_id;
            if inactivated_at state = None \<and> \<not> cq_deleted state
            then Some \<lparr>up_hash = hash, up_ttl = Some (cq_ttl state), up_ast = None, up_name = Some n, up_args = Some a\<rparr>
            else None
          }
        | QInternal i \<Rightarrow> None)
     }"

definition desired_puts_for_client :: "cvr \<Rightarrow> string \<Rightarrow> up_queries_put_op list" where
  "desired_puts_for_client v client_id =
     (case map_of (clients v) client_id of
        None \<Rightarrow> []
      | Some client \<Rightarrow> List.map_filter (desired_put v client_id) (desired_query_ids client))"

definition put_request :: "up_queries_put_op \<Rightarrow> desired_query_request" where
  "put_request p =
     \<lparr>dq_hash = up_hash p, dq_ast = up_ast p, dq_name = up_name p, dq_args = up_args p, dq_ttl = map_option TtlMillis (up_ttl p)\<rparr>"

fun patch_puts :: "up_queries_patch_op list \<Rightarrow> desired_query_request list" where
  "patch_puts [] = []"
| "patch_puts (UpPut p # ops) = put_request p # patch_puts ops"
| "patch_puts (_ # ops) = patch_puts ops"

fun patch_dels :: "up_queries_patch_op list \<Rightarrow> string list" where
  "patch_dels [] = []"
| "patch_dels (UpDel h # ops) = h # patch_dels ops"
| "patch_dels (_ # ops) = patch_dels ops"

definition apply_desired_queries_patch ::
  "'a text_lib_scheme \<Rightarrow> (string \<Rightarrow> f64 option) \<Rightarrow> string \<Rightarrow> up_queries_patch_op list \<Rightarrow> cvr \<Rightarrow>
   (cvr \<times> patch_to_version list) option" where
  "apply_desired_queries_patch B pf client_id ops v =
     (let orig = cvr_ver v;
          puts = patch_puts ops;
          dels = patch_dels ops @
            (if UpClear \<in> set ops
             then (case map_of (clients v) client_id of None \<Rightarrow> [] | Some client \<Rightarrow> desired_query_ids client)
             else [])
      in do {
        (v, ps) \<leftarrow> (if puts = [] then Some (v, []) else put_desired_queries B pf orig client_id puts v);
        (v, qs) \<leftarrow> (if dels = [] then Some (v, []) else delete_queries B pf orig client_id dels None v);
        Some (v, ps @ qs)
      })"

section \<open>Eviction of inactive queries\<close>

record inactive_query =
  in_hash :: string
  in_at :: ttl_clock
  in_ttl_ms :: f64

definition clamped_ms :: "(string \<Rightarrow> f64 option) \<Rightarrow> f64 \<Rightarrow> f64" where
  "clamped_ms pf t = fst (clamp_ttl pf (TtlMillis t))"

text \<open>\<open>None\<close> when some client is active, otherwise the client that expires last, if there is any.\<close>

fun inactive_loop ::
  "(string \<Rightarrow> f64 option) \<Rightarrow> string \<Rightarrow> inactive_query option \<Rightarrow> client_query_state list \<Rightarrow> inactive_query option option" where
  "inactive_loop pf query_id current [] = Some current"
| "inactive_loop pf query_id current (state # states) =
     (case inactivated_at state of
        None \<Rightarrow> None
      | Some at_time \<Rightarrow>
          let clamped = clamped_ms pf (cq_ttl state) in
          inactive_loop pf query_id
            (Some (case current of
               None \<Rightarrow> \<lparr>in_hash = query_id, in_at = at_time, in_ttl_ms = clamped\<rparr>
             | Some existing \<Rightarrow>
                 if f64_lt (f64_add (clamped_ms pf (in_ttl_ms existing)) (as_number (in_at existing)))
                      (f64_add (as_number at_time) clamped)
                 then existing\<lparr>in_at := at_time, in_ttl_ms := clamped\<rparr>
                 else existing)) states)"

fun collect_inactive :: "(string \<Rightarrow> f64 option) \<Rightarrow> (string, query_record) btree \<Rightarrow> inactive_query list" where
  "collect_inactive pf [] = []"
| "collect_inactive pf ((query_id, query) # qs) =
     (case query_client_state query of
        None \<Rightarrow> []
      | Some cs \<Rightarrow>
          (case inactive_loop pf query_id None (map snd cs) of
             Some (Some entry) \<Rightarrow> [entry]
           | _ \<Rightarrow> [])) @ collect_inactive pf qs"

definition cmp_inactive :: "inactive_query comparator" where
  "cmp_inactive a b =
     (if f64_eq (in_ttl_ms a) (in_ttl_ms b)
      then f64_partial_cmp (as_number (in_at a)) (as_number (in_at b))
      else f64_partial_cmp (f64_add (as_number (in_at a)) (in_ttl_ms a)) (f64_add (as_number (in_at b)) (in_ttl_ms b)))"

definition get_inactive_queries :: "(string \<Rightarrow> f64 option) \<Rightarrow> cvr \<Rightarrow> inactive_query list option" where
  "get_inactive_queries pf v = sort_by cmp_inactive (collect_inactive pf (queries v))"

fun next_loop :: "f64 option \<Rightarrow> inactive_query list \<Rightarrow> f64 option" where
  "next_loop next [] = next"
| "next_loop next (q # qs) =
     (let expire = f64_add (as_number (in_at q)) (in_ttl_ms q) in
      next_loop (if (case next of None \<Rightarrow> True | Some n \<Rightarrow> f64_lt expire n) then Some expire else next) qs)"

definition next_eviction_time :: "(string \<Rightarrow> f64 option) \<Rightarrow> cvr \<Rightarrow> ttl_clock option option" where
  "next_eviction_time pf v = do { qs \<leftarrow> get_inactive_queries pf v; Some (map_option TtlClock (next_loop None qs)) }"

section \<open>Re-executed queries\<close>

record added_query =
  aq_id :: string
  aq_hash :: string

definition same_hash_rehydrated_query_ids :: "(string \<rightharpoonup> string) \<Rightarrow> added_query list \<Rightarrow> string list" where
  "same_hash_rehydrated_query_ids hashes adds = map aq_id (filter (\<lambda>q. hashes (aq_id q) = Some (aq_hash q)) adds)"

definition track_queries_will_bump_version ::
  "int \<Rightarrow> int \<Rightarrow> nat \<Rightarrow> (string \<rightharpoonup> string) \<Rightarrow> added_query list \<Rightarrow> bool" where
  "track_queries_will_bump_version current cvr_state remove_count hashes adds \<longleftrightarrow>
     current > cvr_state \<or> remove_count > 0 \<or> (\<exists>q\<in>set adds. hashes (aq_id q) \<noteq> Some (aq_hash q))"

datatype forced_bump_reason = Mixed | RowSetSignatureDrift | MissingPipeline

definition decide_forced_version_bump :: "string list \<Rightarrow> bool \<Rightarrow> string set \<Rightarrow> forced_bump_reason option" where
  "decide_forced_version_bump same_hash will_bump drifted_ids =
     (if same_hash = [] \<or> will_bump then None
      else let drifted = length (filter (\<lambda>i. i \<in> drifted_ids) same_hash);
               missing = length same_hash - drifted
           in Some (if drifted > 0 \<and> missing > 0 then Mixed
                    else if drifted > 0 then RowSetSignatureDrift
                    else MissingPipeline))"

definition apply_forced_version_bump_if_needed ::
  "'a text_lib_scheme \<Rightarrow> (string \<rightharpoonup> string) \<Rightarrow> added_query list \<Rightarrow> nat \<Rightarrow> int \<Rightarrow> int \<Rightarrow> string set \<Rightarrow>
   cvr_version \<Rightarrow> cvr_version \<Rightarrow> (cvr_version \<times> forced_bump_reason option) option" where
  "apply_forced_version_bump_if_needed B hashes adds remove_count current cvr_state drifted_ids orig ver =
     (case decide_forced_version_bump (same_hash_rehydrated_query_ids hashes adds)
         (track_queries_will_bump_version current cvr_state remove_count hashes adds) drifted_ids of
        None \<Rightarrow> Some (ver, None)
      | Some reason \<Rightarrow> do { ver \<leftarrow> ensure_new_version B orig ver; Some (ver, Some reason) })"

section \<open>Queries a commit invalidates\<close>

definition invalidated_query_hashes :: "string set \<Rightarrow> (string \<times> ast) list \<Rightarrow> string list" where
  "invalidated_query_hashes changed qs =
     map fst (bset_of_list (map fst (filter (\<lambda>(h, q). \<exists>t\<in>referenced_tables q. t \<in> changed) qs)))"

definition queries_to_reexecute :: "string list \<Rightarrow> string set \<Rightarrow> string list" where
  "queries_to_reexecute invalidated got = map fst (bset_of_list (filter (\<lambda>h. h \<in> got) invalidated))"

section \<open>Sets as ordered maps\<close>

lemma fold_bset: "bt_ok m \<Longrightarrow> bt_ok (fold (\<lambda>x. bt_set x ()) xs m) \<and> fst ` set (fold (\<lambda>x. bt_set x ()) xs m) = fst ` set m \<union> set xs"
  by (induction xs arbitrary: m) auto

lemma set_bset_of_list [simp]: "fst ` set (bset_of_list xs) = set xs"
  using fold_bset [of "[]" xs] by (simp add: bset_of_list_def)

lemma bt_ok_bset_of_list [simp]: "bt_ok (bset_of_list xs)"
  using fold_bset [of "[]" xs] by (simp add: bset_of_list_def)

lemma bset_sorted: "sorted (map fst (bset_of_list xs))" "distinct (map fst (bset_of_list xs))"
  using bt_ok_bset_of_list [of xs] by (auto simp: bt_ok_def strict_sorted_iff simp del: bt_ok_bset_of_list)

lemma bset_of_list_eq_Nil [simp]: "bset_of_list xs = [] \<longleftrightarrow> xs = []"
  using set_bset_of_list [of xs] by (metis image_is_empty set_empty)

lemma bset_list_eq: "map fst (bset_of_list xs) = sorted_list_of_set (set xs)"
  using bset_sorted [of xs] by (metis list.set_map set_bset_of_list sorted_list_of_set.idem_if_sorted_distinct)

end
