(* ===== verification/Cvr_Desired.thy ===== *)
theory Cvr_Desired
  imports Cvr_Queries
begin

text \<open>
  What the desired-query operations of a CVR keep: a client's list of desired queries is exactly
  the set of queries that hold an active state for it. The invariant \<open>cvr_inv\<close> is kept by putting,
  deleting and inactivating desired queries and by tracking executed queries, and the effect of a
  client's patch on its desired set is a set expression.
\<close>

section \<open>The invariant\<close>

text \<open>A query record is active for a client when it has a state for it that is not inactivated.\<close>

definition act :: "(string, query_record) btree \<Rightarrow> string \<Rightarrow> string \<Rightarrow> bool" where
  "act qs h c \<longleftrightarrow>
     (\<exists>q cs st. map_of qs h = Some q \<and> query_client_state q = Some cs \<and> map_of cs c = Some st \<and> inactivated_at st = None)"

definition internal_at :: "(string, query_record) btree \<Rightarrow> string \<Rightarrow> bool" where
  "internal_at qs h \<longleftrightarrow> (\<exists>q. map_of qs h = Some q \<and> query_client_state q = None)"

definition states_ok :: "(string, client_query_state) btree \<Rightarrow> bool" where
  "states_ok cs \<longleftrightarrow> bt_ok cs \<and> (\<forall>x\<in>set cs. cq_deleted (snd x) = (inactivated_at (snd x) \<noteq> None))"

definition qs_ok :: "(string, query_record) btree \<Rightarrow> bool" where
  "qs_ok qs \<longleftrightarrow> bt_ok qs \<and> (\<forall>x\<in>set qs. \<forall>cs. query_client_state (snd x) = Some cs \<longrightarrow> states_ok cs)"

definition desired_of :: "cvr \<Rightarrow> string \<Rightarrow> string set" where
  "desired_of v c = (case map_of (clients v) c of None \<Rightarrow> {} | Some r \<Rightarrow> set (desired_query_ids r))"

definition cvr_inv :: "cvr \<Rightarrow> bool" where
  "cvr_inv v \<longleftrightarrow> bt_ok (clients v) \<and> qs_ok (queries v) \<and> version_ok (cvr_ver v) \<and>
     (\<forall>x\<in>set (clients v). sorted (desired_query_ids (snd x)) \<and> distinct (desired_query_ids (snd x))) \<and>
     (\<forall>c h. h \<in> desired_of v c \<longleftrightarrow> act (queries v) h c)"

lemma qs_ok_bt: "qs_ok qs \<Longrightarrow> bt_ok qs"
  by (simp add: qs_ok_def)

lemma qs_ok_states: "qs_ok qs \<Longrightarrow> map_of qs h = Some q \<Longrightarrow> query_client_state q = Some cs \<Longrightarrow> states_ok cs"
  by (force simp: qs_ok_def dest: map_of_SomeD)

lemma states_ok_set:
  "states_ok cs \<Longrightarrow> cq_deleted st = (inactivated_at st \<noteq> None) \<Longrightarrow> states_ok (bt_set c st cs)"
  unfolding states_ok_def by (intro conjI bt_set_ball) auto

lemma states_ok_del: "states_ok cs \<Longrightarrow> states_ok (bt_del c cs)"
  unfolding states_ok_def by (intro conjI bt_del_ball) auto

lemma qs_ok_set:
  "qs_ok qs \<Longrightarrow> (\<And>cs. query_client_state q = Some cs \<Longrightarrow> states_ok cs) \<Longrightarrow> qs_ok (bt_set h q qs)"
  unfolding qs_ok_def by (intro conjI bt_set_ball) auto

lemma qs_ok_del: "qs_ok qs \<Longrightarrow> qs_ok (bt_del h qs)"
  unfolding qs_ok_def by (intro conjI bt_del_ball) auto

lemma query_client_state_set [simp]:
  "query_client_state q = Some cs \<Longrightarrow> query_client_state (set_query_client_state cs' q) = Some cs'"
  by (cases q) auto

lemma act_set:
  "act (bt_set h q qs) h' c \<longleftrightarrow>
     (if h' = h then \<exists>cs st. query_client_state q = Some cs \<and> map_of cs c = Some st \<and> inactivated_at st = None
      else act qs h' c)"
  by (auto simp: act_def)

lemma internal_at_set: "internal_at (bt_set h q qs) h' \<longleftrightarrow> (if h' = h then query_client_state q = None else internal_at qs h')"
  by (auto simp: internal_at_def)

text \<open>The version after an update: the bump of the original one when there are patches, the old one otherwise.\<close>

definition bumped :: "'a text_lib_scheme \<Rightarrow> cvr_version \<Rightarrow> cvr \<Rightarrow> cvr \<Rightarrow> 'p list \<Rightarrow> bool" where
  "bumped B orig v v' ps \<longleftrightarrow>
     (if ps = [] then cvr_ver v' = cvr_ver v else ensure_new_version B orig (cvr_ver v) = Some (cvr_ver v'))"

section \<open>Putting desired queries\<close>

lemma new_query_record_state: "new_query_record qid a n as = Some q \<Longrightarrow> query_client_state q = Some []"
  by (auto simp: new_query_record_def new_base_def bind_Some_iff split: option.splits)

definition request_ok :: "desired_query_request \<Rightarrow> bool" where
  "request_ok q \<longleftrightarrow> (\<exists>r. new_query_record (dq_hash q) (dq_ast q) (dq_name q) (dq_args q) = Some r)"

lemma put_one_ok:
  assumes "qs_ok qs" "qid \<in> dq_hash ` set reqs" "\<forall>q\<in>set reqs. request_ok q" "\<not> internal_at qs qid"
  shows "\<exists>qs'. put_one pf c ver reqs qid qs = Some qs' \<and> qs_ok qs' \<and>
    (\<forall>h d. act qs' h d \<longleftrightarrow> act qs h d \<or> h = qid \<and> d = c) \<and> (\<forall>h. internal_at qs' h = internal_at qs h)"
proof -
  obtain q where q: "find (\<lambda>q. dq_hash q = qid) reqs = Some q" "q \<in> set reqs" "dq_hash q = qid"
    using assms(2) by (cases "find (\<lambda>q. dq_hash q = qid) reqs") (auto simp: find_None_iff find_Some_iff)
  obtain query cs where query:
    "(case map_of qs qid of Some query \<Rightarrow> Some query | None \<Rightarrow> new_query_record qid (dq_ast q) (dq_name q) (dq_args q)) = Some query"
    "query_client_state query = Some cs" "states_ok cs"
    "\<And>d. (\<exists>st. map_of cs d = Some st \<and> inactivated_at st = None) \<longleftrightarrow> act qs qid d"
  proof (cases "map_of qs qid")
    case None
    moreover obtain r where "new_query_record qid (dq_ast q) (dq_name q) (dq_args q) = Some r"
      using assms(3) q by (auto simp: request_ok_def)
    ultimately show ?thesis using that [of r "[]"] new_query_record_state by (simp add: states_ok_def act_def)
  next
    case (Some r)
    moreover obtain cs where "query_client_state r = Some cs"
      using assms(4) Some by (cases "query_client_state r") (auto simp: internal_at_def)
    ultimately show ?thesis using that [of r cs] qs_ok_states [OF assms(1)] by (auto simp: act_def)
  qed
  let ?st = "\<lparr>inactivated_at = None, cq_ttl = fst (clamp_ttl pf (requested_ttl q)), cq_deleted = False, cq_version = ver\<rparr>"
  let ?q = "set_query_client_state (bt_set c ?st cs) query"
  have s: "query_client_state ?q = Some (bt_set c ?st cs)" using query(2) by simp
  have "put_one pf c ver reqs qid qs = Some (bt_set qid ?q qs)"
    using q query by (simp add: put_one_def Let_def)
  moreover have "qs_ok (bt_set qid ?q qs)"
    using assms(1) s states_ok_set [OF query(3), of ?st c] by (intro qs_ok_set) auto
  moreover have "act (bt_set qid ?q qs) h d \<longleftrightarrow> act qs h d \<or> h = qid \<and> d = c" for h d
    using s query(4) [of d] by (auto simp: act_set)
  moreover have "internal_at (bt_set qid ?q qs) h = internal_at qs h" for h
    using s assms(4) by (auto simp: internal_at_set)
  ultimately show ?thesis by blast
qed

lemma put_loop_ok:
  "qs_ok qs \<Longrightarrow> set ids \<subseteq> dq_hash ` set reqs \<Longrightarrow> \<forall>q\<in>set reqs. request_ok q \<Longrightarrow> \<forall>h\<in>set ids. \<not> internal_at qs h \<Longrightarrow>
   \<exists>qs'. put_loop pf c ver reqs ids qs = Some (qs', map (\<lambda>h. config_patch PutOp h c ver) ids) \<and> qs_ok qs' \<and>
     (\<forall>h d. act qs' h d \<longleftrightarrow> act qs h d \<or> h \<in> set ids \<and> d = c)"
proof (induction ids arbitrary: qs)
  case (Cons qid ids)
  obtain qs1 where 1: "put_one pf c ver reqs qid qs = Some qs1" "qs_ok qs1"
    "\<And>h d. act qs1 h d \<longleftrightarrow> act qs h d \<or> h = qid \<and> d = c" "\<And>h. internal_at qs1 h = internal_at qs h"
    using put_one_ok [of qs qid reqs pf c ver] Cons.prems by auto
  obtain qs2 where "put_loop pf c ver reqs ids qs1 = Some (qs2, map (\<lambda>h. config_patch PutOp h c ver) ids)" "qs_ok qs2"
    "\<And>h d. act qs2 h d \<longleftrightarrow> act qs1 h d \<or> h \<in> set ids \<and> d = c"
    using Cons.IH [OF 1(2)] Cons.prems 1(4) by auto
  with 1 show ?case by auto
qed simp

text \<open>Setting a client's desired list.\<close>

lemma desired_of_set:
  assumes "map_of (clients v) c = Some r"
  shows "\<exists>v'. set_desired c ids v = Some v' \<and> queries v' = queries v \<and> cvr_ver v' = cvr_ver v \<and>
    clients v' = bt_set c (r\<lparr>desired_query_ids := ids\<rparr>) (clients v) \<and>
    (\<forall>d. desired_of v' d = (if d = c then set ids else desired_of v d))"
  using assms by (auto simp: set_desired_def desired_of_def)

lemma ensure_client_props:
  assumes "cvr_inv v"
  shows "cvr_inv (ensure_client c v)" "desired_of (ensure_client c v) = desired_of v"
    "queries (ensure_client c v) = queries v" "cvr_ver (ensure_client c v) = cvr_ver v"
    "\<exists>r. map_of (clients (ensure_client c v)) c = Some r"
proof -
  show d: "desired_of (ensure_client c v) = desired_of v"
    by (auto simp: ensure_client_def desired_of_def fun_eq_iff split: option.splits)
  show "queries (ensure_client c v) = queries v" "cvr_ver (ensure_client c v) = cvr_ver v"
    "\<exists>r. map_of (clients (ensure_client c v)) c = Some r"
    by (auto simp: ensure_client_def split: option.splits)
  have "\<forall>x\<in>set (clients (ensure_client c v)). sorted (desired_query_ids (snd x)) \<and> distinct (desired_query_ids (snd x))"
    using assms bt_set_ball [of "clients v" "\<lambda>x. sorted (desired_query_ids (snd x)) \<and> distinct (desired_query_ids (snd x))"
        c "\<lparr>cr_id = c, desired_query_ids = []\<rparr>"]
    by (simp add: ensure_client_def cvr_inv_def split: option.splits)
  then show "cvr_inv (ensure_client c v)"
    using assms d by (auto simp: cvr_inv_def ensure_client_def split: option.splits)
qed

text \<open>The invariant after a client's list, the queries and the version have been replaced together.\<close>

lemma cvr_inv_update:
  assumes "cvr_inv v" "map_of (clients v) c = Some r" "sorted ids" "distinct ids" "qs_ok qs" "version_ok ver"
    and "\<And>h d. act qs h d \<longleftrightarrow> (if d = c then h \<in> set ids else act (queries v) h d)"
  shows "\<exists>v'. set_desired c ids (v\<lparr>cvr_ver := ver\<rparr>) = Some v' \<and> queries v' = queries v \<and>
    cvr_inv (v'\<lparr>queries := qs\<rparr>) \<and> cvr_ver v' = ver \<and>
    (\<forall>d. desired_of (v'\<lparr>queries := qs\<rparr>) d = (if d = c then set ids else desired_of v d))"
proof -
  let ?r = "r\<lparr>desired_query_ids := ids\<rparr>"
  obtain v' where v': "set_desired c ids (v\<lparr>cvr_ver := ver\<rparr>) = Some v'" "queries v' = queries v" "cvr_ver v' = ver"
    "clients v' = bt_set c ?r (clients v)" "\<And>d. desired_of v' d = (if d = c then set ids else desired_of v d)"
    using desired_of_set [of "v\<lparr>cvr_ver := ver\<rparr>" c r ids] assms(2) by (auto simp: desired_of_def)
  have D: "desired_of (v'\<lparr>queries := qs\<rparr>) = desired_of v'" by (simp add: desired_of_def fun_eq_iff)
  have "\<forall>x\<in>set (clients v'). sorted (desired_query_ids (snd x)) \<and> distinct (desired_query_ids (snd x))"
    unfolding v'(4) using assms(1,3,4) by (intro bt_set_ball) (auto simp: cvr_inv_def)
  moreover have "bt_ok (clients v')" using assms(1) v'(4) by (simp add: cvr_inv_def)
  moreover have "h \<in> desired_of v d \<longleftrightarrow> act (queries v) h d" for h d using assms(1) by (simp add: cvr_inv_def)
  ultimately have "cvr_inv (v'\<lparr>queries := qs\<rparr>)" using assms(5-7) v'(3,5) by (simp add: cvr_inv_def D)
  with v' D show ?thesis by auto
qed

definition put_hashes :: "(string, query_record) btree \<Rightarrow> desired_query_request list \<Rightarrow> string set" where
  "put_hashes qs reqs = {h \<in> dq_hash ` set reqs. \<not> internal_at qs h}"

lemma query_needed_cases:
  "query_needed pf qs c (h, t) \<Longrightarrow> \<not> internal_at qs h"
  "\<not> query_needed pf qs c (h, t) \<Longrightarrow> internal_at qs h \<or> act qs h c"
  by (auto simp: query_needed_def internal_at_def act_def split: option.splits if_splits)

lemma put_desired_queries_ok:
  assumes "cvr_inv v" "version_ok orig" "config_or_0 (cvr_ver v) < 2 ^ 53" "\<forall>q\<in>set reqs. request_ok q"
  shows "\<exists>v' ps. put_desired_queries B pf orig c reqs v = Some (v', ps) \<and> cvr_inv v' \<and>
    (\<forall>d. desired_of v' d = (if d = c then desired_of v c \<union> put_hashes (queries v) reqs else desired_of v d)) \<and>
    bumped B orig v v' ps \<and> (\<forall>p\<in>set ps. pv_to_version p = cvr_ver v')"
proof -
  let ?v = "ensure_client c v"
  note E = ensure_client_props [OF assms(1), of c]
  obtain r where r: "map_of (clients ?v) c = Some r" using E(5) by blast
  let ?des = "map (\<lambda>q. (dq_hash q, requested_ttl q)) reqs"
  let ?N = "map fst (compute_needed_queries pf ?des (queries v) c)"
  have N: "set ?N = {h. \<exists>q\<in>set reqs. h = dq_hash q \<and> query_needed pf (queries v) c (h, requested_ttl q)}"
    by (force simp: compute_needed_queries_def image_iff)
  have inv: "h \<in> desired_of v d \<longleftrightarrow> act (queries v) h d" for h d using assms(1) by (simp add: cvr_inv_def)
  have ph: "desired_of v c \<union> put_hashes (queries v) reqs = desired_of v c \<union> set ?N"
    using query_needed_cases unfolding put_hashes_def N inv [symmetric] set_eq_iff by (auto simp: inv) blast+
  show ?thesis
  proof (cases "?N = []")
    case True
    then have "put_desired_queries B pf orig c reqs v = Some (?v, [])"
      using E(3) by (simp add: put_desired_queries_def Let_def)
    then show ?thesis using E ph True by (auto simp: fun_eq_iff bumped_def)
  next
    case False
    obtain ver where ver: "ensure_new_version B orig (cvr_ver v) = Some ver" "version_ok ver"
      "version_key (cvr_ver v) \<le> version_key ver" "version_key ver \<noteq> version_key orig" "ensure_new_version B orig ver = Some ver"
      using ensure_new_version_key [OF assms(2) _ assms(3), of B] assms(1) by (auto simp: cvr_inv_def)
    let ?ids = "map fst (bset_of_list (desired_query_ids r @ ?N))"
    have q: "qs_ok (queries v)" using assms(1) by (simp add: cvr_inv_def)
    have sub: "set ?N \<subseteq> dq_hash ` set reqs" "\<forall>h\<in>set ?N. \<not> internal_at (queries v) h"
      using N query_needed_cases(1) by blast+
    obtain qs where qs: "put_loop pf c ver reqs ?N (queries v) = Some (qs, map (\<lambda>h. config_patch PutOp h c ver) ?N)"
      "qs_ok qs" "\<And>h d. act qs h d \<longleftrightarrow> act (queries v) h d \<or> h \<in> set ?N \<and> d = c"
      using put_loop_ok [OF q sub(1) assms(4) sub(2), of pf c ver] by blast
    have dc: "desired_of ?v c = set (desired_query_ids r)" using r by (simp add: desired_of_def)
    have ids: "set ?ids = desired_of v c \<union> set ?N" "sorted ?ids" "distinct ?ids"
      using dc E(2) bset_sorted [of "desired_query_ids r @ ?N"] set_bset_of_list [of "desired_query_ids r @ ?N"]
      by (simp_all add: fun_eq_iff)
    have a: "act qs h d \<longleftrightarrow> (if d = c then h \<in> set ?ids else act (queries ?v) h d)" for h d
      using qs(3) [of h d] ids(1) inv [of h c] E(3) by auto
    obtain v' where v': "set_desired c ?ids (?v\<lparr>cvr_ver := ver\<rparr>) = Some v'" "queries v' = queries ?v"
      "cvr_inv (v'\<lparr>queries := qs\<rparr>)" "cvr_ver v' = ver"
      "\<And>d. desired_of (v'\<lparr>queries := qs\<rparr>) d = (if d = c then set ?ids else desired_of ?v d)"
      using cvr_inv_update [OF E(1) r ids(2,3) qs(2) ver(2) a] by auto
    have "put_desired_queries B pf orig c reqs v = Some (v'\<lparr>queries := qs\<rparr>, map (\<lambda>h. config_patch PutOp h c ver) ?N)"
      using False ver(1) r v'(1,2) qs(1) E(3,4) by (simp add: put_desired_queries_def Let_def)
    with v'(3-5) ver(1) ph ids(1) E(2) False show ?thesis by (auto simp: config_patch_def bumped_def)
  qed
qed

section \<open>Deleting and inactivating desired queries\<close>

lemma delete_one_ok:
  assumes "query_client_state q = Some cs" "states_ok cs"
    and "inactivated \<noteq> None \<longrightarrow> (\<forall>st. map_of cs c = Some st \<longrightarrow> inactivated_at st = None)"
  shows "\<exists>q' cs'. delete_one pf c ver inactivated q = Some q' \<and> query_client_state q' = Some cs' \<and> states_ok cs' \<and>
    (\<forall>d. (\<exists>st. map_of cs' d = Some st \<and> inactivated_at st = None) \<longleftrightarrow>
       d \<noteq> c \<and> (\<exists>st. map_of cs d = Some st \<and> inactivated_at st = None))"
proof (cases inactivated)
  case None
  have "map_of (bt_del c cs) = (map_of cs)(c := None)" using assms(2) by (simp add: states_ok_def)
  then show ?thesis
    using None assms states_ok_del [OF assms(2), of c] by (auto simp: delete_one_def)
next
  case (Some t)
  show ?thesis
  proof (cases "map_of cs c")
    case None
    then show ?thesis using Some assms by (auto simp: delete_one_def)
  next
    case (Some st)
    let ?st = "\<lparr>inactivated_at = Some t, cq_ttl = fst (clamp_ttl pf (TtlMillis (cq_ttl st))), cq_deleted = True, cq_version = ver\<rparr>"
    have "states_ok (bt_set c ?st cs)" by (rule states_ok_set [OF assms(2)]) simp
    then show ?thesis using Some \<open>inactivated = Some t\<close> assms by (auto simp: delete_one_def)
  qed
qed

lemma delete_loop_ok:
  "qs_ok qs \<Longrightarrow> \<forall>h\<in>set ids. act qs h c \<Longrightarrow> distinct ids \<Longrightarrow>
   \<exists>qs'. delete_loop pf c ver inactivated ids qs = Some (qs', map (\<lambda>h. config_patch DelOp h c ver) ids) \<and> qs_ok qs' \<and>
     (\<forall>h d. act qs' h d \<longleftrightarrow> act qs h d \<and> \<not> (h \<in> set ids \<and> d = c))"
proof (induction ids arbitrary: qs)
  case (Cons qid ids)
  have "act qs qid c" using Cons.prems by simp
  then obtain q cs st where q: "map_of qs qid = Some q" "query_client_state q = Some cs" "map_of cs c = Some st" "inactivated_at st = None"
    by (auto simp: act_def)
  obtain q' cs' where d: "delete_one pf c ver inactivated q = Some q'" "query_client_state q' = Some cs'" "states_ok cs'"
    "\<And>d. (\<exists>st. map_of cs' d = Some st \<and> inactivated_at st = None) \<longleftrightarrow> d \<noteq> c \<and> (\<exists>st. map_of cs d = Some st \<and> inactivated_at st = None)"
    using delete_one_ok [OF q(2) qs_ok_states [OF Cons.prems(1) q(1,2)], of inactivated c pf ver] q(3,4) by auto
  let ?qs = "bt_set qid q' qs"
  have ok: "qs_ok ?qs" using Cons.prems(1) d(2,3) by (intro qs_ok_set) auto
  have a: "act ?qs h e \<longleftrightarrow> act qs h e \<and> \<not> (h = qid \<and> e = c)" for h e
    using d(2) d(4) [of e] q(1,2) by (auto simp: act_set act_def)
  have "\<forall>h\<in>set ids. act ?qs h c" using Cons.prems a by auto
  then obtain qs2 where "delete_loop pf c ver inactivated ids ?qs = Some (qs2, map (\<lambda>h. config_patch DelOp h c ver) ids)"
    "qs_ok qs2" "\<And>h d. act qs2 h d \<longleftrightarrow> act ?qs h d \<and> \<not> (h \<in> set ids \<and> d = c)"
    using Cons.IH [OF ok] Cons.prems(3) by auto
  then show ?case using q(1) d(1) a by auto
qed simp

lemma delete_queries_ok:
  assumes "cvr_inv v" "version_ok orig" "config_or_0 (cvr_ver v) < 2 ^ 53"
  shows "\<exists>v' ps. delete_queries B pf orig c hashes inactivated v = Some (v', ps) \<and> cvr_inv v' \<and>
    (\<forall>d. desired_of v' d = (if d = c then desired_of v c - set hashes else desired_of v d)) \<and>
    bumped B orig v v' ps \<and> (\<forall>p\<in>set ps. pv_to_version p = cvr_ver v')"
proof -
  let ?v = "ensure_client c v"
  note E = ensure_client_props [OF assms(1), of c]
  obtain r where r: "map_of (clients ?v) c = Some r" using E(5) by blast
  let ?cur = "map fst (bset_of_list (desired_query_ids r))"
  let ?R = "filter (\<lambda>h. h \<in> set hashes) ?cur" and ?ids = "filter (\<lambda>h. h \<notin> set hashes) ?cur"
  have "desired_of ?v c = set ?cur" using r by (simp add: desired_of_def)
  then have dc: "desired_of v c = set ?cur" by (simp only: E(2))
  have inv: "h \<in> desired_of v d \<longleftrightarrow> act (queries v) h d" for h d using assms(1) by (simp add: cvr_inv_def)
  show ?thesis
  proof (cases "?R = []")
    case True
    then have "delete_queries B pf orig c hashes inactivated v = Some (?v, [])"
      using r by (simp add: delete_queries_def Let_def)
    moreover have "desired_of v c - set hashes = desired_of v c" using True unfolding dc filter_empty_conv by blast
    ultimately show ?thesis using E by (auto simp: bumped_def)
  next
    case False
    obtain ver where ver: "ensure_new_version B orig (cvr_ver v) = Some ver" "version_ok ver"
      "version_key (cvr_ver v) \<le> version_key ver" "version_key ver \<noteq> version_key orig" "ensure_new_version B orig ver = Some ver"
      using ensure_new_version_key [OF assms(2) _ assms(3), of B] assms(1) by (auto simp: cvr_inv_def)
    have q: "qs_ok (queries v)" using assms(1) by (simp add: cvr_inv_def)
    have R: "\<forall>h\<in>set ?R. act (queries v) h c" "distinct ?R" "sorted ?ids" "distinct ?ids"
      using dc inv bset_sorted [of "desired_query_ids r"] by (auto simp: sorted_wrt_filter simp del: set_map)
    obtain qs where qs: "delete_loop pf c ver inactivated ?R (queries v) = Some (qs, map (\<lambda>h. config_patch DelOp h c ver) ?R)"
      "qs_ok qs" "\<And>h d. act qs h d \<longleftrightarrow> act (queries v) h d \<and> \<not> (h \<in> set ?R \<and> d = c)"
      using delete_loop_ok [OF q R(1,2), of pf ver inactivated] by blast
    have a: "act qs h d \<longleftrightarrow> (if d = c then h \<in> set ?ids else act (queries ?v) h d)" for h d
      using qs(3) [of h d] dc inv [of h c] E(3) by auto
    obtain v' where v': "set_desired c ?ids (?v\<lparr>cvr_ver := ver\<rparr>) = Some v'" "queries v' = queries ?v"
      "cvr_inv (v'\<lparr>queries := qs\<rparr>)" "cvr_ver v' = ver"
      "\<And>d. desired_of (v'\<lparr>queries := qs\<rparr>) d = (if d = c then set ?ids else desired_of ?v d)"
      using cvr_inv_update [OF E(1) r R(3,4) qs(2) ver(2) a] by auto
    have "delete_queries B pf orig c hashes inactivated v = Some (v'\<lparr>queries := qs\<rparr>, map (\<lambda>h. config_patch DelOp h c ver) ?R)"
      using False ver(1) r v'(1,2) qs(1) E(3,4) by (simp add: delete_queries_def Let_def)
    moreover have "set ?ids = desired_of v c - set hashes" using dc by auto
    ultimately show ?thesis using v'(3-5) ver(1) E(2) False by (auto simp: config_patch_def bumped_def)
  qed
qed

section \<open>A client's patch\<close>

lemma ensure_config:
  assumes "ensure_new_version B orig cur = Some new" "version_ok cur" "config_or_0 cur < 2 ^ 53 - 1"
  shows "config_or_0 new < 2 ^ 53"
proof (cases "cmp_versions (Some orig) (Some cur) = 0")
  case True
  with assms obtain w where w: "one_after B (Some cur) = Some w" "new = w"
    by (auto simp: ensure_new_version_def set_version_def bind_Some_iff)
  then have "config_ver w = Some (config_or_0 cur + 1)" using bump_key(4) [OF assms(2) _ w(1)] assms(3) by simp
  then show ?thesis using assms(3) w(2) by (simp add: config_or_0_def)
qed (use assms in \<open>auto simp: ensure_new_version_def\<close>)

lemma bumped_trans:
  assumes "bumped B orig v v1 ps" "bumped B orig v1 v2 qs" "version_ok orig" "version_ok (cvr_ver v)" "config_or_0 (cvr_ver v) < 2 ^ 53"
  shows "bumped B orig v v2 (ps @ qs)"
proof -
  obtain w where "ensure_new_version B orig (cvr_ver v) = Some w" "ensure_new_version B orig w = Some w"
    using ensure_new_version_key [OF assms(3-5), of B] by blast
  then show ?thesis using assms(1,2) by (auto simp: bumped_def split: if_splits)
qed

lemma bumped_versions:
  assumes "bumped B orig v v1 ps" "\<forall>p\<in>set ps. pv_to_version p = cvr_ver v1"
    "bumped B orig v1 v2 qs" "\<forall>p\<in>set qs. pv_to_version p = cvr_ver v2"
    "version_ok orig" "version_ok (cvr_ver v)" "config_or_0 (cvr_ver v) < 2 ^ 53"
  shows "\<forall>p\<in>set (ps @ qs). pv_to_version p = cvr_ver v2"
proof -
  obtain w where w: "ensure_new_version B orig (cvr_ver v) = Some w" "ensure_new_version B orig w = Some w"
    using ensure_new_version_key [OF assms(5-7), of B] by blast
  have "ps = [] \<or> cvr_ver v2 = cvr_ver v1"
    using assms(1,3) w by (cases "ps = []"; cases "qs = []") (simp_all add: bumped_def)
  then show ?thesis using assms(2,4) by auto
qed

definition dropped :: "up_queries_patch_op list \<Rightarrow> string set \<Rightarrow> string set" where
  "dropped ops desired = set (patch_dels ops) \<union> (if UpClear \<in> set ops then desired else {})"

lemma dropped_dels:
  "set (patch_dels ops @ (if UpClear \<in> set ops
     then (case map_of (clients v) c of None \<Rightarrow> [] | Some client \<Rightarrow> desired_query_ids client) else [])) =
   dropped ops (desired_of v c)"
  unfolding dropped_def desired_of_def set_append
  by (cases "UpClear \<in> set ops"; cases "map_of (clients v) c") (simp_all only: if_True if_False option.case list.set)

lemma apply_patch_ok:
  assumes inv: "cvr_inv v" and small: "config_or_0 (cvr_ver v) < 2 ^ 53 - 1" and reqs: "\<forall>q\<in>set (patch_puts ops). request_ok q"
  shows "\<exists>v' ps. apply_desired_queries_patch B pf c ops v = Some (v', ps) \<and> cvr_inv v' \<and>
    (\<forall>d. desired_of v' d = (if d = c
       then (desired_of v c \<union> put_hashes (queries v) (patch_puts ops)) - dropped ops (desired_of v c) else desired_of v d)) \<and>
    bumped B (cvr_ver v) v v' ps \<and> (\<forall>p\<in>set ps. pv_to_version p = cvr_ver v')"
proof -
  let ?o = "cvr_ver v" and ?puts = "patch_puts ops"
  define dels where "dels = patch_dels ops @ (if UpClear \<in> set ops
      then (case map_of (clients v) c of None \<Rightarrow> [] | Some client \<Rightarrow> desired_query_ids client) else [])"
  have o': "version_ok ?o" "config_or_0 ?o < 2 ^ 53" using inv small by (auto simp: cvr_inv_def)
  have D: "set dels = dropped ops (desired_of v c)" unfolding dels_def by (rule dropped_dels)
  obtain v1 ps where 1: "(if ?puts = [] then Some (v, []) else put_desired_queries B pf ?o c ?puts v) = Some (v1, ps)"
    "cvr_inv v1" "\<And>d. desired_of v1 d = (if d = c then desired_of v c \<union> put_hashes (queries v) ?puts else desired_of v d)"
    "bumped B ?o v v1 ps" "\<forall>p\<in>set ps. pv_to_version p = cvr_ver v1"
  proof (cases "?puts = []")
    case True
    then show ?thesis using that [of v "[]"] inv by (simp add: put_hashes_def bumped_def)
  next
    case False
    then show ?thesis using that put_desired_queries_ok [OF inv o' reqs, of B pf c] by auto
  qed
  have v1: "config_or_0 (cvr_ver v1) < 2 ^ 53"
    using 1(4) ensure_config [OF _ o'(1) small] o'(2) by (auto simp: bumped_def split: if_splits)
  obtain v2 qs where 2: "(if dels = [] then Some (v1, []) else delete_queries B pf ?o c dels None v1) = Some (v2, qs)"
    "cvr_inv v2" "\<And>d. desired_of v2 d = (if d = c then desired_of v1 c - set dels else desired_of v1 d)"
    "bumped B ?o v1 v2 qs" "\<forall>p\<in>set qs. pv_to_version p = cvr_ver v2"
  proof (cases "dels = []")
    case True
    then show ?thesis using that [of v1 "[]"] 1(2) by (simp add: bumped_def)
  next
    case False
    then show ?thesis using that delete_queries_ok [OF 1(2) o'(1) v1, of B pf c dels None] by auto
  qed
  have b: "bumped B ?o v v2 (ps @ qs)" by (rule bumped_trans [OF 1(4) 2(4) o'(1) o'])
  have vs: "\<forall>p\<in>set (ps @ qs). pv_to_version p = cvr_ver v2"
    by (rule bumped_versions [OF 1(4,5) 2(4,5) o'(1) o'])
  have a: "apply_desired_queries_patch B pf c ops v = Some (v2, ps @ qs)"
    using 1(1) 2(1) unfolding apply_desired_queries_patch_def Let_def dels_def by (simp split del: if_split)
  have "\<forall>d. desired_of v2 d = (if d = c
       then (desired_of v c \<union> put_hashes (queries v) ?puts) - dropped ops (desired_of v c) else desired_of v d)"
    by (simp add: 1(3) 2(3) D)
  then show ?thesis using a 2(2) b vs by (intro exI conjI)
qed

section \<open>Properties\<close>


definition sample_cvr :: cvr where
  "sample_cvr =
     \<lparr>cvr_id = ''g'', cvr_ver = \<lparr>state_ver = ''01'', config_ver = None\<rparr>, last_active = F_Fin 0, ttl_clk = TtlClock (F_Fin 0),
      replica_version = None, clients = [], queries = [], client_schema = None, profile_id = None\<rparr>"

definition sample_put :: "string \<Rightarrow> up_queries_patch_op" where
  "sample_put h = UpPut \<lparr>up_hash = h, up_ttl = Some (F_Fin 1000), up_ast = Some (ast_table_only ''t''), up_name = None, up_args = None\<rparr>"

lemma sample_cvr_inv: "cvr_inv sample_cvr"
  by (simp add: cvr_inv_def sample_cvr_def qs_ok_def version_ok_def config_or_0_def desired_of_def act_def)

lemma sample_put_ok: "\<forall>q\<in>set (patch_puts [sample_put h, UpDel d]). request_ok q"
  by (simp add: sample_put_def request_ok_def put_request_def new_query_record_def)


text \<open>
  C31. Order in a patch is lost: a patch that clears and then puts a query the client already
  desired leaves the client without that query, because all puts are applied before all deletions.
\<close>

theorem clear_then_put_drops:
  assumes "cvr_inv v" "config_or_0 (cvr_ver v) < 2 ^ 53 - 1" "request_ok (put_request p)" "up_hash p \<in> desired_of v c"
  shows "\<exists>v' ps. apply_desired_queries_patch B pf c [UpClear, UpPut p] v = Some (v', ps) \<and> up_hash p \<notin> desired_of v' c"
  using apply_patch_ok [OF assms(1,2), of "[UpClear, UpPut p]" B pf c] assms(3,4) by (auto simp: dropped_def)


definition sample_active :: client_query_state where
  "sample_active = \<lparr>inactivated_at = None, cq_ttl = F_Fin 1000, cq_deleted = False, cq_version = \<lparr>state_ver = ''01'', config_ver = None\<rparr>\<rparr>"

definition sample_cvr2 :: cvr where
  "sample_cvr2 = sample_cvr
     \<lparr>clients := [(''c'', \<lparr>cr_id = ''c'', desired_query_ids = [''q1'']\<rparr>)],
      queries := [(''q1'', QClient ((new_base ''q1'')\<lparr>client_state := [(''c'', sample_active)]\<rparr>) (ast_table_only ''t''))]\<rparr>"

lemma sample_cvr2_inv: "cvr_inv sample_cvr2"
  by (auto simp: cvr_inv_def sample_cvr2_def sample_active_def sample_cvr_def qs_ok_def states_ok_def version_ok_def
      config_or_0_def desired_of_def act_def bt_ok_def)

theorem clear_then_put_drops_witness:
  "\<exists>v' ps. apply_desired_queries_patch std_text (\<lambda>_. None) ''c''
      [UpClear, UpPut \<lparr>up_hash = ''q1'', up_ttl = None, up_ast = Some (ast_table_only ''t''), up_name = None, up_args = None\<rparr>] sample_cvr2 =
    Some (v', ps) \<and> ''q1'' \<notin> desired_of v' ''c''"
  using clear_then_put_drops [OF sample_cvr2_inv, of "\<lparr>up_hash = ''q1'', up_ttl = None, up_ast = Some (ast_table_only ''t''), up_name = None, up_args = None\<rparr>"
      "''c''" std_text "\<lambda>_. None"]
  by (simp add: sample_cvr2_def sample_cvr_def desired_of_def config_or_0_def request_ok_def put_request_def new_query_record_def)

end
