(* ===== verification/Cvr_Rows.thy ===== *)
theory Cvr_Rows
  imports Cvr_Queries "HOL-Library.AList"
begin

text \<open>
  The rows of a CVR: what one received row changes (\<open>cvr_row_received.rs\<close>), which rows lose their
  last reference (\<open>cvr_delete_unreferenced_rows.rs\<close>), and the hydration of one query, which
  composes the two (\<open>query_hydration.rs\<close>), with the row records it writes (\<open>live_hydration.rs\<close>).
  A \<open>HashMap\<close> is an association list updated with \<open>AList.update\<close>; the type of row keys stays
  a type variable, as in the code.
\<close>

section \<open>One received row\<close>

record existing_row =
  er_row_version :: string
  er_patch_version :: cvr_version
  er_ref_counts :: "ref_counts option"

record row_update =
  ru_version :: "string option"
  ru_has_contents :: bool
  ru_ref_counts :: "ref_counts option"

datatype row_store_write = StorePut string cvr_version "ref_counts option" | StoreDelete

datatype row_client_patch = ClientDel cvr_version | ClientPut cvr_version

record last_patch_info =
  lp_row_version :: "string option"
  lp_to_version :: cvr_version

record row_outcome =
  store_write :: row_store_write
  client_patch :: "row_client_patch option"

type_synonym 'k received_rows = "('k \<times> ref_counts option) list"
type_synonym 'k last_patches = "('k \<times> last_patch_info) list"

definition assert_new_version :: "cvr_version \<Rightarrow> cvr_version \<Rightarrow> unit option" where
  "assert_new_version orig current = assert_ok (cmp_versions (Some orig) (Some current) < 0)"

definition process_received_row ::
  "'k \<Rightarrow> existing_row option \<Rightarrow> row_update \<Rightarrow> string set option \<Rightarrow> cvr_version \<Rightarrow> cvr_version \<Rightarrow>
   'k received_rows \<times> 'k last_patches \<Rightarrow> (row_outcome \<times> 'k received_rows \<times> 'k last_patches) option" where
  "process_received_row rid existing update remove_hashes orig ver st =
     (let (received, last_patches) = st;
          previously_received = map_of received rid;
          merged = (case previously_received of
                      Some prev \<Rightarrow> merge_ref_counts prev (ru_ref_counts update) None
                    | None \<Rightarrow> merge_ref_counts (Option.bind existing er_ref_counts) (ru_ref_counts update) remove_hashes);
          received = AList.update rid merged received;
          new_row_version = (if merged = None then None else ru_version update)
      in do {
        patch_version \<leftarrow>
          (if map_option (\<lambda>e. Some (er_row_version e) = new_row_version) existing = Some True
           then map_option er_patch_version existing
           else do { assert_new_version orig ver; Some ver });
        let row_version = (case ru_version update of Some rv \<Rightarrow> Some rv | None \<Rightarrow> map_option er_row_version existing);
        let write = (case row_version of Some rv \<Rightarrow> StorePut rv patch_version merged | None \<Rightarrow> StoreDelete);
        let last_patch = map_of last_patches rid;
        let to_version = max_version patch_version (map_option lp_to_version last_patch);
        (client, last_patches) \<leftarrow>
          (if merged = None then
             (if (existing \<noteq> None \<or> previously_received \<noteq> None) \<and> map_option lp_row_version last_patch \<noteq> Some None
              then Some (Some (ClientDel to_version),
                         AList.update rid \<lparr>lp_row_version = None, lp_to_version = to_version\<rparr> last_patches)
              else Some (None, last_patches))
           else if ru_has_contents update then do {
             rv \<leftarrow> row_version;
             let should_emit = (case last_patch of None \<Rightarrow> True
                                | Some p \<Rightarrow> (case lp_row_version p of None \<Rightarrow> True | Some prev_rv \<Rightarrow> prev_rv < rv));
             Some (if should_emit
                   then (Some (ClientPut to_version),
                         AList.update rid \<lparr>lp_row_version = Some rv, lp_to_version = to_version\<rparr> last_patches)
                   else (None, last_patches))
           }
           else Some (None, last_patches));
        Some (\<lparr>store_write = write, client_patch = client\<rparr>, received, last_patches)
      })"

section \<open>Rows without references\<close>

record 'k del_existing_row =
  de_id :: 'k
  de_row_version :: string
  de_patch_version :: cvr_version
  de_ref_counts :: "ref_counts option"

record 'k row_record_write =
  rw_id :: 'k
  rw_row_version :: string
  rw_patch_version :: cvr_version
  rw_ref_counts :: "ref_counts option"

record 'k deletion_result =
  row_writes :: "'k row_record_write list"
  del_patches :: "('k \<times> cvr_version) list"

definition delete_unreferenced_row ::
  "'k del_existing_row \<Rightarrow> 'k received_rows \<Rightarrow> string set \<Rightarrow> cvr_version \<Rightarrow> cvr_version \<Rightarrow> 'k row_record_write option option" where
  "delete_unreferenced_row existing received removed_or_executed orig ver =
     (case map_of received (de_id existing) of
        Some (Some _) \<Rightarrow> Some None
      | _ \<Rightarrow> (let new_ref_counts = merge_ref_counts (de_ref_counts existing) None (Some removed_or_executed) in do {
          patch_version \<leftarrow> (case new_ref_counts of Some _ \<Rightarrow> Some (de_patch_version existing)
                            | None \<Rightarrow> do { assert_new_version orig ver; Some ver });
          Some (Some \<lparr>rw_id = de_id existing, rw_row_version = de_row_version existing, rw_patch_version = patch_version,
                      rw_ref_counts = new_ref_counts\<rparr>)
        }))"

fun unreferenced_loop ::
  "'k received_rows \<Rightarrow> string set \<Rightarrow> cvr_version \<Rightarrow> cvr_version \<Rightarrow> 'k del_existing_row list \<Rightarrow> 'k last_patches \<Rightarrow>
   ('k deletion_result \<times> 'k last_patches) option" where
  "unreferenced_loop received hashes orig ver [] last_patches = Some (\<lparr>row_writes = [], del_patches = []\<rparr>, last_patches)"
| "unreferenced_loop received hashes orig ver (existing # rest) last_patches = do {
     w \<leftarrow> delete_unreferenced_row existing received hashes orig ver;
     (case w of
        None \<Rightarrow> unreferenced_loop received hashes orig ver rest last_patches
      | Some write \<Rightarrow>
          let last_patch = map_of last_patches (rw_id write);
              to_version = max_version ver (map_option lp_to_version last_patch)
          in if rw_ref_counts write \<noteq> None \<or> map_option lp_row_version last_patch = Some None
             then do {
               (res, last_patches) \<leftarrow> unreferenced_loop received hashes orig ver rest last_patches;
               Some (res\<lparr>row_writes := write # row_writes res\<rparr>, last_patches)
             }
             else do {
               (res, last_patches) \<leftarrow> unreferenced_loop received hashes orig ver rest
                 (AList.update (rw_id write) \<lparr>lp_row_version = None, lp_to_version = to_version\<rparr> last_patches);
               Some (res\<lparr>row_writes := write # row_writes res, del_patches := (rw_id write, to_version) # del_patches res\<rparr>, last_patches)
             })
   }"

definition delete_unreferenced_rows ::
  "'k del_existing_row list \<Rightarrow> 'k received_rows \<Rightarrow> string set \<Rightarrow> cvr_version \<Rightarrow> cvr_version \<Rightarrow> 'k last_patches \<Rightarrow>
   ('k deletion_result \<times> 'k last_patches) option" where
  "delete_unreferenced_rows existing_rows received removed_or_executed orig ver last_patches =
     (if removed_or_executed = {}
      then do { assert_ok (received = []); Some (\<lparr>row_writes = [], del_patches = []\<rparr>, last_patches) }
      else unreferenced_loop received removed_or_executed orig ver existing_rows last_patches)"

section \<open>Hydrating a query\<close>

record 'k hydration_result =
  query_patches :: "query_patch list"
  row_outcomes :: "('k \<times> row_outcome) list"
  deleted_row_patches :: "('k \<times> cvr_version) list"
  deletion_row_writes :: "'k row_record_write list"
  fetched_rows :: "('k \<times> row) list"

record 'k row_identity =
  row_key :: "row \<Rightarrow> 'k"
  row_ref_counts :: "row \<Rightarrow> ref_counts"
  row_version :: "row \<Rightarrow> string"
  wire_row_id :: "'k \<Rightarrow> row_id"

fun received_loop ::
  "'k row_identity \<Rightarrow> ('k \<times> existing_row) list \<Rightarrow> cvr_version \<Rightarrow> cvr_version \<Rightarrow> row list \<Rightarrow> 'k received_rows \<times> 'k last_patches \<Rightarrow>
   (('k \<times> row_outcome) list \<times> 'k received_rows \<times> 'k last_patches) option" where
  "received_loop I existing orig ver [] st = Some ([], st)"
| "received_loop I existing orig ver (row # rows) st = do {
     let key = row_key I row;
     (outcome, st) \<leftarrow> process_received_row key (map_of existing key)
       \<lparr>ru_version = Some (row_version I row), ru_has_contents = True, ru_ref_counts = Some (row_ref_counts I row)\<rparr>
       None orig ver st;
     (outcomes, st) \<leftarrow> received_loop I existing orig ver rows st;
     Some ((key, outcome) # outcomes, st)
   }"

definition hydrate_query_from_rows ::
  "'a text_lib_scheme \<Rightarrow> cvr_version \<Rightarrow> string \<Rightarrow> string \<Rightarrow> row list \<Rightarrow> 'k row_identity \<Rightarrow> ('k \<times> existing_row) list \<Rightarrow>
   'k del_existing_row list \<Rightarrow> cvr \<times> string set \<times> 'k received_rows \<times> 'k last_patches \<Rightarrow>
   (('k hydration_result) \<times> cvr \<times> string set \<times> 'k received_rows \<times> 'k last_patches) option" where
  "hydrate_query_from_rows B orig query_id hash rows I existing existing_for_deletion st =
     (let (v, tracked, received, last_patches) = st in do {
        (v, tracked, qps) \<leftarrow> track_executed B orig query_id hash (v, tracked);
        ver \<leftarrow> ensure_new_version B orig (cvr_ver v);
        let v = v\<lparr>cvr_ver := ver\<rparr>;
        (outcomes, received, last_patches) \<leftarrow> received_loop I existing orig ver rows (received, last_patches);
        (deletion, last_patches) \<leftarrow>
          delete_unreferenced_rows existing_for_deletion received {query_id} orig ver last_patches;
        Some (\<lparr>query_patches = qps, row_outcomes = outcomes, deleted_row_patches = del_patches deletion,
               deletion_row_writes = row_writes deletion, fetched_rows = map (\<lambda>r. (row_key I r, r)) rows\<rparr>,
              v, tracked, received, last_patches)
      })"

text \<open>The row records a hydration writes, in order.\<close>

definition outcome_update :: "row_id \<Rightarrow> row_outcome \<Rightarrow> row_id \<times> row_record option" where
  "outcome_update i outcome =
     (i, (case store_write outcome of
            StorePut rv pv refs \<Rightarrow> Some \<lparr>rr_patch_version = pv, rr_id = i, rr_row_version = rv, rr_ref_counts = refs\<rparr>
          | StoreDelete \<Rightarrow> None))"

definition row_updates :: "'k row_identity \<Rightarrow> 'k hydration_result \<Rightarrow> (row_id \<times> row_record option) list" where
  "row_updates I res =
     map (\<lambda>(key, outcome). outcome_update (wire_row_id I key) outcome) (row_outcomes res) @
     map (\<lambda>w. (wire_row_id I (rw_id w),
               Some \<lparr>rr_patch_version = rw_patch_version w, rr_id = wire_row_id I (rw_id w),
                     rr_row_version = rw_row_version w, rr_ref_counts = rw_ref_counts w\<rparr>))
       (deletion_row_writes res)"


section \<open>Patches of a hydration\<close>

definition outcome_patches :: "'k row_identity \<Rightarrow> ('k \<times> row) list \<Rightarrow> 'k \<times> row_outcome \<Rightarrow> patch_to_version list" where
  "outcome_patches I fetched x =
     (let (key, outcome) = x in
      (case client_patch outcome of
         None \<Rightarrow> []
       | Some (ClientPut to_version) \<Rightarrow>
           (case find (\<lambda>y. fst y = key) fetched of
              None \<Rightarrow> []
            | Some y \<Rightarrow> [\<lparr>pv_patch = PRow (RowPut (wire_row_id I key) (snd y)), pv_to_version = to_version\<rparr>])
       | Some (ClientDel to_version) \<Rightarrow>
           [\<lparr>pv_patch = PRow (RowDelete (wire_row_id I key)), pv_to_version = to_version\<rparr>]))"

definition hydration_to_patches :: "'k hydration_result \<Rightarrow> cvr_version \<Rightarrow> 'k row_identity \<Rightarrow> patch_to_version list" where
  "hydration_to_patches res version_after I =
     map (\<lambda>qp. \<lparr>pv_patch = PConfig qp, pv_to_version = version_after\<rparr>) (query_patches res) @
     concat (map (outcome_patches I (fetched_rows res)) (row_outcomes res)) @
     map (\<lambda>(key, to_version). \<lparr>pv_patch = PRow (RowDelete (wire_row_id I key)), pv_to_version = to_version\<rparr>)
       (deleted_row_patches res)"

section \<open>What a client and the row store hold\<close>

text \<open>
  The rows a client holds after a list of patches, the records of the row store after a list of
  updates, and the references of a stored row.
\<close>

fun client_rows :: "patch_to_version list \<Rightarrow> (row_id \<Rightarrow> row option) \<Rightarrow> row_id \<Rightarrow> row option" where
  "client_rows [] view = view"
| "client_rows (p # ps) view =
     client_rows ps (case pv_patch p of
         PConfig _ \<Rightarrow> view
       | PRow (RowPut i contents) \<Rightarrow> view(i := Some contents)
       | PRow (RowDelete i) \<Rightarrow> view(i := None))"

fun store_rows :: "(row_id \<times> row_record option) list \<Rightarrow> (row_id \<Rightarrow> row_record option) \<Rightarrow> row_id \<Rightarrow> row_record option" where
  "store_rows [] store = store"
| "store_rows ((i, r) # us) store = store_rows us (store(i := r))"

definition stored_refs :: "(row_id \<Rightarrow> row_record option) \<Rightarrow> row_id \<Rightarrow> ref_counts option" where
  "stored_refs store i = Option.bind (store i) rr_ref_counts"

lemma client_rows_append: "client_rows (ps @ qs) view = client_rows qs (client_rows ps view)"
  by (induction ps arbitrary: view) auto

lemma store_rows_append: "store_rows (us @ ws) store = store_rows ws (store_rows us store)"
  by (induction us arbitrary: store) auto

lemma client_rows_config: "client_rows (map (\<lambda>qp. \<lparr>pv_patch = PConfig qp, pv_to_version = ver\<rparr>) qps) view = view"
  by (induction qps) auto

section \<open>Reference counts\<close>

definition opt_count :: "ref_counts option \<Rightarrow> string \<Rightarrow> int" where
  "opt_count r h = (case r of None \<Rightarrow> 0 | Some m \<Rightarrow> count_of m h)"

text \<open>Counts of a row, present only while one of them is positive, all below a bound.\<close>

definition refs_good :: "int \<Rightarrow> ref_counts option \<Rightarrow> bool" where
  "refs_good n r \<longleftrightarrow> (case r of None \<Rightarrow> True | Some m \<Rightarrow>
     bt_ok m \<and> 0 \<notin> snd ` set m \<and> (\<forall>h. 0 \<le> count_of m h \<and> count_of m h < n) \<and> (\<exists>h. 0 < count_of m h))"

lemma opt_count_simps [simp]: "opt_count None h = 0" "opt_count (Some m) h = count_of m h"
  by (auto simp: opt_count_def)

lemma refs_good_None [simp]: "refs_good n None"
  by (simp add: refs_good_def)

lemma refs_good_nonneg: "refs_good n r \<Longrightarrow> 0 \<le> opt_count r h"
  by (cases r) (auto simp: refs_good_def)

lemma refs_good_bound: "refs_good n r \<Longrightarrow> 0 < n \<Longrightarrow> opt_count r h < n"
  by (cases r) (auto simp: refs_good_def)

lemma refs_good_Some_iff: "refs_good n r \<Longrightarrow> r \<noteq> None \<longleftrightarrow> (\<exists>h. 0 < opt_count r h)"
  by (cases r) (auto simp: refs_good_def)

lemma positive_entry: "0 < count_of m h \<Longrightarrow> \<exists>x\<in>set m. 0 < snd x"
  by (force simp: count_of_def split: option.splits dest: map_of_SomeD)

lemma entry_positive: "bt_ok m \<Longrightarrow> x \<in> set m \<Longrightarrow> 0 < snd x \<Longrightarrow> 0 < count_of m (fst x)"
  using count_of_mem [of m "fst x" "snd x"] by simp

lemma copy_pass:
  assumes "bt_ok m" "\<forall>h. 0 \<le> count_of m h \<and> count_of m h < 2 ^ 61"
  shows "bt_ok (merge_pass rm [] m) \<and> 0 \<notin> snd ` set (merge_pass rm [] m) \<and>
    (\<forall>h. count_of (merge_pass rm [] m) h = (if h \<in> rm then 0 else count_of m h))"
proof -
  have "\<forall>x\<in>set m. \<bar>snd x\<bar> < 2 ^ 61"
  proof
    fix x assume "x \<in> set m"
    then have "count_of m (fst x) = snd x" using count_of_mem [OF assms(1), of "fst x" "snd x"] by simp
    then show "\<bar>snd x\<bar> < 2 ^ 61" using assms(2) by (metis abs_of_nonneg)
  qed
  then show ?thesis using merge_pass_count [of "[]" m rm] assms(1) by simp
qed

lemma merge_add:
  assumes "refs_good n r" "0 < n" "n \<le> 2 ^ 61"
  shows "\<exists>m. merge_ref_counts r (Some [(q, 1)]) None = Some m \<and> refs_good (n + 1) (Some m) \<and>
    (\<forall>h. count_of m h = opt_count r h + (if h = q then 1 else 0))"
proof (cases r)
  case None
  then show ?thesis using assms(2) by (auto simp: merge_ref_counts_def refs_good_def bt_ok_Cons)
next
  case (Some e)
  let ?m = "merge_pass {} [] e" and ?m' = "merge_pass {} (merge_pass {} [] e) [(q, 1)]"
  have e: "bt_ok e" "\<forall>h. 0 \<le> count_of e h \<and> count_of e h < n" using assms(1) Some by (auto simp: refs_good_def)
  have b: "\<forall>h. 0 \<le> count_of e h \<and> count_of e h < 2 ^ 61" using e(2) assms(3) by (meson order_less_le_trans)
  note c = copy_pass [OF e(1) this, of "{}"]
  have "\<forall>h\<in>fst ` set [(q, 1 :: int)]. \<bar>count_of ?m h\<bar> < 2 ^ 61" using c b by simp
  then have m': "bt_ok ?m'" "0 \<notin> snd ` set ?m'" "\<And>h. count_of ?m' h = count_of e h + (if h = q then 1 else 0)"
    using merge_pass_count [of ?m "[(q, 1)]" "{}"] c by (auto simp: bt_ok_Cons)
  have pos: "0 < count_of ?m' q" using m'(3) [of q] e(2) by (simp add: add_nonneg_pos)
  have "count_of ?m' h < n + 1 \<and> 0 \<le> count_of ?m' h" for h using m'(3) [of h] e(2) [rule_format, of h] by auto
  then have "refs_good (n + 1) (Some ?m')" using m'(1,2) pos by (auto simp: refs_good_def)
  moreover have "merge_ref_counts r (Some [(q, 1)]) None = Some ?m'"
    using positive_entry [OF pos] Some by (simp add: merge_ref_counts_def Let_def)
  ultimately show ?thesis using m'(3) Some by auto
qed

lemma merge_remove:
  assumes "refs_good n r" "n \<le> 2 ^ 61"
  shows "refs_good n (merge_ref_counts r None (Some rm)) \<and>
    (\<forall>h. opt_count (merge_ref_counts r None (Some rm)) h = (if h \<in> rm then 0 else opt_count r h))"
proof (cases r)
  case None
  then show ?thesis by (auto simp: merge_ref_counts_def)
next
  case (Some e)
  let ?m = "merge_pass rm [] e"
  have e: "bt_ok e" "\<forall>h. 0 \<le> count_of e h \<and> count_of e h < n" using assms(1) Some by (auto simp: refs_good_def)
  have "\<forall>h. 0 \<le> count_of e h \<and> count_of e h < 2 ^ 61" using e(2) assms(2) by (meson order_less_le_trans)
  note c = copy_pass [OF e(1) this, of rm]
  have n: "0 < n" using e(2) by (meson order_le_less_trans)
  show ?thesis
  proof (cases "\<exists>x\<in>set ?m. 0 < snd x")
    case True
    then have "\<exists>h. 0 < count_of ?m h" using entry_positive c by blast
    then have "refs_good n (Some ?m)" using c e(2) n by (auto simp: refs_good_def)
    with True c Some show ?thesis by (simp add: merge_ref_counts_def Let_def)
  next
    case False
    then have "\<not> 0 < count_of ?m h" for h using positive_entry by blast
    then have "count_of ?m h = 0" for h using c e(2) by (metis order_le_less)
    with False c Some show ?thesis by (auto simp: merge_ref_counts_def Let_def split: if_splits)
  qed
qed


section \<open>The received rows\<close>

definition ex_refs :: "('k \<times> existing_row) list \<Rightarrow> 'k \<Rightarrow> ref_counts option" where
  "ex_refs ex k = Option.bind (map_of ex k) er_ref_counts"

text \<open>The accumulators after the rows \<open>done\<close>: each of them is received, with its occurrences added to the counts.\<close>

definition received_inv ::
  "'k row_identity \<Rightarrow> string \<Rightarrow> ('k \<times> existing_row) list \<Rightarrow> row list \<Rightarrow> 'k received_rows \<Rightarrow> 'k last_patches \<Rightarrow> bool" where
  "received_inv I q ex rows received last_patches \<longleftrightarrow>
     (\<forall>k. case map_of received k of
        None \<Rightarrow> k \<notin> row_key I ` set rows
      | Some r \<Rightarrow> k \<in> row_key I ` set rows \<and> r \<noteq> None \<and> refs_good (2 ^ 60 + int (length rows)) r \<and>
          (\<forall>h. opt_count r h = opt_count (ex_refs ex k) h + (if h = q then int (count_list (map (row_key I) rows) k) else 0))) \<and>
     (\<forall>k. case map_of last_patches k of
        None \<Rightarrow> k \<notin> row_key I ` set rows
      | Some lp \<Rightarrow> \<exists>r\<in>set rows. row_key I r = k \<and> lp_row_version lp = Some (row_version I r))"

lemma received_inv_Nil: "received_inv I q ex [] [] []"
  by (simp add: received_inv_def)

lemma received_invD:
  assumes "received_inv I q ex rows received lps"
  shows "case map_of received k of
      None \<Rightarrow> k \<notin> row_key I ` set rows
    | Some r \<Rightarrow> k \<in> row_key I ` set rows \<and> r \<noteq> None \<and> refs_good (2 ^ 60 + int (length rows)) r \<and>
        (\<forall>h. opt_count r h = opt_count (ex_refs ex k) h + (if h = q then int (count_list (map (row_key I) rows) k) else 0))"
    "case map_of lps k of
      None \<Rightarrow> k \<notin> row_key I ` set rows
    | Some lp \<Rightarrow> \<exists>r\<in>set rows. row_key I r = k \<and> lp_row_version lp = Some (row_version I r)"
  using assms unfolding received_inv_def by blast+

lemma refs_good_mono: "refs_good n r \<Longrightarrow> n \<le> n' \<Longrightarrow> refs_good n' r"
  unfolding refs_good_def by (cases r) (simp, simp, meson order_less_le_trans)

definition merged_refs :: "('k \<times> existing_row) list \<Rightarrow> 'k received_rows \<Rightarrow> 'k \<Rightarrow> ref_counts option" where
  "merged_refs ex received k = (case map_of received k of Some r \<Rightarrow> r | None \<Rightarrow> ex_refs ex k)"

lemma merged_refs_ok:
  assumes "received_inv I q ex rows received last_patches" "\<forall>x\<in>set ex. refs_good (2 ^ 60) (er_ref_counts (snd x))"
  shows "refs_good (2 ^ 60 + int (length rows)) (merged_refs ex received k) \<and>
    (\<forall>h. opt_count (merged_refs ex received k) h =
       opt_count (ex_refs ex k) h + (if h = q then int (count_list (map (row_key I) rows) k) else 0))"
proof (cases "map_of received k")
  case None
  then have "k \<notin> row_key I ` set rows" using received_invD(1) [OF assms(1), of k] by simp
  then have "count_list (map (row_key I) rows) k = 0" by (simp add: count_list_0_iff)
  moreover have "refs_good (2 ^ 60) (ex_refs ex k)"
    using assms(2) by (cases "map_of ex k") (auto simp: ex_refs_def dest!: map_of_SomeD)
  ultimately show ?thesis using None by (auto simp: merged_refs_def intro: refs_good_mono)
next
  case (Some r)
  then show ?thesis using received_invD(1) [OF assms(1), of k] by (simp add: merged_refs_def)
qed

lemma received_inv_step:
  assumes "received_inv I q ex rows received lps" "refs_good (2 ^ 60 + int (length rows) + 1) (Some m)"
    "\<forall>h. count_of m h = opt_count (merged_refs ex received (row_key I r)) h + (if h = q then 1 else 0)"
    "\<forall>h. opt_count (merged_refs ex received (row_key I r)) h =
       opt_count (ex_refs ex (row_key I r)) h + (if h = q then int (count_list (map (row_key I) rows) (row_key I r)) else 0)"
    "\<forall>k. map_of lps' k = (if k = row_key I r \<and> map_of lps k = None then Some lp else map_of lps k)" "lp_row_version lp = Some (row_version I r)"
  shows "received_inv I q ex (rows @ [r]) (AList.update (row_key I r) (Some m) received) lps'"
proof -
  let ?k = "row_key I r"
  note R = received_invD(1) [OF assms(1)] and L = received_invD(2) [OF assms(1)]
  have "case map_of (AList.update ?k (Some m) received) k of None \<Rightarrow> k \<notin> row_key I ` set (rows @ [r])
      | Some r' \<Rightarrow> k \<in> row_key I ` set (rows @ [r]) \<and> r' \<noteq> None \<and> refs_good (2 ^ 60 + int (length (rows @ [r]))) r' \<and>
          (\<forall>h. opt_count r' h = opt_count (ex_refs ex k) h + (if h = q then int (count_list (map (row_key I) (rows @ [r])) k) else 0))" for k
  proof (cases "k = ?k")
    case True
    then show ?thesis using assms(2-4) by (simp add: update_conv add.assoc)
  next
    case False
    then show ?thesis using R [of k] by (auto simp: update_conv split: option.splits intro: refs_good_mono)
  qed
  moreover have "case map_of lps' k of None \<Rightarrow> k \<notin> row_key I ` set (rows @ [r])
      | Some lp \<Rightarrow> \<exists>r\<in>set (rows @ [r]). row_key I r = k \<and> lp_row_version lp = Some (row_version I r)" for k
    using L [of k] assms(5,6) by (cases "map_of lps k") auto
  ultimately show ?thesis unfolding received_inv_def by blast
qed

definition put_outcome :: "'k row_identity \<Rightarrow> row list \<Rightarrow> row \<Rightarrow> cvr_version \<Rightarrow> ref_counts \<Rightarrow> cvr_version \<Rightarrow> row_outcome" where
  "put_outcome I rows r pv m to =
     \<lparr>store_write = StorePut (row_version I r) pv (Some m),
      client_patch = (if row_key I r \<in> row_key I ` set rows then None else Some (ClientPut to))\<rparr>"

lemma received_step:
  assumes inv: "received_inv I q ex rows received lps" and ex: "\<forall>x\<in>set ex. refs_good (2 ^ 60) (er_ref_counts (snd x))"
    and n: "int (length rows) < 2 ^ 60" and ver: "cmp_versions (Some orig) (Some ver) < 0"
    and inj: "inj_on (row_key I) (set (rows @ [r]))" and q: "row_ref_counts I = (\<lambda>_. [(q, 1)])"
  shows "\<exists>pv to m lps'. process_received_row (row_key I r) (map_of ex (row_key I r))
      \<lparr>ru_version = Some (row_version I r), ru_has_contents = True, ru_ref_counts = Some (row_ref_counts I r)\<rparr> None orig ver (received, lps) =
    Some (put_outcome I rows r pv m to,
          AList.update (row_key I r) (Some m) received, lps') \<and>
    received_inv I q ex (rows @ [r]) (AList.update (row_key I r) (Some m) received) lps'"
proof -
  let ?k = "row_key I r"
  note mr = merged_refs_ok [OF inv ex, of ?k]
  have "2 ^ 60 + int (length rows) \<le> 2 ^ 61" using n by simp
  then obtain m where m: "merge_ref_counts (merged_refs ex received ?k) (Some [(q, 1)]) None = Some m"
    "refs_good (2 ^ 60 + int (length rows) + 1) (Some m)"
    "\<forall>h. count_of m h = opt_count (merged_refs ex received ?k) h + (if h = q then 1 else 0)"
    using merge_add [of "2 ^ 60 + int (length rows)" "merged_refs ex received ?k" q] mr by auto
  have mm: "(case map_of received ?k of
       Some prev \<Rightarrow> merge_ref_counts prev (Some [(q, 1)]) None
     | None \<Rightarrow> merge_ref_counts (Option.bind (map_of ex ?k) er_ref_counts) (Some [(q, 1)]) None) = Some m"
    using m(1) by (cases "map_of received ?k") (auto simp: merged_refs_def ex_refs_def)
  obtain pv where pv: "(if map_option (\<lambda>e. Some (er_row_version e) = Some (row_version I r)) (map_of ex ?k) = Some True
      then map_option er_patch_version (map_of ex ?k) else do { assert_new_version orig ver; Some ver }) = Some pv"
    using ver by (cases "map_of ex ?k"; cases "er_row_version (the (map_of ex ?k)) = row_version I r")
      (simp_all add: assert_new_version_def)
  define to where "to = max_version pv (map_option lp_to_version (map_of lps ?k))"
  define lps' where "lps' = (if map_of lps ?k = None then AList.update ?k \<lparr>lp_row_version = Some (row_version I r), lp_to_version = to\<rparr> lps else lps)"
  have L: "case map_of lps ?k of None \<Rightarrow> ?k \<notin> row_key I ` set rows
      | Some lp \<Rightarrow> ?k \<in> row_key I ` set rows \<and> lp_row_version lp = Some (row_version I r)"
  proof (cases "map_of lps ?k")
    case (Some lp)
    then obtain r' where r': "r' \<in> set rows" "row_key I r' = ?k" "lp_row_version lp = Some (row_version I r')"
      using received_invD(2) [OF inv, of ?k] by auto
    then have "r' = r" using inj by (auto simp: inj_on_def)
    with r' Some show ?thesis by auto
  next
    case None
    then show ?thesis using received_invD(2) [OF inv, of ?k] by simp
  qed
  have p: "process_received_row ?k (map_of ex ?k)
      \<lparr>ru_version = Some (row_version I r), ru_has_contents = True, ru_ref_counts = Some (row_ref_counts I r)\<rparr> None orig ver (received, lps) =
    Some (put_outcome I rows r pv m to,
          AList.update ?k (Some m) received, lps')"
    unfolding process_received_row_def Let_def prod.case row_update.select_convs q mm using L pv
    by (cases "map_of lps ?k") (simp_all add: put_outcome_def to_def lps'_def split del: if_split)
  moreover have "received_inv I q ex (rows @ [r]) (AList.update ?k (Some m) received) lps'"
    by (rule received_inv_step [OF inv m(2,3), where lp = "\<lparr>lp_row_version = Some (row_version I r), lp_to_version = to\<rparr>"])
      (use mr in \<open>auto simp: lps'_def update_conv\<close>)
  ultimately show ?thesis by blast
qed


text \<open>The client's rows and the row store after the rows \<open>rows\<close>.\<close>

definition rows_inv ::
  "'k row_identity \<Rightarrow> (row_id \<Rightarrow> row option) \<Rightarrow> (row_id \<Rightarrow> row_record option) \<Rightarrow> row list \<Rightarrow> 'k received_rows \<Rightarrow>
   (row_id \<Rightarrow> row option) \<Rightarrow> (row_id \<Rightarrow> row_record option) \<Rightarrow> bool" where
  "rows_inv I view0 store0 rows received view store \<longleftrightarrow>
     (\<forall>r\<in>set rows. view (wire_row_id I (row_key I r)) = Some r \<and>
        (\<exists>pv. store (wire_row_id I (row_key I r)) =
           Some \<lparr>rr_patch_version = pv, rr_id = wire_row_id I (row_key I r), rr_row_version = row_version I r,
                 rr_ref_counts = the (map_of received (row_key I r))\<rparr>)) \<and>
     (\<forall>i. i \<notin> wire_row_id I ` row_key I ` set rows \<longrightarrow> view i = view0 i \<and> store i = store0 i)"

lemma find_fetched:
  assumes "inj_on (row_key I) (set all)" "r \<in> set all"
  shows "find (\<lambda>y. fst y = row_key I r) (map (\<lambda>r. (row_key I r, r)) all) = Some (row_key I r, r)"
  using assms by (induction all) (auto simp: inj_on_def)

lemma rows_inv_step:
  assumes inv: "rows_inv I view0 store0 rows received view store" and inj: "inj_on (row_key I) (set all)" "inj (wire_row_id I)"
    and all: "set (rows @ [r]) \<subseteq> set all"
  shows "rows_inv I view0 store0 (rows @ [r]) (AList.update (row_key I r) (Some m) received)
    (client_rows (outcome_patches I (map (\<lambda>r. (row_key I r, r)) all) (row_key I r, put_outcome I rows r pv m to)) view)
    (store_rows [outcome_update (wire_row_id I (row_key I r)) (put_outcome I rows r pv m to)] store)"
proof -
  let ?k = "row_key I r" and ?view = "client_rows (outcome_patches I (map (\<lambda>r. (row_key I r, r)) all) (row_key I r, put_outcome I rows r pv m to)) view"
    and ?store = "store_rows [outcome_update (wire_row_id I (row_key I r)) (put_outcome I rows r pv m to)] store"
  have same: "r' = r" if "r' \<in> set rows" "row_key I r' = ?k" for r' using inj(1) all that by (auto simp: inj_on_def)
  have "?view = view(wire_row_id I ?k := Some r)"
  proof (cases "?k \<in> row_key I ` set rows")
    case True
    then obtain r' where r': "r' \<in> set rows" "row_key I r' = ?k" by auto
    then have "view (wire_row_id I (row_key I r')) = Some r'" using inv unfolding rows_inv_def by blast
    then have "view (wire_row_id I ?k) = Some r" using r' same [OF r'] by simp
    then show ?thesis using True by (auto simp: put_outcome_def outcome_patches_def)
  next
    case False
    then show ?thesis using find_fetched [OF inj(1), of r] all by (simp add: put_outcome_def outcome_patches_def)
  qed
  moreover have "?store = store(wire_row_id I ?k := Some \<lparr>rr_patch_version = pv, rr_id = wire_row_id I ?k,
      rr_row_version = row_version I r, rr_ref_counts = Some m\<rparr>)"
    by (simp add: put_outcome_def outcome_update_def)
  ultimately show ?thesis using inv same inj(2) unfolding rows_inv_def by (auto simp: update_conv inj_eq)
qed

lemma received_loop_ok:
  assumes ex: "\<forall>x\<in>set ex. refs_good (2 ^ 60) (er_ref_counts (snd x))" and ver: "cmp_versions (Some orig) (Some ver) < 0"
    and inj: "inj_on (row_key I) (set all)" "inj (wire_row_id I)" and q: "row_ref_counts I = (\<lambda>_. [(q, 1)])"
  shows "received_inv I q ex fin received lps \<Longrightarrow> rows_inv I view0 store0 fin received view store \<Longrightarrow>
    set (fin @ rows) \<subseteq> set all \<Longrightarrow> int (length (fin @ rows)) \<le> 2 ^ 60 \<Longrightarrow>
    \<exists>outcomes received' lps'. received_loop I ex orig ver rows (received, lps) = Some (outcomes, received', lps') \<and>
      received_inv I q ex (fin @ rows) received' lps' \<and>
      rows_inv I view0 store0 (fin @ rows) received'
        (client_rows (concat (map (outcome_patches I (map (\<lambda>r. (row_key I r, r)) all)) outcomes)) view)
        (store_rows (map (\<lambda>(key, outcome). outcome_update (wire_row_id I key) outcome) outcomes) store)"
proof (induction rows arbitrary: fin received lps view store)
  case Nil
  then show ?case by simp
next
  case (Cons r rows)
  let ?k = "row_key I r"
  have n: "int (length fin) < 2 ^ 60" and all: "set (fin @ [r]) \<subseteq> set all" using Cons.prems(3,4) by auto
  note j = inj_on_subset [OF inj(1) all]
  obtain pv to m lps1 where s: "process_received_row ?k (map_of ex ?k)
      \<lparr>ru_version = Some (row_version I r), ru_has_contents = True, ru_ref_counts = Some (row_ref_counts I r)\<rparr> None orig ver (received, lps) =
    Some (put_outcome I fin r pv m to,
          AList.update ?k (Some m) received, lps1)" "received_inv I q ex (fin @ [r]) (AList.update ?k (Some m) received) lps1"
    using received_step [OF Cons.prems(1) ex n ver j q] by blast
  note v = rows_inv_step [OF Cons.prems(2) inj all, where pv = pv and m = m and to = to]
  have "set ((fin @ [r]) @ rows) \<subseteq> set all" "int (length ((fin @ [r]) @ rows)) \<le> 2 ^ 60" using Cons.prems(3,4) by auto
  note ih = Cons.IH [OF s(2) v this]
  then obtain outcomes received' lps' where o: "received_loop I ex orig ver rows (AList.update ?k (Some m) received, lps1) =
      Some (outcomes, received', lps')" "received_inv I q ex ((fin @ [r]) @ rows) received' lps'"
    "rows_inv I view0 store0 ((fin @ [r]) @ rows) received'
      (client_rows (concat (map (outcome_patches I (map (\<lambda>r. (row_key I r, r)) all)) outcomes))
        (client_rows (outcome_patches I (map (\<lambda>r. (row_key I r, r)) all) (?k, put_outcome I fin r pv m to)) view))
      (store_rows (map (\<lambda>(key, outcome). outcome_update (wire_row_id I key) outcome) outcomes)
        (store_rows [outcome_update (wire_row_id I ?k) (put_outcome I fin r pv m to)] store))"
    by blast
  then show ?case using s(1) by (simp add: client_rows_append [symmetric] store_rows_append [symmetric] Let_def split del: if_split)
qed


section \<open>Rows that lose their last reference\<close>

definition del_row :: "'k \<times> existing_row \<Rightarrow> 'k del_existing_row" where
  "del_row x = \<lparr>de_id = fst x, de_row_version = er_row_version (snd x), de_patch_version = er_patch_version (snd x),
                de_ref_counts = er_ref_counts (snd x)\<rparr>"

definition refs_without :: "string set \<Rightarrow> existing_row \<Rightarrow> ref_counts option" where
  "refs_without hashes e = merge_ref_counts (er_ref_counts e) None (Some hashes)"

definition del_write :: "string set \<Rightarrow> cvr_version \<Rightarrow> 'k \<times> existing_row \<Rightarrow> 'k row_record_write" where
  "del_write hashes ver x =
     \<lparr>rw_id = fst x, rw_row_version = er_row_version (snd x),
      rw_patch_version = (if refs_without hashes (snd x) = None then ver else er_patch_version (snd x)),
      rw_ref_counts = refs_without hashes (snd x)\<rparr>"

lemma delete_row_eq:
  assumes "cmp_versions (Some orig) (Some ver) < 0" "\<And>k. (\<exists>m. map_of received k = Some (Some m)) \<longleftrightarrow> k \<in> K"
  shows "delete_unreferenced_row (del_row x) received hashes orig ver =
    Some (if fst x \<in> K then None else Some (del_write hashes ver x))"
proof (cases "fst x \<in> K")
  case True
  then obtain m where "map_of received (fst x) = Some (Some m)" using assms(2) by blast
  then show ?thesis using True by (simp add: delete_unreferenced_row_def del_row_def)
next
  case False
  then have "map_of received (fst x) = None \<or> map_of received (fst x) = Some None" using assms(2) [of "fst x"] by (metis option.exhaust)
  then show ?thesis using False assms(1)
    by (cases "merge_ref_counts (er_ref_counts (snd x)) None (Some hashes)")
      (auto simp: delete_unreferenced_row_def del_row_def del_write_def refs_without_def assert_new_version_def)
qed

lemma unreferenced_loop_ok:
  assumes ver: "cmp_versions (Some orig) (Some ver) < 0" and K: "\<And>k. (\<exists>m. map_of received k = Some (Some m)) \<longleftrightarrow> k \<in> K"
  shows "distinct (map fst ex) \<Longrightarrow> (\<forall>x\<in>set ex. fst x \<notin> K \<longrightarrow> map_of lps (fst x) = None) \<Longrightarrow>
    \<exists>lps'. unreferenced_loop received hashes orig ver (map del_row ex) lps =
      Some (\<lparr>row_writes = map (del_write hashes ver) (filter (\<lambda>x. fst x \<notin> K) ex),
             del_patches = map (\<lambda>x. (fst x, ver)) (filter (\<lambda>x. fst x \<notin> K \<and> refs_without hashes (snd x) = None) ex)\<rparr>, lps')"
proof (induction ex arbitrary: lps)
  case Nil
  then show ?case by simp
next
  case (Cons x ex)
  note d = delete_row_eq [OF ver K, of x hashes]
  show ?case
  proof (cases "fst x \<in> K \<or> refs_without hashes (snd x) \<noteq> None")
    case True
    then show ?thesis using Cons.IH [of lps] Cons.prems by (auto simp: d del_write_def)
  next
    case False
    let ?lps = "AList.update (fst x) \<lparr>lp_row_version = None, lp_to_version = ver\<rparr> lps"
    have "fst y \<noteq> fst x" if "y \<in> set ex" for y using Cons.prems(1) that by (metis distinct.simps(2) image_eqI list.set_map list.simps(9))
    then have "\<forall>y\<in>set ex. fst y \<notin> K \<longrightarrow> map_of ?lps (fst y) = None" using Cons.prems(2) by (simp add: update_conv)
    moreover have "map_of lps (fst x) = None" using Cons.prems(2) False by simp
    ultimately show ?thesis using Cons.IH [of ?lps] Cons.prems(1) False by (auto simp: d del_write_def max_version_def)
  qed
qed

lemma client_rows_deletes:
  "client_rows (map (\<lambda>(key, to). \<lparr>pv_patch = PRow (RowDelete (wire_row_id I key)), pv_to_version = to\<rparr>) ps) view i =
   (if i \<in> (\<lambda>p. wire_row_id I (fst p)) ` set ps then None else view i)"
  by (induction ps arbitrary: view) auto

lemma store_rows_distinct:
  "distinct (map fst us) \<Longrightarrow> store_rows us store i = (case map_of us i of None \<Rightarrow> store i | Some r \<Rightarrow> r)"
proof (induction us arbitrary: store)
  case (Cons u us)
  then have "map_of us (fst u) = None" by (simp add: map_of_eq_None_iff)
  with Cons show ?case by (cases u) (auto split: option.splits)
qed simp

definition del_update :: "'k row_identity \<Rightarrow> 'k row_record_write \<Rightarrow> row_id \<times> row_record option" where
  "del_update I w = (wire_row_id I (rw_id w),
     Some \<lparr>rr_patch_version = rw_patch_version w, rr_id = wire_row_id I (rw_id w),
           rr_row_version = rw_row_version w, rr_ref_counts = rw_ref_counts w\<rparr>)"

lemma row_updates_eq:
  "row_updates I res = map (\<lambda>(key, outcome). outcome_update (wire_row_id I key) outcome) (row_outcomes res) @
     map (del_update I) (deletion_row_writes res)"
  by (simp add: row_updates_def del_update_def [abs_def])

lemma del_updates_lookup:
  assumes "inj (wire_row_id I)" "distinct (map fst ex)"
  shows "store_rows (map (del_update I) (map (del_write hashes ver) (filter (\<lambda>x. fst x \<notin> K) ex))) store (wire_row_id I k) =
    (case map_of ex k of
       None \<Rightarrow> store (wire_row_id I k)
     | Some e \<Rightarrow> if k \<in> K then store (wire_row_id I k) else snd (del_update I (del_write hashes ver (k, e))))"
proof -
  let ?us = "map (del_update I) (map (del_write hashes ver) (filter (\<lambda>x. fst x \<notin> K) ex))"
  have f: "map fst ?us = map (wire_row_id I) (map fst (filter (\<lambda>x. fst x \<notin> K) ex))"
    by (simp add: del_update_def del_write_def)
  have "distinct (map fst (filter (\<lambda>x. fst x \<notin> K) ex))" using assms(2) by (rule distinct_map_filter)
  then have d: "distinct (map fst ?us)" unfolding f using assms(1) by (simp only: distinct_map) (auto simp: inj_on_def)
  have "map_of ?us (wire_row_id I k) = (case map_of ex k of None \<Rightarrow> None
      | Some e \<Rightarrow> if k \<in> K then None else Some (snd (del_update I (del_write hashes ver (k, e)))))"
    using assms by (induction ex) (auto simp: del_update_def del_write_def inj_eq split: option.splits)
  then show ?thesis using store_rows_distinct [OF d, of store "wire_row_id I k"] by (auto split: option.splits)
qed


section \<open>Properties\<close>

text \<open>The rows a re-executed query counts, which are the candidates for deletion.\<close>

definition refs_query :: "string \<Rightarrow> existing_row \<Rightarrow> bool" where
  "refs_query q e = (case er_ref_counts e of None \<Rightarrow> False | Some counts \<Rightarrow> map_of counts q \<noteq> None)"

definition deletion_rows :: "string \<Rightarrow> ('k \<times> existing_row) list \<Rightarrow> 'k del_existing_row list" where
  "deletion_rows q ex = map del_row (filter (\<lambda>x. refs_query q (snd x)) ex)"

definition other_refs :: "string \<Rightarrow> ('k \<times> existing_row) list \<Rightarrow> 'k \<Rightarrow> bool" where
  "other_refs q ex k \<longleftrightarrow> (\<exists>h. h \<noteq> q \<and> 0 < opt_count (ex_refs ex k) h)"

lemma track_executed_ok:
  assumes "ensure_new_version B orig (cvr_ver v) = Some new"
  shows "\<exists>v' tracked' qps. track_executed B orig q hash (v, tracked) = Some (v', tracked', qps) \<and>
    (cvr_ver v' = cvr_ver v \<or> cvr_ver v' = new)"
proof (cases "map_of (queries v) q")
  case (Some query)
  have "\<exists>q' ps. (if needs_got_patch query then do { q' \<leftarrow> set_got new query; Some (q', [got_patch PutOp q]) } else Some (query, [])) =
      Some (q', ps)" by (cases query) auto
  with Some assms show ?thesis by (fastforce simp: track_executed_def Let_def)
qed (auto simp: track_executed_def Let_def)

lemma map_of_filter_value:
  "distinct (map fst xs) \<Longrightarrow> map_of (filter (\<lambda>x. P (snd x)) xs) k = (case map_of xs k of None \<Rightarrow> None | Some v \<Rightarrow> if P v then Some v else None)"
proof (induction xs)
  case (Cons x xs)
  then have "map_of xs (fst x) = None" by (simp add: map_of_eq_None_iff)
  with Cons show ?case by (cases x) (auto split: option.splits)
qed simp

lemma refs_without_ok:
  assumes "refs_good (2 ^ 60) (er_ref_counts e)"
  shows "refs_good (2 ^ 60) (refs_without {q} e)" "opt_count (refs_without {q} e) h = (if h = q then 0 else opt_count (er_ref_counts e) h)"
  using merge_remove [OF assms, of "{q}"] by (simp_all add: refs_without_def)

lemma refs_query_count: "\<not> refs_query q e \<Longrightarrow> opt_count (er_ref_counts e) q = 0"
  by (auto simp: refs_query_def opt_count_def count_of_def split: option.splits)


lemma del_patches_lookup:
  assumes "inj (wire_row_id I)" "distinct (map fst D)"
  shows "client_rows (map (\<lambda>(key, to). \<lparr>pv_patch = PRow (RowDelete (wire_row_id I key)), pv_to_version = to\<rparr>)
      (map (\<lambda>x. (fst x, ver)) (filter (\<lambda>x. fst x \<notin> K \<and> refs_without {q} (snd x) = None) D))) view (wire_row_id I k) =
    (case map_of D k of None \<Rightarrow> view (wire_row_id I k)
     | Some e \<Rightarrow> if k \<notin> K \<and> refs_without {q} e = None then None else view (wire_row_id I k))"
proof -
  have "wire_row_id I k \<in> (\<lambda>p. wire_row_id I (fst p)) ` set (map (\<lambda>x. (fst x, ver)) (filter (\<lambda>x. fst x \<notin> K \<and> refs_without {q} (snd x) = None) D)) \<longleftrightarrow>
    k \<notin> K \<and> (\<exists>e. (k, e) \<in> set D \<and> refs_without {q} e = None)"
    using assms(1) by (force simp: inj_eq image_iff)
  then show ?thesis unfolding client_rows_deletes map_of_eq_Some_iff [OF assms(2), symmetric] by (cases "map_of D k") simp_all
qed

lemma hydrate_view:
  fixes ver :: cvr_version
  assumes inv: "rows_inv I view store rows received view1 store1" "received_inv I q ex rows received lps"
    and inj: "inj_on (row_key I) (set rows)" "inj (wire_row_id I)"
    and ex: "distinct (map fst ex)" "\<forall>x\<in>set ex. refs_good (2 ^ 60) (er_ref_counts (snd x))"
    and held: "\<forall>k. view (wire_row_id I k) \<noteq> None \<longleftrightarrow> ex_refs ex k \<noteq> None" "\<forall>k. stored_refs store (wire_row_id I k) = ex_refs ex k"
  defines "D \<equiv> filter (\<lambda>x. refs_query q (snd x)) ex" and "K \<equiv> row_key I ` set rows"
  defines "view2 \<equiv> client_rows (map (\<lambda>(key, to). \<lparr>pv_patch = PRow (RowDelete (wire_row_id I key)), pv_to_version = to\<rparr>)
        (map (\<lambda>x. (fst x, ver)) (filter (\<lambda>x. fst x \<notin> K \<and> refs_without {q} (snd x) = None) D))) view1"
    and "store2 \<equiv> store_rows (map (del_update I) (map (del_write {q} ver) (filter (\<lambda>x. fst x \<notin> K) D))) store1"
  shows "view2 (wire_row_id I k) = (case find (\<lambda>r. row_key I r = k) rows of
       Some r \<Rightarrow> Some r | None \<Rightarrow> if other_refs q ex k then view (wire_row_id I k) else None) \<and>
     (view2 (wire_row_id I k) \<noteq> None \<longleftrightarrow> stored_refs store2 (wire_row_id I k) \<noteq> None) \<and>
     (\<forall>h. opt_count (stored_refs store2 (wire_row_id I k)) h =
        (if k \<in> row_key I ` set rows then opt_count (ex_refs ex k) h + (if h = q then int (count_list (map (row_key I) rows) k) else 0)
         else if h = q then 0 else opt_count (ex_refs ex k) h))"
proof -
  let ?i = "wire_row_id I k"
  have dD: "distinct (map fst D)" unfolding D_def using ex(1) by (rule distinct_map_filter)
  have v2: "view2 ?i = (case map_of D k of None \<Rightarrow> view1 ?i
      | Some e \<Rightarrow> if k \<notin> K \<and> refs_without {q} e = None then None else view1 ?i)"
    unfolding view2_def by (rule del_patches_lookup [OF inj(2) dD])
  have s2: "store2 ?i = (case map_of D k of None \<Rightarrow> store1 ?i
      | Some e \<Rightarrow> if k \<in> K then store1 ?i else snd (del_update I (del_write {q} ver (k, e))))"
    unfolding store2_def by (rule del_updates_lookup [OF inj(2) dD])
  have mD: "map_of D k = (case map_of ex k of None \<Rightarrow> None | Some e \<Rightarrow> if refs_query q e then Some e else None)"
    unfolding D_def by (rule map_of_filter_value [OF ex(1)])
  show ?thesis
  proof (cases "k \<in> K")
    case True
    then obtain r where r: "r \<in> set rows" "row_key I r = k" by (auto simp: K_def)
    then have f: "find (\<lambda>r. row_key I r = k) rows = Some r"
      using inj(1) by (induction rows) (auto simp: inj_on_def)
    have "view1 ?i = Some r" "\<exists>pv. store1 ?i = Some \<lparr>rr_patch_version = pv, rr_id = ?i, rr_row_version = row_version I r,
        rr_ref_counts = the (map_of received k)\<rparr>" using inv(1) r unfolding rows_inv_def by blast+
    moreover have "k \<in> row_key I ` set rows" using True by (simp add: K_def)
    ultimately show ?thesis using v2 s2 True f received_invD(1) [OF inv(2), of k]
      by (auto simp: stored_refs_def split: option.splits)
  next
    case False
    then have nk: "k \<notin> row_key I ` set rows" by (simp add: K_def)
    then have f: "find (\<lambda>r. row_key I r = k) rows = None" by (auto simp: find_None_iff)
    have "?i \<notin> wire_row_id I ` row_key I ` set rows" using nk inj(2) by (auto simp: inj_eq)
    then have one: "view1 ?i = view ?i" "store1 ?i = store ?i" using inv(1) unfolding rows_inv_def by blast+
    show ?thesis
    proof (cases "map_of ex k")
      case None
      then have "ex_refs ex k = None" by (simp add: ex_refs_def)
      with None show ?thesis using v2 s2 mD one False nk f held(1) [rule_format, of k] held(2) [rule_format, of k]
        by (simp add: other_refs_def stored_refs_def)
    next
      case (Some e)
      then have e: "ex_refs ex k = er_ref_counts e" "refs_good (2 ^ 60) (er_ref_counts e)"
        using ex(2) by (auto simp: ex_refs_def dest!: map_of_SomeD)
      note w = refs_without_ok [OF e(2), of q]
      have wn: "refs_without {q} e \<noteq> None \<longleftrightarrow> other_refs q ex k"
        using refs_good_Some_iff [OF w(1)] w(2) by (auto simp: other_refs_def e(1))
      show ?thesis
      proof (cases "refs_query q e")
        case True
        then show ?thesis using Some v2 s2 mD one False nk f wn w held(1) [rule_format, of k]
          by (auto simp: stored_refs_def del_update_def del_write_def e(1) other_refs_def)
      next
        case nq: False
        then have z: "opt_count (er_ref_counts e) q = 0" by (rule refs_query_count)
        then have "ex_refs ex k \<noteq> None \<longleftrightarrow> other_refs q ex k"
          using refs_good_Some_iff [OF e(2)] by (auto simp: other_refs_def e(1)) (metis less_irrefl)
        then show ?thesis using nq Some v2 s2 mD one False nk f z held(1) [rule_format, of k] held(2) [rule_format, of k]
          by (auto simp: stored_refs_def e(1))
      qed
    qed
  qed
qed


lemma hydration_version:
  assumes "version_ok orig" "version_ok cur" "cmp_versions (Some orig) (Some cur) \<le> 0" "config_or_0 cur < 2 ^ 53"
  shows "\<exists>new. ensure_new_version B orig cur = Some new \<and> ensure_new_version B orig new = Some new \<and> cmp_versions (Some orig) (Some new) < 0"
proof -
  obtain new where new: "ensure_new_version B orig cur = Some new" "version_ok new" "version_key cur \<le> version_key new"
    "version_key new \<noteq> version_key orig" "ensure_new_version B orig new = Some new"
    using ensure_new_version_key [OF assms(1,2,4)] by blast
  have "\<not> version_key cur < version_key orig" using assms(3) cmp_versions_Some(3) [OF assms(1,2)] by simp
  then have "version_key orig < version_key new" using new(3,4) by order
  then show ?thesis using new cmp_versions_Some(1) [OF assms(1) new(2)] by blast
qed

text \<open>The result of a hydration, written out.\<close>

definition hydrated :: "'k row_identity \<Rightarrow> string \<Rightarrow> ('k \<times> existing_row) list \<Rightarrow> row list \<Rightarrow> cvr_version \<Rightarrow> query_patch list \<Rightarrow>
  ('k \<times> row_outcome) list \<Rightarrow> 'k hydration_result" where
  "hydrated I q ex rows new qps outcomes =
     (let D = filter (\<lambda>x. refs_query q (snd x)) ex; K = row_key I ` set rows in
      \<lparr>query_patches = qps, row_outcomes = outcomes,
       deleted_row_patches = map (\<lambda>x. (fst x, new)) (filter (\<lambda>x. fst x \<notin> K \<and> refs_without {q} (snd x) = None) D),
       deletion_row_writes = map (del_write {q} new) (filter (\<lambda>x. fst x \<notin> K) D), fetched_rows = map (\<lambda>r. (row_key I r, r)) rows\<rparr>)"

lemma hydrate_run:
  assumes "track_executed B orig q hash (v, tracked) = Some (v1, tracked', qps)" "ensure_new_version B orig (cvr_ver v1) = Some new"
    "cmp_versions (Some orig) (Some new) < 0" "distinct (map fst ex)"
    "received_loop I ex orig new rows ([], []) = Some (outcomes, received, lps)" "received_inv I q ex rows received lps"
  shows "\<exists>lps'. hydrate_query_from_rows B orig q hash rows I ex (deletion_rows q ex) (v, tracked, [], []) =
    Some (hydrated I q ex rows new qps outcomes, v1\<lparr>cvr_ver := new\<rparr>, tracked', received, lps')"
proof -
  let ?D = "filter (\<lambda>x. refs_query q (snd x)) ex" and ?K = "row_key I ` set rows"
  have K: "(\<exists>m. map_of received k = Some (Some m)) \<longleftrightarrow> k \<in> ?K" for k
    using received_invD(1) [OF assms(6), of k] by (auto split: option.splits)
  have "\<forall>x\<in>set ?D. fst x \<notin> ?K \<longrightarrow> map_of lps (fst x) = None"
  proof (intro ballI impI)
    fix x assume "fst x \<notin> ?K"
    then show "map_of lps (fst x) = None" using received_invD(2) [OF assms(6), of "fst x"] by (cases "map_of lps (fst x)") (simp, force)
  qed
  then obtain lps' where "unreferenced_loop received {q} orig new (map del_row ?D) lps =
      Some (\<lparr>row_writes = map (del_write {q} new) (filter (\<lambda>x. fst x \<notin> ?K) ?D),
             del_patches = map (\<lambda>x. (fst x, new)) (filter (\<lambda>x. fst x \<notin> ?K \<and> refs_without {q} (snd x) = None) ?D)\<rparr>, lps')"
    using unreferenced_loop_ok [OF assms(3) K distinct_map_filter [OF assms(4)], of "\<lambda>x. refs_query q (snd x)" lps "{q}"] by blast
  then show ?thesis using assms(1,2,5)
    by (simp add: hydrate_query_from_rows_def delete_unreferenced_rows_def deletion_rows_def hydrated_def Let_def)
qed

lemma hydrated_view:
  "client_rows (hydration_to_patches (hydrated I q ex rows new qps outcomes) ver I) view =
   client_rows (map (\<lambda>(key, to). \<lparr>pv_patch = PRow (RowDelete (wire_row_id I key)), pv_to_version = to\<rparr>)
       (map (\<lambda>x. (fst x, new)) (filter (\<lambda>x. fst x \<notin> row_key I ` set rows \<and> refs_without {q} (snd x) = None) (filter (\<lambda>x. refs_query q (snd x)) ex))))
     (client_rows (concat (map (outcome_patches I (map (\<lambda>r. (row_key I r, r)) rows)) outcomes)) view)"
  unfolding hydration_to_patches_def client_rows_append client_rows_config by (simp add: hydrated_def)

lemma hydrated_store:
  "store_rows (row_updates I (hydrated I q ex rows new qps outcomes)) store =
   store_rows (map (del_update I) (map (del_write {q} new) (filter (\<lambda>x. fst x \<notin> row_key I ` set rows) (filter (\<lambda>x. refs_query q (snd x)) ex))))
     (store_rows (map (\<lambda>(key, outcome). outcome_update (wire_row_id I key) outcome) outcomes) store)"
  unfolding row_updates_eq store_rows_append by (simp add: hydrated_def)

text \<open>
  C29. Hydrating a query leaves the client and the row store in agreement: it does not panic, the
  version is above the original one, and for every row, after the emitted patches and row updates,
  the client holds a fetched row with the contents fetched, keeps a row that was not fetched
  exactly when another query counts it, and holds a row exactly when the store counts it. The
  query's own count grows by the occurrences of a fetched row and is dropped from the others.
\<close>

theorem hydrate_query_view:
  assumes "inj_on (row_key I) (set rows)" "inj (wire_row_id I)" "row_ref_counts I = (\<lambda>_. [(q, 1)])" "int (length rows) \<le> 2 ^ 60"
    "distinct (map fst ex)" "\<forall>x\<in>set ex. refs_good (2 ^ 60) (er_ref_counts (snd x))"
    "version_ok orig" "version_ok (cvr_ver v)" "cmp_versions (Some orig) (Some (cvr_ver v)) \<le> 0" "config_or_0 (cvr_ver v) < 2 ^ 53"
    "\<forall>k. view (wire_row_id I k) \<noteq> None \<longleftrightarrow> ex_refs ex k \<noteq> None" "\<forall>k. stored_refs store (wire_row_id I k) = ex_refs ex k"
  shows "\<exists>res v' tracked' received lps.
    hydrate_query_from_rows B orig q hash rows I ex (deletion_rows q ex) (v, tracked, [], []) = Some (res, v', tracked', received, lps) \<and>
    cmp_versions (Some orig) (Some (cvr_ver v')) < 0 \<and>
    (let view' = client_rows (hydration_to_patches res (cvr_ver v') I) view; store' = store_rows (row_updates I res) store
     in \<forall>k. view' (wire_row_id I k) = (case find (\<lambda>r. row_key I r = k) rows of
            Some r \<Rightarrow> Some r | None \<Rightarrow> if other_refs q ex k then view (wire_row_id I k) else None) \<and>
          (view' (wire_row_id I k) \<noteq> None \<longleftrightarrow> stored_refs store' (wire_row_id I k) \<noteq> None) \<and>
          (\<forall>h. opt_count (stored_refs store' (wire_row_id I k)) h =
             (if k \<in> row_key I ` set rows
              then opt_count (ex_refs ex k) h + (if h = q then int (count_list (map (row_key I) rows) k) else 0)
              else if h = q then 0 else opt_count (ex_refs ex k) h)))"
proof -
  obtain new where new: "ensure_new_version B orig (cvr_ver v) = Some new" "ensure_new_version B orig new = Some new"
    and ver: "cmp_versions (Some orig) (Some new) < 0"
    using hydration_version [OF assms(7-10)] by blast
  obtain v1 tracked' qps where t: "track_executed B orig q hash (v, tracked) = Some (v1, tracked', qps)" "cvr_ver v1 = cvr_ver v \<or> cvr_ver v1 = new"
    using track_executed_ok [OF new(1)] by blast
  have e: "ensure_new_version B orig (cvr_ver v1) = Some new" using t(2) new by auto
  have "rows_inv I view store [] [] view store" by (simp add: rows_inv_def)
  from received_loop_ok [OF assms(6) ver assms(1,2,3) received_inv_Nil this, of rows] assms(4)
  obtain outcomes received lps where l: "received_loop I ex orig new rows ([], []) = Some (outcomes, received, lps)"
    "received_inv I q ex rows received lps"
    "rows_inv I view store rows received (client_rows (concat (map (outcome_patches I (map (\<lambda>r. (row_key I r, r)) rows)) outcomes)) view)
       (store_rows (map (\<lambda>(key, outcome). outcome_update (wire_row_id I key) outcome) outcomes) store)"
    by auto
  obtain lps' where h: "hydrate_query_from_rows B orig q hash rows I ex (deletion_rows q ex) (v, tracked, [], []) =
      Some (hydrated I q ex rows new qps outcomes, v1\<lparr>cvr_ver := new\<rparr>, tracked', received, lps')"
    using hydrate_run [OF t(1) e ver assms(5) l(1,2)] by blast
  have v': "cvr_ver (v1\<lparr>cvr_ver := new\<rparr>) = new" by simp
  show ?thesis
    by (rule exI [of _ "hydrated I q ex rows new qps outcomes"], rule exI [of _ "v1\<lparr>cvr_ver := new\<rparr>"], rule exI [of _ tracked'],
        rule exI [of _ received], rule exI [of _ lps'], unfold Let_def v' hydrated_view hydrated_store)
      (intro conjI [OF h] conjI [OF ver] allI, rule hydrate_view [OF l(3,2) assms(1,2,5,6,11,12)])
qed


definition sample_identity :: "string \<Rightarrow> string row_identity" where
  "sample_identity q =
     \<lparr>row_key = (\<lambda>r. case r of (_, JString s) # _ \<Rightarrow> s | _ \<Rightarrow> ''''), row_ref_counts = (\<lambda>_. [(q, 1)]), row_version = (\<lambda>_. ''02''),
      wire_row_id = (\<lambda>k. \<lparr>rid_schema = ''public'', rid_table = ''issue'', rid_row_key = [(''id'', JString k)]\<rparr>)\<rparr>"

definition sample_existing :: "(string \<times> existing_row) list" where
  "sample_existing = [(''b'', \<lparr>er_row_version = ''01'', er_patch_version = \<lparr>state_ver = ''01'', config_ver = None\<rparr>,
     er_ref_counts = Some [(''q'', 1)]\<rparr>)]"

definition hydration_cvr :: cvr where
  "hydration_cvr =
     \<lparr>cvr_id = ''g'', cvr_ver = \<lparr>state_ver = ''01'', config_ver = None\<rparr>, last_active = F_Fin 0, ttl_clk = TtlClock (F_Fin 0),
      replica_version = None, clients = [], queries = [], client_schema = None, profile_id = None\<rparr>"

definition sample_view :: "row_id \<Rightarrow> row option" where
  "sample_view i = (if i = wire_row_id (sample_identity ''q'') ''b'' then Some [(''id'', JString ''b'')] else None)"

definition sample_row_store :: "row_id \<Rightarrow> row_record option" where
  "sample_row_store i = (if i = wire_row_id (sample_identity ''q'') ''b''
     then Some \<lparr>rr_patch_version = \<lparr>state_ver = ''01'', config_ver = None\<rparr>, rr_id = i, rr_row_version = ''01'', rr_ref_counts = Some [(''q'', 1)]\<rparr>
     else None)"

lemma sample_inj: "inj (wire_row_id (sample_identity q))"
  by (auto simp: inj_def sample_identity_def)

lemma sample_existing_good: "\<forall>x\<in>set sample_existing. refs_good (2 ^ 60) (er_ref_counts (snd x))"
  by (auto simp: sample_existing_def refs_good_def bt_ok_Cons)

lemma sample_held:
  "\<forall>k. sample_view (wire_row_id (sample_identity ''q'') k) \<noteq> None \<longleftrightarrow> ex_refs sample_existing k \<noteq> None"
  "\<forall>k. stored_refs sample_row_store (wire_row_id (sample_identity ''q'') k) = ex_refs sample_existing k"
  by (simp_all add: sample_view_def sample_row_store_def stored_refs_def ex_refs_def sample_existing_def sample_identity_def)

theorem hydrate_query_view_witness:
  "\<exists>res v' tracked' received lps.
    hydrate_query_from_rows std_text \<lparr>state_ver = ''01'', config_ver = None\<rparr> ''q'' ''h'' [[(''id'', JString ''a'')]] (sample_identity ''q'')
      sample_existing (deletion_rows ''q'' sample_existing) (hydration_cvr, {}, [], []) = Some (res, v', tracked', received, lps) \<and>
    client_rows (hydration_to_patches res (cvr_ver v') (sample_identity ''q'')) sample_view (wire_row_id (sample_identity ''q'') ''b'') = None"
proof -
  have v: "version_ok (cvr_ver hydration_cvr)" "cmp_versions (Some \<lparr>state_ver = ''01'', config_ver = None\<rparr>) (Some (cvr_ver hydration_cvr)) \<le> 0"
    "config_or_0 (cvr_ver hydration_cvr) < 2 ^ 53" "version_ok \<lparr>state_ver = ''01'', config_ver = None\<rparr>"
    by (simp_all add: hydration_cvr_def version_ok_def config_or_0_def cmp_versions_def)
  have f: "find (\<lambda>r. row_key (sample_identity ''q'') r = ''b'') [[(''id'', JString ''a'')]] = None" by (simp add: sample_identity_def)
  have n: "\<not> other_refs ''q'' sample_existing ''b''" by (simp add: other_refs_def ex_refs_def sample_existing_def)
  have p: "inj_on (row_key (sample_identity ''q'')) (set [[(''id'', JString ''a'')]])" "row_ref_counts (sample_identity ''q'') = (\<lambda>_. [(''q'', 1)])"
    "int (length [[(''id'', JString ''a'')]]) \<le> 2 ^ 60" "distinct (map fst sample_existing)"
    by (simp_all add: sample_identity_def sample_existing_def)
  note hydrate_query_view [OF p(1) sample_inj p(2,3,4) sample_existing_good v(4,1,2,3) sample_held, of std_text "''h''" "{}", unfolded Let_def]
  then obtain res v' tracked' received lps where
    r: "hydrate_query_from_rows std_text \<lparr>state_ver = ''01'', config_ver = None\<rparr> ''q'' ''h'' [[(''id'', JString ''a'')]] (sample_identity ''q'')
      sample_existing (deletion_rows ''q'' sample_existing) (hydration_cvr, {}, [], []) = Some (res, v', tracked', received, lps)"
    "client_rows (hydration_to_patches res (cvr_ver v') (sample_identity ''q'')) sample_view (wire_row_id (sample_identity ''q'') ''b'') =
     (case find (\<lambda>r. row_key (sample_identity ''q'') r = ''b'') [[(''id'', JString ''a'')]] of
        Some r \<Rightarrow> Some r | None \<Rightarrow> if other_refs ''q'' sample_existing ''b'' then sample_view (wire_row_id (sample_identity ''q'') ''b'') else None)"
    by blast
  then show ?thesis unfolding f using n by auto
qed

end
