(* ===== verification/Poke.thy ===== *)
theory Poke
  imports Cvr_Rows Json_Text
begin

text \<open>
  Pokes, the messages that move a client from one version to the next: the wire forms of row and
  query patches (\<open>poke_builder.rs\<close>, \<open>client_handler_row_patch.rs\<close>), the decisions of a poke
  (\<open>client_handler_poke.rs\<close>) and the poke cycle of one connection (\<open>client_handler.rs\<close>), whose
  socket is the list of the messages sent so far.
\<close>

section \<open>Wire types\<close>

record mutation_id =
  mid_id :: f64
  mid_client_id :: string

datatype zero_error_kind = OooMutation | AlreadyProcessed

datatype mutation_result =
    MutationOk "json option"
  | MutationAppError "string option" "json option"
  | MutationZeroError zero_error_kind "json option"

record mutation_response =
  mr_id :: mutation_id
  mr_result :: mutation_result

datatype mutation_patch_op = MutationPut mutation_response | MutationDel mutation_id

datatype queries_patch_op = QueriesPut string "f64 option" | QueriesDel string | QueriesClear

datatype row_patch_op =
    RowPutOp string row
  | RowUpdateOp string "(string, json) btree" "(string \<times> json) list option" "string list option"
  | RowDelOp string "(string, json) btree"
  | RowClearOp

record poke_start =
  ps_poke_id :: string
  ps_base_cookie :: "string option"
  ps_schema_versions :: "(f64 \<times> f64) option"
  ps_timestamp :: "f64 option"

record poke_part =
  pp_poke_id :: string
  last_mutation_id_changes :: "(string, f64) btree option"
  desired_queries_patches :: "(string, queries_patch_op list) btree option"
  got_queries_patch :: "queries_patch_op list option"
  rows_patch :: "row_patch_op list option"
  mutations_patch :: "mutation_patch_op list option"

record poke_end =
  pe_poke_id :: string
  pe_cookie :: string
  pe_cancel :: "bool option"

datatype poke_message = PokeStart poke_start | PokePart poke_part | PokeEnd poke_end

section \<open>Building a poke from patches\<close>

definition query_patch_wire :: "query_patch \<Rightarrow> queries_patch_op" where
  "query_patch_wire qp = (case qp_op qp of PutOp \<Rightarrow> QueriesPut (qp_id qp) None | DelOp \<Rightarrow> QueriesDel (qp_id qp))"

fun accumulate_patch ::
  "patch \<Rightarrow> (string, queries_patch_op list) btree \<times> queries_patch_op list \<times> row_patch_op list \<Rightarrow>
   (string, queries_patch_op list) btree \<times> queries_patch_op list \<times> row_patch_op list" where
  "accumulate_patch (PConfig qp) (qs, got, rows) =
     (let op = query_patch_wire qp in
      case qp_client_id qp of
        Some cid \<Rightarrow> (bt_set cid ((case map_of qs cid of None \<Rightarrow> [] | Some l \<Rightarrow> l) @ [op]) qs, got, rows)
      | None \<Rightarrow> (qs, got @ [op], rows))"
| "accumulate_patch (PRow (RowPut rid contents)) (qs, got, rows) =
     (qs, got, rows @ [RowPutOp (rid_table rid) (filter (\<lambda>x. fst x \<noteq> ''_0_version'') contents)])"
| "accumulate_patch (PRow (RowDelete rid)) (qs, got, rows) = (qs, got, rows @ [RowDelOp (rid_table rid) (rid_row_key rid)])"

record poke_messages =
  pm_start :: poke_start
  pm_part :: poke_part
  pm_end :: poke_end

definition build_poke_impl ::
  "'a text_lib_scheme \<Rightarrow> (lexi_error \<Rightarrow> string) \<Rightarrow> string \<Rightarrow> cvr_version option \<Rightarrow> cvr_version \<Rightarrow> patch_to_version list \<Rightarrow>
   f64 option \<Rightarrow> bool \<Rightarrow> version_error + poke_messages option" where
  "build_poke_impl B show_err poke_id base target patches timestamp force =
     (if patches = [] \<and> \<not> force then Inr None
      else let (qs, got, rows) = fold (accumulate_patch \<circ> pv_patch) patches ([], [], []) in
        (case version_to_nullable_cookie B show_err base of
           Inl e \<Rightarrow> Inl e
         | Inr base_cookie \<Rightarrow>
             (case version_to_cookie B show_err target of
                Inl e \<Rightarrow> Inl e
              | Inr final_cookie \<Rightarrow> Inr (Some
                  \<lparr>pm_start = \<lparr>ps_poke_id = poke_id, ps_base_cookie = base_cookie, ps_schema_versions = None, ps_timestamp = timestamp\<rparr>,
                   pm_part = \<lparr>pp_poke_id = poke_id, last_mutation_id_changes = None,
                              desired_queries_patches = (if qs \<noteq> [] then Some qs else None),
                              got_queries_patch = (if got \<noteq> [] then Some got else None),
                              rows_patch = (if rows \<noteq> [] then Some rows else None), mutations_patch = None\<rparr>,
                   pm_end = \<lparr>pe_poke_id = poke_id, pe_cookie = final_cookie, pe_cancel = None\<rparr>\<rparr>))))"

definition cookie_or_default :: "'a text_lib_scheme \<Rightarrow> (lexi_error \<Rightarrow> string) \<Rightarrow> cvr_version \<Rightarrow> string" where
  "cookie_or_default B show_err v = (case version_to_cookie B show_err v of Inl _ \<Rightarrow> '''' | Inr c \<Rightarrow> c)"

text \<open>\<open>Iterator::max_by_key\<close>: the last of the greatest.\<close>

fun max_by_cookie :: "'a text_lib_scheme \<Rightarrow> (lexi_error \<Rightarrow> string) \<Rightarrow> cvr_version \<Rightarrow> cvr_version list \<Rightarrow> cvr_version" where
  "max_by_cookie B show_err best [] = best"
| "max_by_cookie B show_err best (v # vs) =
     max_by_cookie B show_err (if cookie_or_default B show_err best \<le> cookie_or_default B show_err v then v else best) vs"

definition build_poke ::
  "'a text_lib_scheme \<Rightarrow> (lexi_error \<Rightarrow> string) \<Rightarrow> string \<Rightarrow> cvr_version option \<Rightarrow> patch_to_version list \<Rightarrow> f64 option \<Rightarrow>
   version_error + poke_messages option" where
  "build_poke B show_err poke_id base patches timestamp =
     (case map pv_to_version patches of
        [] \<Rightarrow> Inr None
      | v # vs \<Rightarrow> build_poke_impl B show_err poke_id base (max_by_cookie B show_err v vs) patches timestamp False)"

definition build_poke_to_target ::
  "'a text_lib_scheme \<Rightarrow> (lexi_error \<Rightarrow> string) \<Rightarrow> cvr_version option \<Rightarrow> cvr_version \<Rightarrow> patch_to_version list \<Rightarrow> f64 option \<Rightarrow> bool \<Rightarrow>
   version_error + poke_messages option" where
  "build_poke_to_target B show_err base target patches timestamp force =
     (if patches = [] \<and> \<not> force then Inr None
      else (case version_to_cookie B show_err target of
              Inl e \<Rightarrow> Inl e
            | Inr poke_id \<Rightarrow> build_poke_impl B show_err poke_id base target patches timestamp force))"

section \<open>Decisions of a poke\<close>

definition should_send_poke :: "cvr_version option \<Rightarrow> cvr_version \<Rightarrow> bool \<Rightarrow> bool" where
  "should_send_poke base tentative ever_poked =
     (let force_initial_poke = \<not> ever_poked; cmp = cmp_versions base (Some tentative)
      in \<not> (cmp > 0 \<or> (cmp = 0 \<and> \<not> force_initial_poke)))"

definition part_count_flush_threshold :: int where
  "part_count_flush_threshold = 100"

definition should_include_patch :: "cvr_version \<Rightarrow> cvr_version option \<Rightarrow> bool" where
  "should_include_patch to_version base = (cmp_versions (Some to_version) base > 0)"

definition should_flush_poke_part :: "int \<Rightarrow> bool" where
  "should_flush_poke_part n = (n \<ge> part_count_flush_threshold)"

datatype poke_end_action = PokeNoop | SendPokeStartFirst | ProceedToEnd

text \<open>\<open>None\<close> is the error \<open>InvalidPokeEndVersion\<close>.\<close>

definition decide_poke_end :: "bool \<Rightarrow> cvr_version option \<Rightarrow> cvr_version \<Rightarrow> bool \<Rightarrow> poke_end_action option" where
  "decide_poke_end poke_started base final force_initial_poke =
     (if \<not> poke_started
      then (if cmp_versions base (Some final) = 0 \<and> \<not> force_initial_poke then Some PokeNoop else Some SendPokeStartFirst)
      else if cmp_versions base (Some final) \<ge> 0 then None
      else Some ProceedToEnd)"

section \<open>Rows on the wire\<close>

fun make_row_patch :: "client_row_patch \<Rightarrow> row_patch_op" where
  "make_row_patch (RowPut rid contents) = RowPutOp (rid_table rid) contents"
| "make_row_patch (RowDelete rid) = RowDelOp (rid_table rid) (rid_row_key rid)"

text \<open>The error carries the column and the number's text.\<close>

fun safe_json_value :: "string \<times> json \<Rightarrow> (string \<times> string) + (string \<times> json)" where
  "safe_json_value (k, JBigInt n) =
     (if - (2 ^ 53) + 1 \<le> n \<and> n \<le> 2 ^ 53 - 1 then Inr (k, JNumber (f64_of_i64 n)) else Inl (k, int_to_string n))"
| "safe_json_value (k, v) = Inr (k, v)"

fun ensure_safe_json :: "row \<Rightarrow> (string \<times> string) + row" where
  "ensure_safe_json [] = Inr []"
| "ensure_safe_json (x # xs) =
     (case safe_json_value x of
        Inl e \<Rightarrow> Inl e
      | Inr y \<Rightarrow> (case ensure_safe_json xs of Inl e \<Rightarrow> Inl e | Inr ys \<Rightarrow> Inr (y # ys)))"

definition get_col :: "row \<Rightarrow> string \<Rightarrow> json option" where
  "get_col r col = map_option snd (find (\<lambda>x. fst x = col) r)"

definition get_string :: "row \<Rightarrow> string \<Rightarrow> string option" where
  "get_string r col = (case get_col r col of Some (JString s) \<Rightarrow> Some s | _ \<Rightarrow> None)"

definition get_number :: "row \<Rightarrow> string \<Rightarrow> f64 option" where
  "get_number r col = (case get_col r col of Some (JNumber n) \<Rightarrow> Some n | _ \<Rightarrow> None)"

datatype lmid_update = LmidChange string f64 | LmidIgnored string

text \<open>\<open>None\<close> is the error \<open>LmidRowError\<close>.\<close>

definition update_lmids :: "string \<Rightarrow> row \<Rightarrow> lmid_update option" where
  "update_lmids our_group r = do {
     client_group_id \<leftarrow> get_string r ''clientGroupID'';
     client_id \<leftarrow> get_string r ''clientID'';
     last_mutation_id \<leftarrow> get_number r ''lastMutationID'';
     Some (if client_group_id \<noteq> our_group then LmidIgnored client_group_id else LmidChange client_id last_mutation_id)
   }"

datatype mutation_del_id_error = ClientIdNotAString | MutationIdNotAFiniteNonNegativeNumber

definition non_negative :: "f64 \<Rightarrow> bool" where
  "non_negative n = (case n of F_Fin q \<Rightarrow> q \<ge> 0 | _ \<Rightarrow> False)"

text \<open>\<open>pf\<close> is Rust's parser of \<open>f64\<close>.\<close>

definition parse_mutation_del_id ::
  "(string \<Rightarrow> f64 option) \<Rightarrow> (string, json) btree \<Rightarrow> mutation_del_id_error + string \<times> f64" where
  "parse_mutation_del_id pf rk =
     (case map_of rk ''clientID'' of
        Some (JString client_id) \<Rightarrow>
          (case map_of rk ''mutationID'' of
             Some (JNumber n) \<Rightarrow> if non_negative n then Inr (client_id, n) else Inl MutationIdNotAFiniteNonNegativeNumber
           | Some (JString s) \<Rightarrow>
               (case pf s of
                  Some n \<Rightarrow> if non_negative n then Inr (client_id, n) else Inl MutationIdNotAFiniteNonNegativeNumber
                | None \<Rightarrow> Inl MutationIdNotAFiniteNonNegativeNumber)
           | _ \<Rightarrow> Inl MutationIdNotAFiniteNonNegativeNumber)
      | _ \<Rightarrow> Inl ClientIdNotAString)"

datatype mutation_row_error = MissingIdFields | ResultNotAnObject | UnrecognizedErrorKind string

fun parse_mutation_result :: "json \<Rightarrow> mutation_row_error + mutation_result" where
  "parse_mutation_result (JObject fs) =
     (case get_col fs ''error'' of
        None \<Rightarrow> Inr (MutationOk (get_col fs ''data''))
      | Some (JString kind) \<Rightarrow>
          if kind = ''app'' then Inr (MutationAppError (get_string fs ''message'') (get_col fs ''details''))
          else if kind = ''oooMutation'' then Inr (MutationZeroError OooMutation (get_col fs ''details''))
          else if kind = ''alreadyProcessed'' then Inr (MutationZeroError AlreadyProcessed (get_col fs ''details''))
          else Inl (UnrecognizedErrorKind kind)
      | Some _ \<Rightarrow> Inl (UnrecognizedErrorKind ''<non-string>''))"
| "parse_mutation_result _ = Inl ResultNotAnObject"

definition parse_mutation_put :: "row \<Rightarrow> mutation_row_error + mutation_response" where
  "parse_mutation_put contents =
     (case get_string contents ''clientID'' of
        None \<Rightarrow> Inl MissingIdFields
      | Some client_id \<Rightarrow>
          (case get_number contents ''mutationID'' of
             None \<Rightarrow> Inl MissingIdFields
           | Some mutation_id \<Rightarrow>
               (case get_col contents ''result'' of
                  None \<Rightarrow> Inl ResultNotAnObject
                | Some value \<Rightarrow>
                    (case parse_mutation_result value of
                       Inl e \<Rightarrow> Inl e
                     | Inr res \<Rightarrow> Inr \<lparr>mr_id = \<lparr>mid_id = mutation_id, mid_client_id = client_id\<rparr>, mr_result = res\<rparr>))))"


section \<open>The poke cycle of a connection\<close>

datatype poke_error =
    PokeVersionError version_error
  | PokeAlreadyEnded
  | InvalidPokeEndVersion
  | MalformedClientsRow
  | MalformedMutationsRow

record client_handler =
  ch_ws_id :: string
  ch_client_group_id :: string
  ch_zero_clients_table :: string
  ch_zero_mutations_table :: string
  ch_base_version :: "cvr_version option"
  ch_ever_poked :: bool

record poke_cycle =
  pc_sent :: "poke_message list"
  pc_poke_id :: string
  pc_client_group_id :: string
  pc_zero_clients_table :: string
  pc_zero_mutations_table :: string
  pc_base_version :: "cvr_version option"
  pc_started :: bool
  pc_body :: "poke_part option"
  pc_part_count :: int
  pc_ended :: bool

definition client_handler_new :: "string \<Rightarrow> string \<Rightarrow> string \<Rightarrow> string \<Rightarrow> cvr_version option \<Rightarrow> client_handler" where
  "client_handler_new ws_id gid clients_table mutations_table base =
     \<lparr>ch_ws_id = ws_id, ch_client_group_id = gid, ch_zero_clients_table = clients_table,
      ch_zero_mutations_table = mutations_table, ch_base_version = base, ch_ever_poked = False\<rparr>"

text \<open>The inner option is the code's; the outer \<open>None\<close> is the panic of \<open>expect\<close>.\<close>

definition start_poke ::
  "'a text_lib_scheme \<Rightarrow> (lexi_error \<Rightarrow> string) \<Rightarrow> client_handler \<Rightarrow> cvr_version \<Rightarrow> poke_cycle option option" where
  "start_poke B show_err h tentative =
     (if \<not> should_send_poke (ch_base_version h) tentative (ch_ever_poked h) then Some None
      else (case version_to_cookie B show_err tentative of
              Inl _ \<Rightarrow> None
            | Inr poke_id \<Rightarrow> Some (Some
                \<lparr>pc_sent = [], pc_poke_id = poke_id, pc_client_group_id = ch_client_group_id h,
                 pc_zero_clients_table = ch_zero_clients_table h, pc_zero_mutations_table = ch_zero_mutations_table h,
                 pc_base_version = ch_base_version h, pc_started = False, pc_body = None, pc_part_count = 0, pc_ended = False\<rparr>)))"

definition commit_poke :: "cvr_version \<Rightarrow> client_handler \<Rightarrow> client_handler" where
  "commit_poke final h = h\<lparr>ch_base_version := Some final, ch_ever_poked := True\<rparr>"

definition send :: "poke_message \<Rightarrow> poke_cycle \<Rightarrow> poke_cycle" where
  "send m c = c\<lparr>pc_sent := pc_sent c @ [m]\<rparr>"

definition send_start :: "'a text_lib_scheme \<Rightarrow> (lexi_error \<Rightarrow> string) \<Rightarrow> poke_cycle \<Rightarrow> poke_cycle \<times> (poke_error + unit)" where
  "send_start B show_err c =
     (case version_to_nullable_cookie B show_err (pc_base_version c) of
        Inl e \<Rightarrow> (c, Inl (PokeVersionError e))
      | Inr base_cookie \<Rightarrow>
          ((send (PokeStart \<lparr>ps_poke_id = pc_poke_id c, ps_base_cookie = base_cookie, ps_schema_versions = None, ps_timestamp = None\<rparr>) c)
             \<lparr>pc_started := True\<rparr>, Inr ()))"

definition ensure_started :: "'a text_lib_scheme \<Rightarrow> (lexi_error \<Rightarrow> string) \<Rightarrow> poke_cycle \<Rightarrow> poke_cycle \<times> (poke_error + unit)" where
  "ensure_started B show_err c = (if \<not> pc_started c then send_start B show_err c else (c, Inr ()))"

definition empty_part :: "string \<Rightarrow> poke_part" where
  "empty_part poke_id =
     \<lparr>pp_poke_id = poke_id, last_mutation_id_changes = None, desired_queries_patches = None, got_queries_patch = None,
      rows_patch = None, mutations_patch = None\<rparr>"

definition body_mut :: "(poke_part \<Rightarrow> poke_part) \<Rightarrow> poke_cycle \<Rightarrow> poke_cycle" where
  "body_mut f c = c\<lparr>pc_body := Some (f (case pc_body c of None \<Rightarrow> empty_part (pc_poke_id c) | Some b \<Rightarrow> b))\<rparr>"

definition flush_body :: "poke_cycle \<Rightarrow> poke_cycle" where
  "flush_body c =
     (case pc_body c of
        None \<Rightarrow> c
      | Some b \<Rightarrow> (send (PokePart b) c)\<lparr>pc_body := None, pc_part_count := 0\<rparr>)"

definition list_or_empty :: "'a list option \<Rightarrow> 'a list" where
  "list_or_empty x = (case x of None \<Rightarrow> [] | Some l \<Rightarrow> l)"

definition add_mutation :: "mutation_patch_op \<Rightarrow> poke_part \<Rightarrow> poke_part" where
  "add_mutation op b = b\<lparr>mutations_patch := Some (list_or_empty (mutations_patch b) @ [op])\<rparr>"

definition add_row :: "row_patch_op \<Rightarrow> poke_part \<Rightarrow> poke_part" where
  "add_row op b = b\<lparr>rows_patch := Some (list_or_empty (rows_patch b) @ [op])\<rparr>"

definition add_lmid :: "string \<Rightarrow> f64 \<Rightarrow> poke_part \<Rightarrow> poke_part" where
  "add_lmid client_id lmid b =
     b\<lparr>last_mutation_id_changes := Some (bt_set client_id lmid (list_or_empty (last_mutation_id_changes b)))\<rparr>"

definition add_desired :: "string \<Rightarrow> queries_patch_op \<Rightarrow> poke_part \<Rightarrow> poke_part" where
  "add_desired client_id op b =
     (let m = list_or_empty (desired_queries_patches b)
      in b\<lparr>desired_queries_patches := Some (bt_set client_id (list_or_empty (map_of m client_id) @ [op]) m)\<rparr>)"

definition add_got :: "queries_patch_op \<Rightarrow> poke_part \<Rightarrow> poke_part" where
  "add_got op b = b\<lparr>got_queries_patch := Some (list_or_empty (got_queries_patch b) @ [op])\<rparr>"

text \<open>
  What \<open>add_patch\<close> does to the part in progress: an error, nothing, or one of the additions above.
\<close>

definition row_patch_table :: "client_row_patch \<Rightarrow> string" where
  "row_patch_table p = (case p of RowPut rid _ \<Rightarrow> rid_table rid | RowDelete rid \<Rightarrow> rid_table rid)"

definition route_row :: "(string \<Rightarrow> f64 option) \<Rightarrow> poke_cycle \<Rightarrow> client_row_patch \<Rightarrow> poke_error + (poke_part \<Rightarrow> poke_part) option" where
  "route_row pf c p =
     (if row_patch_table p = pc_zero_clients_table c then
        (case p of
           RowPut _ contents \<Rightarrow>
             (case update_lmids (pc_client_group_id c) contents of
                None \<Rightarrow> Inl MalformedClientsRow
              | Some (LmidChange client_id lmid) \<Rightarrow> Inr (Some (add_lmid client_id lmid))
              | Some (LmidIgnored _) \<Rightarrow> Inr None)
         | RowDelete _ \<Rightarrow> Inr None)
      else if row_patch_table p = pc_zero_mutations_table c then
        (case p of
           RowPut _ contents \<Rightarrow>
             (case parse_mutation_put contents of
                Inl _ \<Rightarrow> Inl MalformedMutationsRow
              | Inr m \<Rightarrow> Inr (Some (add_mutation (MutationPut m))))
         | RowDelete rid \<Rightarrow>
             (case parse_mutation_del_id pf (rid_row_key rid) of
                Inl _ \<Rightarrow> Inl MalformedMutationsRow
              | Inr (client_id, i) \<Rightarrow> Inr (Some (add_mutation (MutationDel \<lparr>mid_id = i, mid_client_id = client_id\<rparr>)))))
      else Inr (Some (add_row (make_row_patch p))))"

definition route_patch :: "(string \<Rightarrow> f64 option) \<Rightarrow> poke_cycle \<Rightarrow> patch \<Rightarrow> poke_error + (poke_part \<Rightarrow> poke_part) option" where
  "route_patch pf c p =
     (case p of
        PRow rp \<Rightarrow> route_row pf c rp
      | PConfig qp \<Rightarrow>
          (case qp_client_id qp of
             Some client_id \<Rightarrow> Inr (Some (add_desired client_id (query_patch_wire qp)))
           | None \<Rightarrow> Inr (Some (add_got (query_patch_wire qp)))))"

definition apply_edit :: "(poke_part \<Rightarrow> poke_part) option \<Rightarrow> poke_cycle \<Rightarrow> poke_cycle" where
  "apply_edit f c =
     (let c = (case f of None \<Rightarrow> c | Some f \<Rightarrow> body_mut f c);
          c = c\<lparr>pc_part_count := (pc_part_count c + 1) mod 2 ^ 32\<rparr>
      in if should_flush_poke_part (pc_part_count c) then flush_body c else c)"

definition add_patch ::
  "'a text_lib_scheme \<Rightarrow> (lexi_error \<Rightarrow> string) \<Rightarrow> (string \<Rightarrow> f64 option) \<Rightarrow> patch_to_version \<Rightarrow> poke_cycle \<Rightarrow> poke_cycle \<times> (poke_error + unit)" where
  "add_patch B show_err pf p c =
     (if pc_ended c then (c, Inl PokeAlreadyEnded)
      else if \<not> should_include_patch (pv_to_version p) (pc_base_version c) then (c, Inr ())
      else (case ensure_started B show_err c of
              (c, Inl e) \<Rightarrow> (c, Inl e)
            | (c, Inr _) \<Rightarrow>
                (case route_patch pf c (pv_patch p) of
                   Inl e \<Rightarrow> (c, Inl e)
                 | Inr f \<Rightarrow> (apply_edit f c, Inr ()))))"

definition cancel_poke :: "poke_cycle \<Rightarrow> poke_cycle" where
  "cancel_poke c =
     (if pc_started c then send (PokeEnd \<lparr>pe_poke_id = pc_poke_id c, pe_cookie = '''', pe_cancel = Some True\<rparr>) c else c)
       \<lparr>pc_ended := True\<rparr>"

text \<open>\<open>None\<close> is the panic of \<open>expect\<close>; the result says whether anything was sent.\<close>

definition end_poke ::
  "'a text_lib_scheme \<Rightarrow> (lexi_error \<Rightarrow> string) \<Rightarrow> cvr_version \<Rightarrow> bool \<Rightarrow> poke_cycle \<Rightarrow> (poke_cycle \<times> (poke_error + bool)) option" where
  "end_poke B show_err final force c =
     (case decide_poke_end (pc_started c) (pc_base_version c) final force of
        None \<Rightarrow> Some (c, Inl InvalidPokeEndVersion)
      | Some PokeNoop \<Rightarrow> Some (c\<lparr>pc_ended := True\<rparr>, Inr False)
      | Some action \<Rightarrow>
          (case (if action = SendPokeStartFirst then send_start B show_err c else (c, Inr ())) of
             (c, Inl e) \<Rightarrow> Some (c, Inl e)
           | (c, Inr _) \<Rightarrow>
               (let c = flush_body c in
                case version_to_cookie B show_err final of
                  Inl _ \<Rightarrow> None
                | Inr cookie \<Rightarrow>
                    Some ((send (PokeEnd \<lparr>pe_poke_id = pc_poke_id c, pe_cookie = cookie, pe_cancel = None\<rparr>) c)\<lparr>pc_ended := True\<rparr>, Inr True))))"

fun add_patches ::
  "'a text_lib_scheme \<Rightarrow> (lexi_error \<Rightarrow> string) \<Rightarrow> (string \<Rightarrow> f64 option) \<Rightarrow> patch_to_version list \<Rightarrow> poke_cycle \<Rightarrow> poke_cycle \<times> (poke_error + unit)" where
  "add_patches B show_err pf [] c = (c, Inr ())"
| "add_patches B show_err pf (p # ps) c =
     (case add_patch B show_err pf p c of (c, Inl e) \<Rightarrow> (c, Inl e) | (c, Inr _) \<Rightarrow> add_patches B show_err pf ps c)"


section \<open>The messages of a cycle\<close>

type_synonym edit = "poke_part \<Rightarrow> poke_part"

text \<open>The part a group of edits builds, and the edits of the patches a cycle includes.\<close>

definition build_part :: "string \<Rightarrow> edit list \<Rightarrow> poke_part" where
  "build_part poke_id g = fold (\<lambda>f b. f b) g (empty_part poke_id)"

definition patch_edits :: "(string \<Rightarrow> f64 option) \<Rightarrow> poke_cycle \<Rightarrow> patch_to_version list \<Rightarrow> edit list" where
  "patch_edits pf c ps =
     concat (map (\<lambda>p. case route_patch pf c (pv_patch p) of Inr (Some f) \<Rightarrow> [f] | _ \<Rightarrow> [])
       (filter (\<lambda>p. should_include_patch (pv_to_version p) (pc_base_version c)) ps))"

definition group_ok :: "edit list \<Rightarrow> bool" where
  "group_ok g \<longleftrightarrow> g \<noteq> [] \<and> length g \<le> 100"

text \<open>
  A cycle after the patches \<open>ps\<close>: the groups \<open>gs\<close> are sent, the group \<open>g\<close> is the part in
  progress, and the counter bounds it.
\<close>

definition cycle_inv ::
  "(string \<Rightarrow> f64 option) \<Rightarrow> string option \<Rightarrow> poke_cycle \<Rightarrow> patch_to_version list \<Rightarrow> edit list list \<Rightarrow> edit list \<Rightarrow> poke_cycle \<Rightarrow> bool" where
  "cycle_inv pf base_cookie c0 ps gs g c \<longleftrightarrow>
     pc_poke_id c = pc_poke_id c0 \<and> pc_client_group_id c = pc_client_group_id c0 \<and>
     pc_zero_clients_table c = pc_zero_clients_table c0 \<and> pc_zero_mutations_table c = pc_zero_mutations_table c0 \<and>
     pc_base_version c = pc_base_version c0 \<and> \<not> pc_ended c \<and>
     pc_sent c = (if pc_started c
       then PokeStart \<lparr>ps_poke_id = pc_poke_id c0, ps_base_cookie = base_cookie, ps_schema_versions = None, ps_timestamp = None\<rparr> #
            map (\<lambda>g. PokePart (build_part (pc_poke_id c0) g)) gs
       else []) \<and>
     (pc_started c \<longleftrightarrow> filter (\<lambda>p. should_include_patch (pv_to_version p) (pc_base_version c0)) ps \<noteq> []) \<and>
     pc_body c = (if g = [] then None else Some (build_part (pc_poke_id c0) g)) \<and>
     concat gs @ g = patch_edits pf c0 ps \<and> (\<forall>g\<in>set gs. group_ok g) \<and>
     int (length g) \<le> pc_part_count c \<and> (g \<noteq> [] \<longrightarrow> pc_part_count c < 100) \<and> 0 \<le> pc_part_count c \<and>
     pc_part_count c \<le> int (length ps)"

lemma route_patch_static:
  "pc_client_group_id c = pc_client_group_id c0 \<Longrightarrow> pc_zero_clients_table c = pc_zero_clients_table c0 \<Longrightarrow>
   pc_zero_mutations_table c = pc_zero_mutations_table c0 \<Longrightarrow> route_patch pf c p = route_patch pf c0 p"
  by (cases p) (auto simp: route_patch_def route_row_def split: client_row_patch.splits)

lemma build_part_snoc: "build_part i (g @ [f]) = f (build_part i g)"
  by (simp add: build_part_def)

lemma patch_edits_snoc:
  "patch_edits pf c (ps @ [p]) = patch_edits pf c ps @
     (if should_include_patch (pv_to_version p) (pc_base_version c)
      then case route_patch pf c (pv_patch p) of Inr (Some f) \<Rightarrow> [f] | _ \<Rightarrow> [] else [])"
  by (simp add: patch_edits_def)

lemma send_start_ok:
  assumes "version_to_nullable_cookie B show_err (pc_base_version c) = Inr base_cookie"
  shows "send_start B show_err c = (c\<lparr>pc_sent := pc_sent c @
      [PokeStart \<lparr>ps_poke_id = pc_poke_id c, ps_base_cookie = base_cookie, ps_schema_versions = None, ps_timestamp = None\<rparr>], pc_started := True\<rparr>, Inr ())"
  using assms by (simp add: send_start_def send_def)

text \<open>Starting keeps the invariant up to the flag: \<open>started\<close> is the cycle with its start message sent.\<close>

lemma ensure_started_eq:
  assumes "version_to_nullable_cookie B show_err (pc_base_version c) = Inr base_cookie"
    "pc_sent c = (if pc_started c then PokeStart \<lparr>ps_poke_id = pc_poke_id c, ps_base_cookie = base_cookie, ps_schema_versions = None, ps_timestamp = None\<rparr> # ms else [])"
    "\<not> pc_started c \<Longrightarrow> ms = []"
  shows "ensure_started B show_err c =
    (c\<lparr>pc_sent := PokeStart \<lparr>ps_poke_id = pc_poke_id c, ps_base_cookie = base_cookie, ps_schema_versions = None, ps_timestamp = None\<rparr> # ms,
       pc_started := True\<rparr>, Inr ())"
  using assms by (cases "pc_started c") (auto simp: ensure_started_def send_start_def send_def)


lemma cycle_inv_stale:
  assumes "cycle_inv pf k c0 ps gs g c" "\<not> should_include_patch (pv_to_version p) (pc_base_version c0)"
  shows "cycle_inv pf k c0 (ps @ [p]) gs g c"
  using assms by (auto simp: cycle_inv_def patch_edits_snoc)

definition with_start :: "poke_cycle \<Rightarrow> string option \<Rightarrow> edit list list \<Rightarrow> poke_cycle \<Rightarrow> poke_cycle" where
  "with_start c0 k gs c = c\<lparr>pc_sent := PokeStart \<lparr>ps_poke_id = pc_poke_id c0, ps_base_cookie = k, ps_schema_versions = None, ps_timestamp = None\<rparr> #
      map (\<lambda>g. PokePart (build_part (pc_poke_id c0) g)) gs, pc_started := True\<rparr>"

lemma cycle_inv_start:
  assumes "cycle_inv pf k c0 ps gs g c" "version_to_nullable_cookie B show_err (pc_base_version c0) = Inr k"
  shows "ensure_started B show_err c = (with_start c0 k gs c, Inr ())"
proof -
  have "gs = []" if "\<not> pc_started c"
    using assms(1) that by (cases gs) (auto simp: cycle_inv_def patch_edits_def group_ok_def)
  then show ?thesis using ensure_started_eq [of B show_err c k "map (\<lambda>g. PokePart (build_part (pc_poke_id c0) g)) gs"] assms
    by (auto simp: cycle_inv_def with_start_def)
qed

lemma cycle_inv_add:
  assumes inv: "cycle_inv pf k c0 ps gs g c" and inc: "should_include_patch (pv_to_version p) (pc_base_version c0)"
    and r: "route_patch pf c0 (pv_patch p) = Inr f" and n: "int (length ps) + 1 < 2 ^ 32"
  shows "\<exists>gs' g'. cycle_inv pf k c0 (ps @ [p]) gs' g' (apply_edit f (with_start c0 k gs c))"
proof -
  define c1 where "c1 = with_start c0 k gs c"
  define c2 where "c2 = (case f of None \<Rightarrow> c1 | Some f \<Rightarrow> body_mut f c1)"
  define c3 where "c3 = c2\<lparr>pc_part_count := (pc_part_count c2 + 1) mod 2 ^ 32\<rparr>"
  define g' where "g' = g @ (case f of None \<Rightarrow> [] | Some f \<Rightarrow> [f])"
  have ap: "apply_edit f (with_start c0 k gs c) = (if should_flush_poke_part (pc_part_count c3) then flush_body c3 else c3)"
    unfolding apply_edit_def Let_def c3_def c2_def c1_def ..
  have cnt: "pc_part_count c3 = pc_part_count c + 1"
    using inv n by (cases f) (auto simp: c3_def c2_def c1_def with_start_def body_mut_def cycle_inv_def)
  have body: "pc_body c3 = (if g' = [] then None else Some (build_part (pc_poke_id c0) g'))"
    using inv by (cases f; cases "g = []")
      (simp_all add: c3_def c2_def c1_def with_start_def body_mut_def cycle_inv_def g'_def build_part_snoc, simp add: build_part_def)
  have len: "length g' \<le> 100" "int (length g') \<le> pc_part_count c3"
    using inv cnt by (cases f; auto simp: cycle_inv_def g'_def)+
  have ed: "concat gs @ g' = patch_edits pf c0 (ps @ [p])"
    using inv inc r by (cases f) (auto simp: cycle_inv_def patch_edits_snoc g'_def)
  have rest: "pc_poke_id c3 = pc_poke_id c0" "pc_client_group_id c3 = pc_client_group_id c0"
    "pc_zero_clients_table c3 = pc_zero_clients_table c0" "pc_zero_mutations_table c3 = pc_zero_mutations_table c0"
    "pc_base_version c3 = pc_base_version c0" "\<not> pc_ended c3" "pc_started c3"
    "pc_sent c3 = PokeStart \<lparr>ps_poke_id = pc_poke_id c0, ps_base_cookie = k, ps_schema_versions = None, ps_timestamp = None\<rparr> #
      map (\<lambda>g. PokePart (build_part (pc_poke_id c0) g)) gs"
    using inv by (cases f; simp add: c3_def c2_def c1_def with_start_def body_mut_def cycle_inv_def)+
  have cs: "0 \<le> pc_part_count c" "pc_part_count c \<le> int (length ps)" "\<forall>g\<in>set gs. group_ok g" using inv by (auto simp: cycle_inv_def)
  show ?thesis
  proof (cases "should_flush_poke_part (pc_part_count c3) \<and> g' \<noteq> []")
    case True
    then have "cycle_inv pf k c0 (ps @ [p]) (gs @ [g']) [] (flush_body c3)"
      using rest body len(1) ed inc cs by (simp add: cycle_inv_def flush_body_def send_def group_ok_def)
    then show ?thesis using True ap by auto
  next
    case False
    then have "flush_body c3 = c3 \<or> \<not> should_flush_poke_part (pc_part_count c3)" using body by (auto simp: flush_body_def)
    moreover have "cycle_inv pf k c0 (ps @ [p]) gs g' c3"
      using False rest body len ed inc cs cnt
      by (simp add: cycle_inv_def should_flush_poke_part_def part_count_flush_threshold_def) auto
    ultimately show ?thesis unfolding ap by (metis (full_types))
  qed
qed

lemma add_patch_inv:
  assumes inv: "cycle_inv pf k c0 ps gs g c" and k: "version_to_nullable_cookie B show_err (pc_base_version c0) = Inr k"
    and a: "add_patch B show_err pf p c = (c', Inr ())" and n: "int (length ps) + 1 < 2 ^ 32"
  shows "\<exists>gs' g'. cycle_inv pf k c0 (ps @ [p]) gs' g' c'"
proof (cases "should_include_patch (pv_to_version p) (pc_base_version c0)")
  case False
  then show ?thesis using cycle_inv_stale [OF inv, of p] inv a by (auto simp: add_patch_def cycle_inv_def)
next
  case True
  have st: "pc_base_version c = pc_base_version c0" "\<not> pc_ended c" using inv by (auto simp: cycle_inv_def)
  have rp: "route_patch pf (with_start c0 k gs c) (pv_patch p) = route_patch pf c0 (pv_patch p)"
    using inv by (intro route_patch_static) (auto simp: cycle_inv_def with_start_def)
  obtain f where f: "route_patch pf c0 (pv_patch p) = Inr f" "c' = apply_edit f (with_start c0 k gs c)"
    using a st True cycle_inv_start [OF inv k] rp by (auto simp: add_patch_def split: sum.splits)
  then show ?thesis using cycle_inv_add [OF inv True f(1) n] by simp
qed

lemma add_patches_inv:
  "cycle_inv pf k c0 ps gs g c \<Longrightarrow> version_to_nullable_cookie B show_err (pc_base_version c0) = Inr k \<Longrightarrow>
   add_patches B show_err pf qs c = (c', Inr ()) \<Longrightarrow> int (length (ps @ qs)) < 2 ^ 32 \<Longrightarrow>
   \<exists>gs' g'. cycle_inv pf k c0 (ps @ qs) gs' g' c'"
proof (induction qs arbitrary: ps gs g c)
  case (Cons q qs)
  obtain c1 where a: "add_patch B show_err pf q c = (c1, Inr ())" "add_patches B show_err pf qs c1 = (c', Inr ())"
    using Cons.prems(3) by (auto split: prod.splits sum.splits)
  obtain gs1 g1 where "cycle_inv pf k c0 (ps @ [q]) gs1 g1 c1"
    using add_patch_inv [OF Cons.prems(1,2) a(1)] Cons.prems(4) by auto
  from Cons.IH [OF this Cons.prems(2) a(2)] Cons.prems(4) show ?case by simp
qed auto


section \<open>What a client receives\<close>

text \<open>
  A client accumulates the parts of a poke in the order of receipt: last mutation ids replace,
  everything else is appended, desired queries per client.
\<close>

record client_poke =
  cp_lmids :: "string \<rightharpoonup> f64"
  cp_desired :: "string \<Rightarrow> queries_patch_op list"
  cp_got :: "queries_patch_op list"
  cp_rows :: "row_patch_op list"
  cp_mutations :: "mutation_patch_op list"

definition receive_part :: "poke_part \<Rightarrow> client_poke \<Rightarrow> client_poke" where
  "receive_part p v =
     \<lparr>cp_lmids = cp_lmids v ++ map_of (list_or_empty (last_mutation_id_changes p)),
      cp_desired = (\<lambda>c. cp_desired v c @ list_or_empty (map_of (list_or_empty (desired_queries_patches p)) c)),
      cp_got = cp_got v @ list_or_empty (got_queries_patch p),
      cp_rows = cp_rows v @ list_or_empty (rows_patch p),
      cp_mutations = cp_mutations v @ list_or_empty (mutations_patch p)\<rparr>"

definition cuttable :: "edit \<Rightarrow> bool" where
  "cuttable f \<longleftrightarrow> (\<forall>b i v. receive_part (f b) v = receive_part (f (empty_part i)) (receive_part b v))"

lemma list_or_empty_simps [simp]: "list_or_empty None = []" "list_or_empty (Some l) = l"
  by (auto simp: list_or_empty_def)

lemma receive_empty [simp]: "receive_part (empty_part i) v = v"
  by (simp add: receive_part_def empty_part_def)

lemma cuttable_edits:
  "cuttable (add_row op)" "cuttable (add_mutation m)" "cuttable (add_got q)" "cuttable (add_lmid c l)" "cuttable (add_desired c q)"
  by (auto simp: cuttable_def receive_part_def empty_part_def add_row_def add_mutation_def add_got_def add_lmid_def
      add_desired_def Let_def map_add_def fun_eq_iff)

lemma route_patch_cuttable: "route_patch pf c p = Inr (Some f) \<Longrightarrow> cuttable f"
  by (auto simp: route_patch_def route_row_def cuttable_edits
      split: patch.splits client_row_patch.splits option.splits lmid_update.splits sum.splits if_splits)

lemma patch_edits_cuttable: "\<forall>f\<in>set (patch_edits pf c ps). cuttable f"
  by (auto simp: patch_edits_def split: sum.splits option.splits dest!: route_patch_cuttable [OF sym])

lemma receive_build_part:
  "\<forall>f\<in>set g. cuttable f \<Longrightarrow> receive_part (build_part i g) v = fold receive_part (map (\<lambda>f. f (empty_part i)) g) v"
proof (induction g arbitrary: v rule: rev_induct)
  case Nil
  then show ?case by (simp add: build_part_def)
next
  case (snoc f g)
  then have "cuttable f" by simp
  then have "receive_part (f (build_part i g)) v = receive_part (f (empty_part i)) (receive_part (build_part i g) v)"
    unfolding cuttable_def by blast
  then show ?case using snoc by (simp add: build_part_snoc)
qed

lemma receive_groups:
  "\<forall>f\<in>set (concat gs). cuttable f \<Longrightarrow>
   fold receive_part (map (build_part i) gs) v = fold receive_part (map (\<lambda>f. f (empty_part i)) (concat gs)) v"
  by (induction gs arbitrary: v) (simp_all add: receive_build_part)

lemma end_poke_sent:
  assumes e: "end_poke B show_err final force c = Some (c2, Inr True)" and k: "version_to_nullable_cookie B show_err (pc_base_version c) = Inr k"
  shows "\<exists>cookie. version_to_cookie B show_err final = Inr cookie \<and> pc_sent c2 =
    (if pc_started c then pc_sent c
     else pc_sent c @ [PokeStart \<lparr>ps_poke_id = pc_poke_id c, ps_base_cookie = k, ps_schema_versions = None, ps_timestamp = None\<rparr>]) @
    (case pc_body c of None \<Rightarrow> [] | Some b \<Rightarrow> [PokePart b]) @
    [PokeEnd \<lparr>pe_poke_id = pc_poke_id c, pe_cookie = cookie, pe_cancel = None\<rparr>]"
proof -
  obtain a where a: "decide_poke_end (pc_started c) (pc_base_version c) final force = Some a" "a \<noteq> PokeNoop"
    using e by (cases "decide_poke_end (pc_started c) (pc_base_version c) final force") (auto simp: end_poke_def split: poke_end_action.splits)
  then have s: "a = (if pc_started c then ProceedToEnd else SendPokeStartFirst)" by (auto simp: decide_poke_end_def split: if_splits)
  show ?thesis
    using e a s k by (cases "pc_started c"; cases "version_to_cookie B show_err final"; cases "pc_body c")
      (simp_all add: end_poke_def Let_def flush_body_def send_def send_start_ok, auto)
qed

lemma end_poke_silent:
  assumes "end_poke B show_err final force c = Some (c2, Inr False)"
  shows "\<not> pc_started c \<and> cmp_versions (pc_base_version c) (Some final) = 0 \<and> c2 = c\<lparr>pc_ended := True\<rparr>"
proof -
  obtain a where a: "decide_poke_end (pc_started c) (pc_base_version c) final force = Some a"
    using assms by (auto simp: end_poke_def split: option.splits)
  have "a = PokeNoop"
    using assms a by (cases a) (auto simp: end_poke_def Let_def split: prod.splits sum.splits)
  then show ?thesis using assms a by (auto simp: end_poke_def decide_poke_end_def split: if_splits)
qed

section \<open>Patches of a built poke\<close>

definition config_of :: "patch \<Rightarrow> query_patch list" where
  "config_of p = (case p of PConfig qp \<Rightarrow> [qp] | PRow _ \<Rightarrow> [])"

definition wire_row :: "patch \<Rightarrow> row_patch_op list" where
  "wire_row p = (case p of PConfig _ \<Rightarrow> []
     | PRow (RowPut rid contents) \<Rightarrow> [RowPutOp (rid_table rid) (filter (\<lambda>x. fst x \<noteq> ''_0_version'') contents)]
     | PRow (RowDelete rid) \<Rightarrow> [RowDelOp (rid_table rid) (rid_row_key rid)])"

definition queries_for :: "string option \<Rightarrow> patch_to_version list \<Rightarrow> queries_patch_op list" where
  "queries_for c ps = map query_patch_wire (filter (\<lambda>qp. qp_client_id qp = c) (concat (map (config_of \<circ> pv_patch) ps)))"

lemma accumulate_one:
  "accumulate_patch p (qs, got, rows) = (qs1, got1, rows1) \<Longrightarrow>
   (\<forall>c. list_or_empty (map_of qs1 c) = list_or_empty (map_of qs c) @ map query_patch_wire (filter (\<lambda>qp. qp_client_id qp = Some c) (config_of p))) \<and>
   got1 = got @ map query_patch_wire (filter (\<lambda>qp. qp_client_id qp = None) (config_of p)) \<and> rows1 = rows @ wire_row p"
  by (cases "(p, (qs, got, rows))" rule: accumulate_patch.cases)
    (auto simp: config_of_def wire_row_def Let_def list_or_empty_def split: option.splits)

lemma accumulate_patches:
  "fold (accumulate_patch \<circ> pv_patch) ps (qs, got, rows) = (qs', got', rows') \<Longrightarrow>
   (\<forall>c. list_or_empty (map_of qs' c) = list_or_empty (map_of qs c) @ queries_for (Some c) ps) \<and>
   got' = got @ queries_for None ps \<and> rows' = rows @ concat (map (wire_row \<circ> pv_patch) ps)"
proof (induction ps arbitrary: qs got rows)
  case Nil
  then show ?case by (simp add: queries_for_def)
next
  case (Cons p ps)
  have q: "queries_for c (p # ps) = queries_for c [p] @ queries_for c ps" for c by (simp add: queries_for_def)
  obtain qs1 got1 rows1 where 1: "accumulate_patch (pv_patch p) (qs, got, rows) = (qs1, got1, rows1)"
    by (cases "accumulate_patch (pv_patch p) (qs, got, rows)")
  have "(\<forall>c. list_or_empty (map_of qs1 c) = list_or_empty (map_of qs c) @ queries_for (Some c) [p]) \<and>
      got1 = got @ queries_for None [p] \<and> rows1 = rows @ wire_row (pv_patch p)"
    using accumulate_one [OF 1] by (simp add: queries_for_def)
  then show ?case using Cons.IH [of qs1 got1 rows1] Cons.prems 1 by (simp add: q [of _])
qed

section \<open>Properties\<close>

text \<open>
  C27. The messages of a poke cycle. When the cycle sends anything, it sends one start, parts and one
  end, all with the poke id of the tentative version; every part holds between 1 and 100 of the
  patches above the client's base version, in their order; what the client receives is what it
  would receive if each patch were its own part; and the end carries the final version's cookie.
  When it sends nothing, every patch was stale and the client is already at the final version.
\<close>

theorem poke_cycle_messages:
  assumes "start_poke B show_err h tentative = Some (Some c0)" "add_patches B show_err pf ps c0 = (c1, Inr ())"
    "end_poke B show_err final force c1 = Some (c2, Inr sent)" "version_to_nullable_cookie B show_err (ch_base_version h) = Inr base"
    "int (length ps) < 2 ^ 32"
  shows "if sent
    then \<exists>poke_id cookie gs. version_to_cookie B show_err tentative = Inr poke_id \<and> version_to_cookie B show_err final = Inr cookie \<and>
      pc_sent c2 = PokeStart \<lparr>ps_poke_id = poke_id, ps_base_cookie = base, ps_schema_versions = None, ps_timestamp = None\<rparr> #
        map (\<lambda>g. PokePart (build_part poke_id g)) gs @ [PokeEnd \<lparr>pe_poke_id = poke_id, pe_cookie = cookie, pe_cancel = None\<rparr>] \<and>
      concat gs = patch_edits pf c0 ps \<and> (\<forall>g\<in>set gs. g \<noteq> [] \<and> length g \<le> 100) \<and>
      (\<forall>v. fold receive_part (map (build_part poke_id) gs) v =
         fold receive_part (map (\<lambda>f. f (empty_part poke_id)) (patch_edits pf c0 ps)) v)
    else pc_sent c2 = [] \<and> filter (\<lambda>p. should_include_patch (pv_to_version p) (ch_base_version h)) ps = [] \<and>
      cmp_versions (ch_base_version h) (Some final) = 0"
proof -
  have c0: "version_to_cookie B show_err tentative = Inr (pc_poke_id c0)" "pc_base_version c0 = ch_base_version h"
    "cycle_inv pf base c0 [] [] [] c0"
    using assms(1) by (auto simp: start_poke_def cycle_inv_def patch_edits_def split: if_splits sum.splits)
  obtain gs g where inv: "cycle_inv pf base c0 ps gs g c1"
    using add_patches_inv [OF c0(3) _ assms(2)] assms(4,5) c0(2) by auto
  define gs' where "gs' = gs @ (if g = [] then [] else [g])"
  have gs': "concat gs' = patch_edits pf c0 ps" "\<forall>g\<in>set gs'. g \<noteq> [] \<and> length g \<le> 100"
    using inv by (auto simp: gs'_def cycle_inv_def group_ok_def)
  have r: "fold receive_part (map (build_part i) gs') v = fold receive_part (map (\<lambda>f. f (empty_part i)) (patch_edits pf c0 ps)) v" for i v
    using receive_groups [of gs' i v] patch_edits_cuttable [of pf c0 ps] gs'(1) by simp
  have none: "patch_edits pf c0 ps = []" if "\<not> pc_started c1" using inv that by (simp add: cycle_inv_def patch_edits_def)
  have base: "version_to_nullable_cookie B show_err (pc_base_version c1) = Inr base" "pc_poke_id c1 = pc_poke_id c0"
    using inv assms(4) c0(2) by (auto simp: cycle_inv_def)
  show ?thesis
  proof (cases sent)
    case True
    then have e: "end_poke B show_err final force c1 = Some (c2, Inr True)" using assms(3) by simp
    obtain cookie where k: "version_to_cookie B show_err final = Inr cookie" "pc_sent c2 =
        (if pc_started c1 then pc_sent c1
         else pc_sent c1 @ [PokeStart \<lparr>ps_poke_id = pc_poke_id c1, ps_base_cookie = base, ps_schema_versions = None, ps_timestamp = None\<rparr>]) @
        (case pc_body c1 of None \<Rightarrow> [] | Some b \<Rightarrow> [PokePart b]) @
        [PokeEnd \<lparr>pe_poke_id = pc_poke_id c1, pe_cookie = cookie, pe_cancel = None\<rparr>]"
      using end_poke_sent [OF _ base(1)] e by blast
    have "gs' = []" if "\<not> pc_started c1" using none [OF that] gs' by (cases gs') auto
    then have "pc_sent c2 = PokeStart \<lparr>ps_poke_id = pc_poke_id c0, ps_base_cookie = base, ps_schema_versions = None, ps_timestamp = None\<rparr> #
        map (\<lambda>g. PokePart (build_part (pc_poke_id c0) g)) gs' @ [PokeEnd \<lparr>pe_poke_id = pc_poke_id c0, pe_cookie = cookie, pe_cancel = None\<rparr>]"
      using k(2) inv by (cases "pc_started c1"; cases "g = []") (simp_all add: cycle_inv_def gs'_def)
    then show ?thesis using True c0(1) k(1) gs' r by auto
  next
    case False
    then show ?thesis using end_poke_silent [of B show_err final force c1 c2] assms(3) inv c0(2) by (simp add: cycle_inv_def)
  qed
qed


definition sample_handler :: client_handler where
  "sample_handler = client_handler_new ''w'' ''g'' ''zero.clients'' ''zero.mutations'' None"

definition sample_version :: cvr_version where
  "sample_version = \<lparr>state_ver = ''01'', config_ver = None\<rparr>"

definition sample_patches :: "patch_to_version list" where
  "sample_patches =
     [\<lparr>pv_patch = PConfig \<lparr>qp_op = PutOp, qp_id = ''q'', qp_client_id = Some ''c''\<rparr>, pv_to_version = sample_version\<rparr>,
      \<lparr>pv_patch = PRow (RowPut \<lparr>rid_schema = ''public'', rid_table = ''issue'', rid_row_key = [(''id'', JString ''a'')]\<rparr> [(''id'', JString ''a'')]),
       pv_to_version = sample_version\<rparr>]"

definition sample_cycle :: poke_cycle where
  "sample_cycle = the (the (start_poke std_text (\<lambda>_. '''') sample_handler sample_version))"

definition sample_filled :: poke_cycle where
  "sample_filled = fst (add_patches std_text (\<lambda>_. '''') (\<lambda>_. None) sample_patches sample_cycle)"

definition sample_ended :: poke_cycle where
  "sample_ended = fst (the (end_poke std_text (\<lambda>_. '''') sample_version False sample_filled))"

theorem poke_cycle_messages_witness:
  "\<exists>ms. pc_sent sample_ended = ms @ [PokeEnd \<lparr>pe_poke_id = ''01'', pe_cookie = ''01'', pe_cancel = None\<rparr>]"
proof -
  have "start_poke std_text (\<lambda>_. '''') sample_handler sample_version = Some (Some sample_cycle)" by code_simp
  moreover have "add_patches std_text (\<lambda>_. '''') (\<lambda>_. None) sample_patches sample_cycle = (sample_filled, Inr ())" by code_simp
  moreover have "end_poke std_text (\<lambda>_. '''') sample_version False sample_filled = Some (sample_ended, Inr True)" by code_simp
  moreover have "version_to_nullable_cookie std_text (\<lambda>_. '''') (ch_base_version sample_handler) = Inr None" by code_simp
  moreover have "int (length sample_patches) < 2 ^ 32" by (simp add: sample_patches_def)
  moreover have "version_to_cookie std_text (\<lambda>_. '''') sample_version = Inr ''01''" by code_simp
  ultimately show ?thesis
    using poke_cycle_messages [of std_text "\<lambda>_. ''''" sample_handler sample_version sample_cycle "\<lambda>_. None" sample_patches sample_filled
        sample_version False sample_ended True None] by auto
qed

text \<open>
  \<open>build_poke\<close> takes the greatest cookie, not the greatest version: with a minor state version among
  the patches, the poke ends at a version below one of its patches.
\<close>

theorem build_poke_minor:
  "\<exists>p q m. build_poke std_text e ''p'' None [p, q] None = Inr (Some m) \<and> pe_cookie (pm_end m) = ''01:01'' \<and>
    cmp_versions (Some (pv_to_version p)) (Some (pv_to_version q)) < 0 \<and> version_to_cookie std_text e (pv_to_version q) = Inr ''01.02''"
proof -
  let ?v = "\<lparr>state_ver = ''01'', config_ver = Some 1\<rparr>" and ?w = "\<lparr>state_ver = ''01.02'', config_ver = None\<rparr>"
  let ?c = "PConfig \<lparr>qp_op = PutOp, qp_id = ''q'', qp_client_id = None\<rparr>"
  have v: "version_to_cookie std_text e ?v = Inr ''01:01''"
    using std.to_cookie [of ?v e] by (simp add: config_or_0_def cookie_of_def) code_simp
  have w: "version_to_cookie std_text e ?w = Inr ''01.02''" "cmp_versions (Some ?v) (Some ?w) < 0" "\<not> ''01:01'' \<le> ''01.02''" by code_simp+
  have "\<exists>m. build_poke std_text e ''p'' None [\<lparr>pv_patch = ?c, pv_to_version = ?v\<rparr>, \<lparr>pv_patch = ?c, pv_to_version = ?w\<rparr>] None =
      Inr (Some m) \<and> pe_cookie (pm_end m) = ''01:01''"
    using v w(1,3) by (simp add: build_poke_def build_poke_impl_def cookie_or_default_def version_to_nullable_cookie_def)
  then show ?thesis using w(1,2) by force
qed


text \<open>
  C28. A poke built to a target version: its id and its cookie are the target's, its start carries the
  client's base cookie, and its part carries every patch in order, a query patch for the client it
  names or in the got list, and a row patch without the replica's version column.
\<close>

theorem build_poke_to_target_routes:
  assumes "build_poke_to_target B show_err base target patches timestamp force = Inr (Some m)"
  shows "version_to_cookie B show_err target = Inr (pe_cookie (pm_end m)) \<and> pe_poke_id (pm_end m) = pe_cookie (pm_end m) \<and>
    pp_poke_id (pm_part m) = pe_cookie (pm_end m) \<and> ps_poke_id (pm_start m) = pe_cookie (pm_end m) \<and>
    version_to_nullable_cookie B show_err base = Inr (ps_base_cookie (pm_start m)) \<and>
    (\<forall>c. list_or_empty (map_of (list_or_empty (desired_queries_patches (pm_part m))) c) = queries_for (Some c) patches) \<and>
    list_or_empty (got_queries_patch (pm_part m)) = queries_for None patches \<and>
    list_or_empty (rows_patch (pm_part m)) = concat (map (wire_row \<circ> pv_patch) patches)"
proof -
  obtain qs got rows where f: "fold (accumulate_patch \<circ> pv_patch) patches ([], [], []) = (qs, got, rows)"
    by (cases "fold (accumulate_patch \<circ> pv_patch) patches ([], [], [])")
  from accumulate_patches [OF f] have "\<forall>c. list_or_empty (map_of qs c) = queries_for (Some c) patches" "got = queries_for None patches"
    "rows = concat (map (wire_row \<circ> pv_patch) patches)" by simp_all
  with assms f show ?thesis
    by (auto simp: build_poke_to_target_def build_poke_impl_def split: if_splits sum.splits)
qed

theorem build_poke_to_target_routes_witness:
  "\<exists>m. build_poke_to_target std_text (\<lambda>_. '''') None sample_version sample_patches None False = Inr (Some m) \<and>
    pe_cookie (pm_end m) = ''01'' \<and> queries_for (Some ''c'') sample_patches = [QueriesPut ''q'' None] \<and>
    list_or_empty (map_of (list_or_empty (desired_queries_patches (pm_part m))) ''c'') = [QueriesPut ''q'' None]"
proof -
  have "\<exists>m. build_poke_to_target std_text (\<lambda>_. '''') None sample_version sample_patches None False = Inr (Some m)"
    by (simp add: build_poke_to_target_def build_poke_impl_def sample_patches_def sample_version_def version_to_cookie_def
        version_to_nullable_cookie_def split: prod.splits)
  moreover have "queries_for (Some ''c'') sample_patches = [QueriesPut ''q'' None]" "version_to_cookie std_text (\<lambda>_. '''') sample_version = Inr ''01''"
    by code_simp+
  ultimately show ?thesis using build_poke_to_target_routes by fastforce
qed

end
