(* ===== verification/Protocol_Error.thy ===== *)
theory Protocol_Error
  imports Json_Text
begin

text \<open>
  Protocol errors (\<open>zero-cache-protocol/src\<close>: \<open>error.rs\<close>, \<open>error_kind.rs\<close>, \<open>error_origin.rs\<close>,
  \<open>error_reason.rs\<close>, \<open>mutation_id.rs\<close>) and their log levels
  (\<open>zero-cache-types/src/error_with_level.rs\<close>). The frame that tells a client of a failed push is
  assembled by hand in the code; it is shown to be the JSON text of the object it stands for.
\<close>

section \<open>Kinds, origins and reasons\<close>

datatype error_kind =
    EkAuthInvalidated | EkClientNotFound | EkInvalidConnectionRequest
  | EkInvalidConnectionRequestBaseCookie | EkInvalidConnectionRequestLastMutationID
  | EkInvalidConnectionRequestClientDeleted | EkInvalidMessage | EkInvalidPush | EkPushFailed
  | EkMutationFailed | EkMutationRateLimited | EkRebalance | EkRehome | EkTransformFailed
  | EkUnauthorized | EkVersionNotSupported | EkSchemaVersionNotSupported | EkServerOverloaded
  | EkInternal

fun error_kind_str :: "error_kind \<Rightarrow> string" where
  "error_kind_str EkAuthInvalidated = ''AuthInvalidated''"
| "error_kind_str EkClientNotFound = ''ClientNotFound''"
| "error_kind_str EkInvalidConnectionRequest = ''InvalidConnectionRequest''"
| "error_kind_str EkInvalidConnectionRequestBaseCookie = ''InvalidConnectionRequestBaseCookie''"
| "error_kind_str EkInvalidConnectionRequestLastMutationID = ''InvalidConnectionRequestLastMutationID''"
| "error_kind_str EkInvalidConnectionRequestClientDeleted = ''InvalidConnectionRequestClientDeleted''"
| "error_kind_str EkInvalidMessage = ''InvalidMessage''"
| "error_kind_str EkInvalidPush = ''InvalidPush''"
| "error_kind_str EkPushFailed = ''PushFailed''"
| "error_kind_str EkMutationFailed = ''MutationFailed''"
| "error_kind_str EkMutationRateLimited = ''MutationRateLimited''"
| "error_kind_str EkRebalance = ''Rebalance''"
| "error_kind_str EkRehome = ''Rehome''"
| "error_kind_str EkTransformFailed = ''TransformFailed''"
| "error_kind_str EkUnauthorized = ''Unauthorized''"
| "error_kind_str EkVersionNotSupported = ''VersionNotSupported''"
| "error_kind_str EkSchemaVersionNotSupported = ''SchemaVersionNotSupported''"
| "error_kind_str EkServerOverloaded = ''ServerOverloaded''"
| "error_kind_str EkInternal = ''Internal''"

datatype error_origin = OriginClient | OriginServer | OriginZeroCache

fun error_origin_str :: "error_origin \<Rightarrow> string" where
  "error_origin_str OriginClient = ''client''"
| "error_origin_str OriginServer = ''server''"
| "error_origin_str OriginZeroCache = ''zeroCache''"

datatype error_reason =
    ErDatabase | ErParse | ErOutOfOrderMutation | ErUnsupportedPushVersion | ErInternal | ErHttp | ErTimeout

fun error_reason_str :: "error_reason \<Rightarrow> string" where
  "error_reason_str ErDatabase = ''database''"
| "error_reason_str ErParse = ''parse''"
| "error_reason_str ErOutOfOrderMutation = ''oooMutation''"
| "error_reason_str ErUnsupportedPushVersion = ''unsupportedPushVersion''"
| "error_reason_str ErInternal = ''internal''"
| "error_reason_str ErHttp = ''http''"
| "error_reason_str ErTimeout = ''timeout''"

definition error_reason_from_str :: "string \<Rightarrow> error_reason option" where
  "error_reason_from_str s =
     (if s = ''database'' then Some ErDatabase
      else if s = ''parse'' then Some ErParse
      else if s = ''oooMutation'' then Some ErOutOfOrderMutation
      else if s = ''unsupportedPushVersion'' then Some ErUnsupportedPushVersion
      else if s = ''internal'' then Some ErInternal
      else if s = ''http'' then Some ErHttp
      else if s = ''timeout'' then Some ErTimeout
      else None)"

lemma error_reason_roundtrip: "error_reason_from_str (error_reason_str r) = Some r"
  by (cases r) (simp_all add: error_reason_from_str_def)

lemma error_reason_from_str_Some: "error_reason_from_str s = Some r \<Longrightarrow> s = error_reason_str r"
  by (auto simp: error_reason_from_str_def split: if_splits)

section \<open>Error bodies\<close>

record error_body =
  eb_kind :: error_kind
  eb_message :: string
  eb_origin :: "error_origin option"

definition error_body_new :: "error_kind \<Rightarrow> string \<Rightarrow> error_origin option \<Rightarrow> error_body" where
  "error_body_new kind message origin = \<lparr>eb_kind = kind, eb_message = message, eb_origin = origin\<rparr>"

datatype failed_reason =
    ServerReason error_reason
  | ZeroCacheHttp f64 "string option"
  | ZeroCacheOther error_reason

fun failed_origin :: "failed_reason \<Rightarrow> error_origin" where
  "failed_origin (ServerReason _) = OriginServer"
| "failed_origin (ZeroCacheHttp _ _) = OriginZeroCache"
| "failed_origin (ZeroCacheOther _) = OriginZeroCache"

record transform_failed_body =
  tf_reason :: failed_reason
  tf_query_ids :: "string list"
  tf_message :: string
  tf_details :: "json option"

record push_mutation_id =
  mid_id :: f64
  mid_client_id :: string

record push_failed_body =
  pf_reason :: failed_reason
  pf_mutation_ids :: "push_mutation_id list"
  pf_message :: string
  pf_details :: "json option"

definition push_failed_kind :: "push_failed_body \<Rightarrow> error_kind" where
  "push_failed_kind body = EkPushFailed"

definition push_failed_origin :: "push_failed_body \<Rightarrow> error_origin" where
  "push_failed_origin body = failed_origin (pf_reason body)"

text \<open>Rust's \<open>Display\<close> of a double; its digits for a fraction are the parameter \<open>fmt\<close>.\<close>

definition f64_display :: "(rat \<Rightarrow> string) \<Rightarrow> f64 \<Rightarrow> string" where
  "f64_display fmt x =
     (case x of
        F_NaN \<Rightarrow> ''NaN''
      | F_PosInf \<Rightarrow> ''inf''
      | F_NegInf \<Rightarrow> ''-inf''
      | F_Fin q \<Rightarrow> if of_int \<lfloor>q\<rfloor> = q then int_to_string \<lfloor>q\<rfloor> else fmt q)"

definition mutation_id_text :: "(rat \<Rightarrow> string) \<Rightarrow> push_mutation_id \<Rightarrow> string" where
  "mutation_id_text fmt m =
     ''{'' @ [CHR 0x22] @ ''id'' @ [CHR 0x22] @ '':'' @ f64_display fmt (mid_id m) @ '','' @
     [CHR 0x22] @ ''clientID'' @ [CHR 0x22] @ '':'' @ write_json_string (mid_client_id m) @ ''}''"

fun join :: "string \<Rightarrow> string list \<Rightarrow> string" where
  "join sep [] = ''''"
| "join sep [s] = s"
| "join sep (s # t # ss) = s @ sep @ join sep (t # ss)"

definition quoted :: "string \<Rightarrow> string" where
  "quoted s = [CHR 0x22] @ s @ [CHR 0x22]"

definition reason_and_extra :: "(rat \<Rightarrow> string) \<Rightarrow> failed_reason \<Rightarrow> string \<times> string" where
  "reason_and_extra fmt r =
     (case r of
        ServerReason e \<Rightarrow> (error_reason_str e, '''')
      | ZeroCacheOther e \<Rightarrow> (error_reason_str e, '''')
      | ZeroCacheHttp status body_preview \<Rightarrow>
          (error_reason_str ErHttp,
           '','' @ quoted ''status'' @ '':'' @ f64_display fmt status @
           (case body_preview of
              None \<Rightarrow> ''''
            | Some p \<Rightarrow> '','' @ quoted ''bodyPreview'' @ '':'' @ write_json_string p)))"

definition to_error_frame_json :: "(rat \<Rightarrow> string) \<Rightarrow> push_failed_body \<Rightarrow> string" where
  "to_error_frame_json fmt body =
     (let mutation_ids = join '','' (map (mutation_id_text fmt) (pf_mutation_ids body));
          (reason, extra) = reason_and_extra fmt (pf_reason body);
          details = (case pf_details body of
              None \<Rightarrow> ''''
            | Some d \<Rightarrow> '','' @ quoted ''details'' @ '':'' @ stringify fmt d)
      in ''['' @ quoted ''error'' @ '',{'' @
         quoted ''kind'' @ '':'' @ quoted (error_kind_str (push_failed_kind body)) @ '','' @
         quoted ''origin'' @ '':'' @ quoted (error_origin_str (push_failed_origin body)) @ '','' @
         quoted ''reason'' @ '':'' @ quoted reason @ '','' @
         quoted ''message'' @ '':'' @ write_json_string (pf_message body) @
         extra @ details @ '','' @ quoted ''mutationIDs'' @ '':['' @ mutation_ids @ '']}]'')"

definition is_backoff_kind :: "error_kind \<Rightarrow> bool" where
  "is_backoff_kind kind \<longleftrightarrow> kind = EkRebalance \<or> kind = EkRehome \<or> kind = EkServerOverloaded"

section \<open>Log levels\<close>

datatype log_level = LogDebug | LogInfo | LogWarn | LogError

record error_with_level =
  el_body :: error_body
  el_level :: log_level

datatype error_value = EvWithLevel error_with_level | EvProtocol error_body | EvOther string

fun get_log_level :: "error_value \<Rightarrow> log_level" where
  "get_log_level (EvWithLevel e) = el_level e"
| "get_log_level (EvProtocol _) = LogWarn"
| "get_log_level (EvOther _) = LogError"

fun wrap_with_protocol_error :: "error_value \<Rightarrow> error_body" where
  "wrap_with_protocol_error (EvProtocol e) = e"
| "wrap_with_protocol_error (EvWithLevel e) = el_body e"
| "wrap_with_protocol_error (EvOther message) = error_body_new EkInternal message (Some OriginZeroCache)"

section \<open>The error frame is JSON\<close>

definition mutation_id_json :: "push_mutation_id \<Rightarrow> json" where
  "mutation_id_json m = JObject [(''id'', JNumber (mid_id m)), (''clientID'', JString (mid_client_id m))]"

definition error_frame_json :: "push_failed_body \<Rightarrow> json" where
  "error_frame_json body =
     JArray [JString ''error'', JObject (
       [(''kind'', JString ''PushFailed''),
        (''origin'', JString (error_origin_str (failed_origin (pf_reason body)))),
        (''reason'', JString (case pf_reason body of
           ServerReason e \<Rightarrow> error_reason_str e
         | ZeroCacheOther e \<Rightarrow> error_reason_str e
         | ZeroCacheHttp _ _ \<Rightarrow> ''http'')),
        (''message'', JString (pf_message body))] @
       (case pf_reason body of
          ZeroCacheHttp status preview \<Rightarrow>
            (''status'', JNumber status) #
            (case preview of None \<Rightarrow> [] | Some p \<Rightarrow> [(''bodyPreview'', JString p)])
        | _ \<Rightarrow> []) @
       (case pf_details body of None \<Rightarrow> [] | Some d \<Rightarrow> [(''details'', d)]) @
       [(''mutationIDs'', JArray (map mutation_id_json (pf_mutation_ids body)))])]"

text \<open>Mutation ids and HTTP status codes are integers.\<close>

definition whole :: "f64 \<Rightarrow> bool" where
  "whole x \<longleftrightarrow> (case x of F_Fin q \<Rightarrow> of_int \<lfloor>q\<rfloor> = q \<and> \<bar>q\<bar> < 10 ^ 21 | _ \<Rightarrow> False)"

fun reason_whole :: "failed_reason \<Rightarrow> bool" where
  "reason_whole (ZeroCacheHttp status _) \<longleftrightarrow> whole status"
| "reason_whole _ \<longleftrightarrow> True"

lemma int_to_string_0: "int_to_string 0 = ''0''"
  by code_simp

lemma display_whole: "whole x \<Longrightarrow> f64_display fmt x = json_write fmt (JNumber x)"
  by (auto simp: whole_def f64_display_def format_number_def int_to_string_0 split: f64.splits)

lemma write_plain: "list_all (\<lambda>c. escape_char c = [c]) s \<Longrightarrow> write_json_string s = quoted s"
  by (induction s) (auto simp: write_json_string_def quoted_def)

lemma plain_keys [simp]:
  "write_json_string ''error'' = quoted ''error''" "write_json_string ''kind'' = quoted ''kind''"
  "write_json_string ''origin'' = quoted ''origin''" "write_json_string ''reason'' = quoted ''reason''"
  "write_json_string ''message'' = quoted ''message''" "write_json_string ''status'' = quoted ''status''"
  "write_json_string ''bodyPreview'' = quoted ''bodyPreview''" "write_json_string ''details'' = quoted ''details''"
  "write_json_string ''mutationIDs'' = quoted ''mutationIDs''" "write_json_string ''PushFailed'' = quoted ''PushFailed''"
  "write_json_string ''http'' = quoted ''http''" "write_json_string ''id'' = quoted ''id''"
  "write_json_string ''clientID'' = quoted ''clientID''" "write_json_string ''server'' = quoted ''server''"
  "write_json_string ''zeroCache'' = quoted ''zeroCache''"
  by (rule write_plain, code_simp)+

lemma plain_reason [simp]: "write_json_string (error_reason_str r) = quoted (error_reason_str r)"
proof -
  have "list_all (\<lambda>r. list_all (\<lambda>c. escape_char c = [c]) (error_reason_str r))
      [ErDatabase, ErParse, ErOutOfOrderMutation, ErUnsupportedPushVersion, ErInternal, ErHttp, ErTimeout]"
    by code_simp
  then have "list_all (\<lambda>c. escape_char c = [c]) (error_reason_str r)"
    by (cases r) (simp_all only: list.pred_inject)
  then show ?thesis by (rule write_plain)
qed

lemma write_entries_append:
  "json_write_entries fmt False (xs @ ys) = json_write_entries fmt False xs @ json_write_entries fmt False ys"
  by (induction xs) auto

lemma join_items:
  "join '','' (map (json_write fmt) vs) = json_write_items fmt True vs"
proof -
  have "json_write_items fmt False (w # ws) = '','' @ join '','' (map (json_write fmt) (w # ws))" for w ws
    by (induction ws arbitrary: w) auto
  then show ?thesis
    by (cases vs; cases "tl vs") auto
qed

lemma mutation_id_text_json:
  "whole (mid_id m) \<Longrightarrow> mutation_id_text fmt m = json_write fmt (mutation_id_json m)"
  by (simp add: mutation_id_text_def mutation_id_json_def display_whole quoted_def)

text \<open>
  The frame sent to a client when a push fails is the JSON text of the error object:
  every message, body preview, client id and detail is escaped, so no content of a mutation can
  break out of its field.
\<close>

theorem error_frame_is_json:
  assumes "list_all (\<lambda>m. whole (mid_id m)) (pf_mutation_ids body)" "reason_whole (pf_reason body)"
  shows "to_error_frame_json fmt body = stringify fmt (error_frame_json body)"
proof -
  have "map (mutation_id_text fmt) (pf_mutation_ids body) =
      map (json_write fmt) (map mutation_id_json (pf_mutation_ids body))"
    using assms(1) by (auto simp: mutation_id_text_json list_all_iff)
  then have ids: "join '','' (map (mutation_id_text fmt) (pf_mutation_ids body)) =
      json_write_items fmt True (map mutation_id_json (pf_mutation_ids body))"
    by (simp only: join_items)
  show ?thesis
    using assms(2)
    by (cases "pf_reason body"; cases "pf_details body")
      (auto simp: to_error_frame_json_def error_frame_json_def stringify_def ids write_entries_append
        reason_and_extra_def push_failed_kind_def push_failed_origin_def Let_def display_whole
        split: option.splits)
qed

definition sample_failure :: push_failed_body where
  "sample_failure = \<lparr>pf_reason = ZeroCacheHttp (F_Fin 500) (Some ''a''),
     pf_mutation_ids = [\<lparr>mid_id = F_Fin 3, mid_client_id = [CHR 0x22]\<rparr>], pf_message = ''m'', pf_details = None\<rparr>"

theorem error_frame_is_json_witness:
  "to_error_frame_json (\<lambda>_. ''0'') sample_failure = stringify (\<lambda>_. ''0'') (error_frame_json sample_failure)"
  by (rule error_frame_is_json) (simp_all add: sample_failure_def whole_def)

end
