(* ===== verification/Ast_Json.thy ===== *)
theory Ast_Json
  imports Ast Result_Monad
begin

text \<open>
  The JSON form of a query (\<open>zero-cache-protocol/src/ast_json.rs\<close>): the encoder, the decoder with
  its errors, and the round trip between them. An error carries the value or name its message shows.
\<close>

section \<open>Encoder\<close>

fun literal_value_to_json :: "literal_value \<Rightarrow> json" where
  "literal_value_to_json (LitString s) = JString s"
| "literal_value_to_json (LitNumber n) = JNumber n"
| "literal_value_to_json (LitBool b) = JBool b"
| "literal_value_to_json LitNull = JNull"
| "literal_value_to_json (LitArray items) = JArray (map literal_value_to_json items)"

fun value_position_to_json :: "value_position \<Rightarrow> json" where
  "value_position_to_json (VLiteral lit) =
     JObject [(''type'', JString ''literal''), (''value'', literal_value_to_json lit)]"
| "value_position_to_json (VColumn c) = JObject [(''type'', JString ''column''), (''name'', JString c)]"
| "value_position_to_json (VParameter raw) = raw"

fun system_to_str :: "system \<Rightarrow> string" where
  "system_to_str SysPermissions = ''permissions''"
| "system_to_str SysClient = ''client''"
| "system_to_str SysTest = ''test''"

text \<open>A field that is left out when its value is absent.\<close>

definition opt_field :: "string \<Rightarrow> ('a \<Rightarrow> json) \<Rightarrow> 'a option \<Rightarrow> (string \<times> json) list" where
  "opt_field key f x = (case x of None \<Rightarrow> [] | Some v \<Rightarrow> [(key, f v)])"

lemma opt_field_cong [fundef_cong]:
  "x = y \<Longrightarrow> (\<And>v. y = Some v \<Longrightarrow> f v = g v) \<Longrightarrow> opt_field k f x = opt_field k g y"
  by (simp add: opt_field_def split: option.splits)

definition bound_to_json :: "ast_bound \<Rightarrow> json" where
  "bound_to_json b = JObject [(''row'', ab_row b), (''exclusive'', JBool (ab_exclusive b))]"

definition ordering_to_json :: "sort_order \<Rightarrow> json" where
  "ordering_to_json ord = JArray (map (\<lambda>(field, dir). JArray [JString field, JString (direction_as_str dir)]) ord)"

definition correlation_to_json :: "correlation \<Rightarrow> json" where
  "correlation_to_json c =
     JObject [(''parentField'', JArray (map JString (parent_field c))),
              (''childField'', JArray (map JString (child_field c)))]"

lemma member_size_le: "x \<in> set xs \<Longrightarrow> size x \<le> size_list size xs"
  by (erule size_list_estimation' [OF _ order_refl])

function (sequential) condition_to_json :: "condition \<Rightarrow> json"
  and correlated_subquery_to_json :: "correlated_subquery \<Rightarrow> json"
  and ast_to_json :: "ast \<Rightarrow> json" where
  "condition_to_json (Simple oper l r) =
     JObject [(''type'', JString ''simple''), (''op'', JString (op_as_str oper)),
              (''left'', value_position_to_json l), (''right'', value_position_to_json r)]"
| "condition_to_json (And cs) =
     JObject [(''type'', JString ''and''), (''conditions'', JArray (map (\<lambda>c. condition_to_json c) cs))]"
| "condition_to_json (Or cs) =
     JObject [(''type'', JString ''or''), (''conditions'', JArray (map (\<lambda>c. condition_to_json c) cs))]"
| "condition_to_json (Correlated rel oper flp scl pid) =
     JObject ([(''type'', JString ''correlatedSubquery''), (''related'', correlated_subquery_to_json rel),
               (''op'', JString (exists_as_str oper))] @
              opt_field ''flip'' JBool flp @ opt_field ''scalar'' JBool scl)"
| "correlated_subquery_to_json (Subquery corr q sys hid) =
     JObject ([(''correlation'', correlation_to_json corr)] @ opt_field ''hidden'' JBool hid @
              [(''subquery'', ast_to_json q)] @ opt_field ''system'' (\<lambda>s. JString (system_to_str s)) sys)"
| "ast_to_json (Ast schema table al w rels st lmt ord) =
     JObject (opt_field ''schema'' JString schema @ [(''table'', JString table)] @ opt_field ''alias'' JString al @
              opt_field ''where'' (\<lambda>c. condition_to_json c) w @
              opt_field ''related'' (\<lambda>rs. JArray (map (\<lambda>r. correlated_subquery_to_json r) rs)) rels @
              opt_field ''start'' bound_to_json st @ opt_field ''limit'' JNumber lmt @
              opt_field ''orderBy'' ordering_to_json ord)"
  by pat_completeness auto
termination
  by (relation "measure (\<lambda>x. case x of Inl c \<Rightarrow> size c | Inr (Inl r) \<Rightarrow> size r | Inr (Inr q) \<Rightarrow> size q)")
    (auto simp: less_Suc_eq_le dest!: member_size_le)

section \<open>Decoder\<close>

datatype ast_json_error =
    ExpectedObject json
  | ExpectedString json
  | ExpectedBool json
  | ExpectedNumber json
  | ExpectedArray json
  | MissingField string
  | EmptyCompoundKey
  | UnknownSystem string
  | InvalidLiteralValue json
  | UnknownPositionType string
  | UnknownExistsOp json
  | UnknownSimpleOperator string
  | UnknownConditionType string
  | BadOrderingElement
  | UnknownDirection json

definition as_object :: "json \<Rightarrow> ast_json_error + (string \<times> json) list" where
  "as_object v = (case v of JObject entries \<Rightarrow> Inr entries | _ \<Rightarrow> Inl (ExpectedObject v))"

definition field :: "(string \<times> json) list \<Rightarrow> string \<Rightarrow> json option" where
  "field obj key = map_option snd (find (\<lambda>(k, _). k = key) obj)"

definition required :: "(string \<times> json) list \<Rightarrow> string \<Rightarrow> ast_json_error + json" where
  "required obj key = (case field obj key of None \<Rightarrow> Inl (MissingField key) | Some v \<Rightarrow> Inr v)"

definition as_str :: "json \<Rightarrow> ast_json_error + string" where
  "as_str v = (case v of JString s \<Rightarrow> Inr s | _ \<Rightarrow> Inl (ExpectedString v))"

definition as_bool :: "json \<Rightarrow> ast_json_error + bool" where
  "as_bool v = (case v of JBool b \<Rightarrow> Inr b | _ \<Rightarrow> Inl (ExpectedBool v))"

definition as_f64 :: "json \<Rightarrow> ast_json_error + f64" where
  "as_f64 v = (case v of JNumber n \<Rightarrow> Inr n | _ \<Rightarrow> Inl (ExpectedNumber v))"

definition as_array :: "json \<Rightarrow> ast_json_error + json list" where
  "as_array v = (case v of JArray items \<Rightarrow> Inr items | _ \<Rightarrow> Inl (ExpectedArray v))"

definition string_at :: "(string \<times> json) list \<Rightarrow> string \<Rightarrow> ast_json_error + string option" where
  "string_at obj key = transpose_res (map_option as_str (field obj key))"

definition bool_at :: "(string \<times> json) list \<Rightarrow> string \<Rightarrow> ast_json_error + bool option" where
  "bool_at obj key = transpose_res (map_option as_bool (field obj key))"

definition compound_key_from_json :: "json \<Rightarrow> ast_json_error + string list" where
  "compound_key_from_json v =
     and_then (as_array v) (\<lambda>items. if items = [] then Inl EmptyCompoundKey else map_res as_str items)"

definition system_from_json :: "json \<Rightarrow> ast_json_error + system" where
  "system_from_json v =
     and_then (as_str v) (\<lambda>s.
       if s = ''permissions'' then Inr SysPermissions
       else if s = ''client'' then Inr SysClient
       else if s = ''test'' then Inr SysTest
       else Inl (UnknownSystem s))"

fun literal_value_from_json :: "json \<Rightarrow> ast_json_error + literal_value" where
  "literal_value_from_json JNull = Inr LitNull"
| "literal_value_from_json (JBool b) = Inr (LitBool b)"
| "literal_value_from_json (JNumber n) = Inr (LitNumber n)"
| "literal_value_from_json (JString s) = Inr (LitString s)"
| "literal_value_from_json (JArray items) =
     and_then (map_res literal_value_from_json items) (\<lambda>vs. Inr (LitArray vs))"
| "literal_value_from_json v = Inl (InvalidLiteralValue v)"

definition value_position_from_json :: "json \<Rightarrow> ast_json_error + value_position" where
  "value_position_from_json v =
     and_then (as_object v) (\<lambda>obj. and_then (and_then (required obj ''type'') as_str) (\<lambda>ty.
       if ty = ''literal'' then
         and_then (and_then (required obj ''value'') literal_value_from_json) (\<lambda>l. Inr (VLiteral l))
       else if ty = ''column'' then and_then (and_then (required obj ''name'') as_str) (\<lambda>n. Inr (VColumn n))
       else if ty = ''static'' then Inr (VParameter v)
       else Inl (UnknownPositionType ty)))"

definition exists_op_from_json :: "json \<Rightarrow> ast_json_error + exists_op" where
  "exists_op_from_json v =
     and_then (as_str v) (\<lambda>s. case exists_from_str s of None \<Rightarrow> Inl (UnknownExistsOp v) | Some e \<Rightarrow> Inr e)"

definition simple_op_from_json :: "json \<Rightarrow> ast_json_error + simple_operator" where
  "simple_op_from_json v =
     and_then (as_str v) (\<lambda>s. case op_from_str s of None \<Rightarrow> Inl (UnknownSimpleOperator s) | Some e \<Rightarrow> Inr e)"

definition bound_from_json :: "json \<Rightarrow> ast_json_error + ast_bound" where
  "bound_from_json v =
     and_then (as_object v) (\<lambda>obj. and_then (required obj ''row'') (\<lambda>r.
       and_then (and_then (required obj ''exclusive'') as_bool) (\<lambda>e. Inr \<lparr>ab_row = r, ab_exclusive = e\<rparr>)))"

definition ordering_element_from_json :: "json \<Rightarrow> ast_json_error + string \<times> direction" where
  "ordering_element_from_json v =
     and_then (as_array v) (\<lambda>pair.
       case pair of
         [f, d] \<Rightarrow> and_then (as_str f) (\<lambda>name. and_then (as_str d) (\<lambda>s.
           case direction_from_str s of None \<Rightarrow> Inl (UnknownDirection d) | Some dir \<Rightarrow> Inr (name, dir)))
       | _ \<Rightarrow> Inl BadOrderingElement)"

definition ordering_from_json :: "json \<Rightarrow> ast_json_error + sort_order" where
  "ordering_from_json v = and_then (as_array v) (map_res ordering_element_from_json)"


lemma opt_map_cong [fundef_cong]:
  "x = y \<Longrightarrow> (\<And>v. y = Some v \<Longrightarrow> f v = g v) \<Longrightarrow> map_option f x = map_option g y"
  by (cases y) auto

lemma as_object_Inr [simp]: "as_object v = Inr obj \<longleftrightarrow> v = JObject obj"
  by (cases v) (auto simp: as_object_def)

lemma as_array_Inr [simp]: "as_array v = Inr items \<longleftrightarrow> v = JArray items"
  by (cases v) (auto simp: as_array_def)

lemma field_mem: "field obj key = Some v \<Longrightarrow> (key, v) \<in> set obj"
  by (auto simp: field_def dest!: find_SomeD)

lemma required_Inr [simp]: "required obj key = Inr v \<longleftrightarrow> field obj key = Some v"
  by (simp add: required_def split: option.splits)

lemma field_size: "field obj key = Some v \<Longrightarrow> size v < size (JObject obj)"
  using size_list_estimation' [OF field_mem, of obj key v "size v" "size_prod (\<lambda>x. 0) size"] by simp

lemma item_size: "x \<in> set items \<Longrightarrow> size x < size (JArray items)"
  using size_list_estimation' [of x items "size x" size] by simp

function (sequential) condition_from_json :: "json \<Rightarrow> ast_json_error + condition"
  and correlated_subquery_from_json :: "json \<Rightarrow> ast_json_error + correlated_subquery"
  and ast_from_json :: "json \<Rightarrow> ast_json_error + ast" where
  "condition_from_json v =
     and_then (as_object v) (\<lambda>obj. and_then (and_then (required obj ''type'') as_str) (\<lambda>ty.
       if ty = ''simple'' then
         and_then (and_then (required obj ''op'') simple_op_from_json) (\<lambda>oper.
         and_then (and_then (required obj ''left'') value_position_from_json) (\<lambda>l.
         and_then (and_then (required obj ''right'') value_position_from_json) (\<lambda>r. Inr (Simple oper l r))))
       else if ty = ''and'' then
         and_then (required obj ''conditions'') (\<lambda>w. and_then (as_array w) (\<lambda>items.
         and_then (map_res (\<lambda>c. condition_from_json c) items) (\<lambda>cs. Inr (And cs))))
       else if ty = ''or'' then
         and_then (required obj ''conditions'') (\<lambda>w. and_then (as_array w) (\<lambda>items.
         and_then (map_res (\<lambda>c. condition_from_json c) items) (\<lambda>cs. Inr (Or cs))))
       else if ty = ''correlatedSubquery'' then
         and_then (required obj ''related'') (\<lambda>w. and_then (correlated_subquery_from_json w) (\<lambda>rel.
         and_then (and_then (required obj ''op'') exists_op_from_json) (\<lambda>oper.
         and_then (bool_at obj ''flip'') (\<lambda>flp.
         and_then (bool_at obj ''scalar'') (\<lambda>scl. Inr (Correlated rel oper flp scl None))))))
       else Inl (UnknownConditionType ty)))"
| "correlated_subquery_from_json v =
     and_then (as_object v) (\<lambda>obj.
     and_then (and_then (required obj ''correlation'') as_object) (\<lambda>corr.
     and_then (and_then (required corr ''parentField'') compound_key_from_json) (\<lambda>pf.
     and_then (and_then (required corr ''childField'') compound_key_from_json) (\<lambda>cf.
     and_then (required obj ''subquery'') (\<lambda>w. and_then (ast_from_json w) (\<lambda>q.
     and_then (transpose_res (map_option system_from_json (field obj ''system''))) (\<lambda>sys.
     and_then (bool_at obj ''hidden'') (\<lambda>hid.
       Inr (Subquery \<lparr>parent_field = pf, child_field = cf\<rparr> q sys hid)))))))))"
| "ast_from_json v =
     and_then (as_object v) (\<lambda>obj.
     and_then (string_at obj ''schema'') (\<lambda>schema.
     and_then (and_then (required obj ''table'') as_str) (\<lambda>table.
     and_then (string_at obj ''alias'') (\<lambda>al.
     and_then (transpose_res (map_option (\<lambda>c. condition_from_json c) (field obj ''where''))) (\<lambda>w.
     and_then (transpose_res (map_option (\<lambda>u. and_then (as_array u) (\<lambda>items.
       map_res (\<lambda>r. correlated_subquery_from_json r) items)) (field obj ''related''))) (\<lambda>rels.
     and_then (transpose_res (map_option bound_from_json (field obj ''start''))) (\<lambda>st.
     and_then (transpose_res (map_option as_f64 (field obj ''limit''))) (\<lambda>lmt.
     and_then (transpose_res (map_option ordering_from_json (field obj ''orderBy''))) (\<lambda>ord.
       Inr (Ast schema table al w rels st lmt ord))))))))))"
  by pat_completeness auto
termination
  by (relation "measure (\<lambda>x. case x of Inl c \<Rightarrow> size c | Inr (Inl r) \<Rightarrow> size r | Inr (Inr q) \<Rightarrow> size q)")
    (auto dest!: field_size item_size)

declare condition_from_json.simps [simp del] correlated_subquery_from_json.simps [simp del] ast_from_json.simps [simp del]


section \<open>The round trip\<close>

text \<open>
  The queries the wire format can carry: correlations name at least one column on each side, a
  parameter is the object of a static parameter, and the planner's ids are absent.
\<close>

fun position_json_ok :: "value_position \<Rightarrow> bool" where
  "position_json_ok (VParameter raw) =
     (case raw of JObject obj \<Rightarrow> field obj ''type'' = Some (JString ''static'') | _ \<Rightarrow> False)"
| "position_json_ok _ = True"

fun condition_json_ok :: "condition \<Rightarrow> bool" and csq_json_ok :: "correlated_subquery \<Rightarrow> bool"
  and ast_json_ok :: "ast \<Rightarrow> bool" where
  "condition_json_ok (Simple oper l r) \<longleftrightarrow> position_json_ok l \<and> position_json_ok r"
| "condition_json_ok (And cs) \<longleftrightarrow> list_all condition_json_ok cs"
| "condition_json_ok (Or cs) \<longleftrightarrow> list_all condition_json_ok cs"
| "condition_json_ok (Correlated rel oper flp scl pid) \<longleftrightarrow> csq_json_ok rel \<and> pid = None"
| "csq_json_ok (Subquery corr q sys hid) \<longleftrightarrow> parent_field corr \<noteq> [] \<and> child_field corr \<noteq> [] \<and> ast_json_ok q"
| "ast_json_ok (Ast schema table al w rels st lmt ord) \<longleftrightarrow>
     (case w of None \<Rightarrow> True | Some c \<Rightarrow> condition_json_ok c) \<and>
     (case rels of None \<Rightarrow> True | Some rs \<Rightarrow> list_all csq_json_ok rs)"

lemma field_simps [simp]:
  "field [] key = None"
  "field ((k, v) # obj) key = (if k = key then Some v else field obj key)"
  by (simp_all add: field_def)

lemma field_opt [simp]:
  "field (opt_field k f x @ obj) key = (case x of Some v \<Rightarrow> if k = key then Some (f v) else field obj key | None \<Rightarrow> field obj key)"
  "field (opt_field k f x) key = (case x of Some v \<Rightarrow> if k = key then Some (f v) else None | None \<Rightarrow> None)"
  by (simp_all add: opt_field_def split: option.splits)

lemma required_field: "required obj key = (case field obj key of None \<Rightarrow> Inl (MissingField key) | Some v \<Rightarrow> Inr v)"
  by (simp add: required_def)

lemma as_simps [simp]:
  "as_object (JObject obj) = Inr obj" "as_array (JArray items) = Inr items" "as_str (JString s) = Inr s"
  "as_bool (JBool b) = Inr b" "as_f64 (JNumber n) = Inr n"
  by (simp_all add: as_str_def as_bool_def as_f64_def)

lemma literal_roundtrip [simp]: "literal_value_from_json (literal_value_to_json l) = Inr l"
proof (induction l rule: literal_value_to_json.induct)
  case (5 items)
  then show ?case by (simp add: map_res_map [where h = id, simplified])
qed simp_all

lemma position_roundtrip [simp]: "position_json_ok p \<Longrightarrow> value_position_from_json (value_position_to_json p) = Inr p"
  by (cases p) (auto simp: value_position_from_json_def required_field split: json.splits)

lemma names_roundtrip [simp]:
  "op_from_str (op_as_str oper) = Some oper" "exists_from_str (exists_as_str e) = Some e"
  "direction_from_str (direction_as_str d) = Some d" "system_from_json (JString (system_to_str sys)) = Inr sys"
  "simple_op_from_json (JString (op_as_str oper)) = Inr oper" "exists_op_from_json (JString (exists_as_str e)) = Inr e"
  by (cases oper; cases e; cases d; cases sys;
      simp add: op_from_str_def exists_from_str_def exists_as_str_def direction_from_str_def direction_as_str_def
        system_from_json_def simple_op_from_json_def exists_op_from_json_def)+

lemma bound_roundtrip [simp]: "bound_from_json (bound_to_json b) = Inr b"
  by (simp add: bound_from_json_def bound_to_json_def required_field)

lemma ordering_roundtrip [simp]: "ordering_from_json (ordering_to_json ord) = Inr ord"
  unfolding ordering_from_json_def ordering_to_json_def
  by (simp add: map_res_map [where h = id, simplified] ordering_element_from_json_def split: prod.splits)

lemma key_roundtrip [simp]: "ks \<noteq> [] \<Longrightarrow> compound_key_from_json (JArray (map JString ks)) = Inr ks"
  by (simp add: compound_key_from_json_def map_res_map [where h = id, simplified])

lemma json_roundtrip:
  "condition_json_ok c \<Longrightarrow> condition_from_json (condition_to_json c) = Inr c"
  "csq_json_ok r \<Longrightarrow> correlated_subquery_from_json (correlated_subquery_to_json r) = Inr r"
  "ast_json_ok q \<Longrightarrow> ast_from_json (ast_to_json q) = Inr q"
proof (induction c and r and q rule: condition_to_json_correlated_subquery_to_json_ast_to_json.induct)
  case (2 cs)
  then have "map_res condition_from_json (map condition_to_json cs) = Inr cs"
    by (intro map_res_map [where h = id, simplified]) (auto simp: list_all_iff)
  then show ?case by (simp add: condition_from_json.simps required_field)
next
  case (3 cs)
  then have "map_res condition_from_json (map condition_to_json cs) = Inr cs"
    by (intro map_res_map [where h = id, simplified]) (auto simp: list_all_iff)
  then show ?case by (simp add: condition_from_json.simps required_field)
next
  case (6 schema table al w rels st lmt ord)
  then have "map_res correlated_subquery_from_json (map correlated_subquery_to_json rs) = Inr rs" if "rels = Some rs" for rs
    using that by (intro map_res_map [where h = id, simplified]) (auto simp: list_all_iff)
  with 6 show ?case
    by (simp add: ast_from_json.simps required_field string_at_def split: option.splits)
qed (simp_all add: condition_from_json.simps correlated_subquery_from_json.simps required_field bool_at_def
  correlation_to_json_def split: option.splits)


lemma as_str_Inr [simp]: "as_str v = Inr s \<longleftrightarrow> v = JString s"
  by (cases v) (auto simp: as_str_def)

lemma position_from_json_ok: "value_position_from_json v = Inr p \<Longrightarrow> position_json_ok p"
  by (auto simp: value_position_from_json_def option_mono split: if_splits)

lemma map_res_all: "map_res f xs = Inr ys \<Longrightarrow> (\<And>x y. x \<in> set xs \<Longrightarrow> f x = Inr y \<Longrightarrow> P y) \<Longrightarrow> list_all P ys"
proof (induction xs arbitrary: ys)
  case (Cons x xs)
  then obtain y zs where "f x = Inr y" "map_res f xs = Inr zs" "ys = y # zs" by (auto simp: option_mono)
  moreover have "P y" by (rule Cons.prems(2) [OF _ \<open>f x = Inr y\<close>]) simp
  moreover have "list_all P zs" by (rule Cons.IH [OF \<open>map_res f xs = Inr zs\<close>], rule Cons.prems(2)) simp_all
  ultimately show ?case by simp
qed simp

lemma transpose_res_Inr: "transpose_res m = Inr y \<longleftrightarrow> (case m of None \<Rightarrow> y = None | Some r \<Rightarrow> \<exists>x. r = Inr x \<and> y = Some x)"
  by (auto simp: transpose_res_def split: option.splits sum.splits)

lemma key_from_json_ok: "compound_key_from_json v = Inr ks \<Longrightarrow> ks \<noteq> []"
  by (auto simp: compound_key_from_json_def option_mono neq_Nil_conv split: if_splits)

text \<open>Everything the decoder accepts can be carried by the wire format; by induction on the size of the JSON value.\<close>

definition decodes_ok :: "nat \<Rightarrow> bool" where
  "decodes_ok n \<longleftrightarrow>
     (\<forall>v. size v < n \<longrightarrow>
        (\<forall>c. condition_from_json v = Inr c \<longrightarrow> condition_json_ok c) \<and>
        (\<forall>r. correlated_subquery_from_json v = Inr r \<longrightarrow> csq_json_ok r) \<and>
        (\<forall>q. ast_from_json v = Inr q \<longrightarrow> ast_json_ok q))"

lemma decodes_okD:
  assumes "decodes_ok n" "size v < n"
  shows "condition_from_json v = Inr c \<Longrightarrow> condition_json_ok c"
    "correlated_subquery_from_json v = Inr r \<Longrightarrow> csq_json_ok r" "ast_from_json v = Inr q \<Longrightarrow> ast_json_ok q"
  using assms by (auto simp: decodes_ok_def)

lemma decodes_items:
  assumes "decodes_ok n" "size (JArray xs) < n"
  shows "map_res condition_from_json xs = Inr cs \<Longrightarrow> list_all condition_json_ok cs"
    "map_res correlated_subquery_from_json xs = Inr rs \<Longrightarrow> list_all csq_json_ok rs"
  using assms(2) by (auto elim!: map_res_all intro!: decodes_okD(1,2) [OF assms(1)] dest: item_size)

lemma decodes_ok_step:
  assumes "decodes_ok n" "size v \<le> n"
  shows "(condition_from_json v = Inr c \<longrightarrow> condition_json_ok c) \<and>
    (correlated_subquery_from_json v = Inr r \<longrightarrow> csq_json_ok r) \<and> (ast_from_json v = Inr q \<longrightarrow> ast_json_ok q)"
proof (cases v)
  case (JObject obj)
  have small: "size w < n" if "field obj k = Some w" for k w
    using field_size [OF that] JObject assms(2) by simp
  note rules = small decodes_okD [OF assms(1), rotated] decodes_items [OF assms(1), rotated]
  have "condition_from_json v = Inr c \<Longrightarrow> condition_json_ok c"
    unfolding JObject condition_from_json.simps [of "JObject obj"]
    by (auto simp: option_mono position_from_json_ok split: if_splits) (blast intro: rules)+
  moreover have "correlated_subquery_from_json v = Inr r \<Longrightarrow> csq_json_ok r"
    unfolding JObject correlated_subquery_from_json.simps [of "JObject obj"]
    by (auto simp: option_mono key_from_json_ok) (blast intro: rules)
  moreover have "ast_from_json v = Inr q \<Longrightarrow> ast_json_ok q"
    unfolding JObject ast_from_json.simps [of "JObject obj"]
    by (auto simp: option_mono transpose_res_Inr split: option.splits) (blast intro: rules)+
  ultimately show ?thesis by blast
qed (subst condition_from_json.simps, subst correlated_subquery_from_json.simps, subst ast_from_json.simps, simp add: as_object_def)+

lemma decodes_ok_all: "decodes_ok n"
proof (induction n)
  case (Suc n)
  then show ?case using decodes_ok_step [OF Suc] by (simp add: decodes_ok_def [of "Suc n"] less_Suc_eq_le)
qed (simp add: decodes_ok_def)

section \<open>Properties\<close>

text \<open>
  C15. What the wire format can carry survives it: a query in which correlations name columns, parameters
  are static parameters and planner ids are absent is decoded from its encoding, unchanged; and the
  decoder accepts no other query, so a decoded query is always decoded from its own encoding again.
\<close>

theorem ast_json_roundtrip:
  "(ast_json_ok q \<longrightarrow> ast_from_json (ast_to_json q) = Inr q) \<and>
   (\<forall>v. ast_from_json v = Inr q \<longrightarrow> ast_json_ok q \<and> ast_from_json (ast_to_json q) = Inr q)"
proof -
  have "ast_json_ok q" if "ast_from_json v = Inr q" for v
    using decodes_okD(3) [OF decodes_ok_all lessI that] .
  then show ?thesis using json_roundtrip(3) by blast
qed

definition sample_query :: ast where
  "sample_query =
     Ast None ''issue'' (Some ''i'')
       (Some (And [Simple OpGe (VColumn ''n'') (VLiteral (LitNumber (F_Fin 3))),
          Correlated (Subquery \<lparr>parent_field = [''id''], child_field = [''issue'']\<rparr>
            (ast_table_only ''label'') (Some SysPermissions) None) NotExists (Some True) None None]))
       None (Some \<lparr>ab_row = JObject [(''n'', JNumber (F_Fin 4))], ab_exclusive = True\<rparr>) (Some (F_Fin 10)) (Some [(''n'', Asc)])"

theorem ast_json_roundtrip_witness:
  "ast_json_ok sample_query \<and> ast_from_json (ast_to_json sample_query) = Inr sample_query"
proof -
  have "ast_json_ok sample_query" by (simp add: sample_query_def ast_table_only_def)
  then show ?thesis using ast_json_roundtrip [of sample_query] by blast
qed

end
