(* ===== verification/Query_Hash.thy ===== *)
theory Query_Hash
  imports Ast_Json Json_Text "HOL-Library.Word"
begin

text \<open>
  The content hash of a query (\<open>zero-cache-shared/src/hash.rs\<close>, \<open>zero-cache-protocol/src/query_hash.rs\<close>):
  xxHash32 on 32-bit words, its concatenation into wider hashes, and the base-36 text of the hash of a
  normalized query. The hash of a wider word is shown to be the concatenation of the seeded words.
\<close>

unbundle bit_operations_syntax

section \<open>xxHash32\<close>

type_synonym u32 = "32 word"

definition prime32_1 :: u32 where "prime32_1 = 2654435761"
definition prime32_2 :: u32 where "prime32_2 = 2246822519"
definition prime32_3 :: u32 where "prime32_3 = 3266489917"
definition prime32_4 :: u32 where "prime32_4 = 668265263"
definition prime32_5 :: u32 where "prime32_5 = 374761393"

definition byte_u32 :: "char \<Rightarrow> u32" where
  "byte_u32 c = of_nat (of_char c)"

text \<open>The four bytes at the head of the rest of the buffer, little-endian.\<close>

definition read_u32_le :: "string \<Rightarrow> u32" where
  "read_u32_le b =
     byte_u32 (b ! 0) OR push_bit 8 (byte_u32 (b ! 1)) OR push_bit 16 (byte_u32 (b ! 2)) OR push_bit 24 (byte_u32 (b ! 3))"

definition xx_round :: "u32 \<Rightarrow> u32 \<Rightarrow> u32" where
  "xx_round acc lane = word_rotl 13 (acc + lane * prime32_2) * prime32_1"

function xx_stripes :: "u32 \<times> u32 \<times> u32 \<times> u32 \<Rightarrow> string \<Rightarrow> (u32 \<times> u32 \<times> u32 \<times> u32) \<times> string" where
  "xx_stripes (v1, v2, v3, v4) b =
     (if 16 \<le> length b
      then xx_stripes (xx_round v1 (read_u32_le b), xx_round v2 (read_u32_le (drop 4 b)),
             xx_round v3 (read_u32_le (drop 8 b)), xx_round v4 (read_u32_le (drop 12 b))) (drop 16 b)
      else ((v1, v2, v3, v4), b))"
  by pat_completeness auto
termination
  by (relation "measure (length \<circ> snd)") auto

function xx_words :: "u32 \<Rightarrow> string \<Rightarrow> u32 \<times> string" where
  "xx_words acc b =
     (if 4 \<le> length b
      then xx_words (word_rotl 17 (acc + read_u32_le b * prime32_3) * prime32_4) (drop 4 b)
      else (acc, b))"
  by pat_completeness auto
termination
  by (relation "measure (length \<circ> snd)") auto

fun xx_bytes :: "u32 \<Rightarrow> string \<Rightarrow> u32" where
  "xx_bytes acc [] = acc"
| "xx_bytes acc (c # b) = xx_bytes (word_rotl 11 (acc + byte_u32 c * prime32_5) * prime32_1) b"

definition xx_avalanche :: "u32 \<Rightarrow> u32" where
  "xx_avalanche acc =
     (let acc = (acc XOR drop_bit 15 acc) * prime32_2;
          acc = (acc XOR drop_bit 13 acc) * prime32_3
      in acc XOR drop_bit 16 acc)"

definition xx_hash32 :: "string \<Rightarrow> u32 \<Rightarrow> u32" where
  "xx_hash32 b seed =
     (let (acc, rest) =
        (if 16 \<le> length b
         then (case xx_stripes (seed + prime32_1 + prime32_2, seed + prime32_2, seed, seed - prime32_1) b of
                 ((v1, v2, v3, v4), rest) \<Rightarrow>
                   (word_rotl 1 v1 + word_rotl 7 v2 + word_rotl 12 v3 + word_rotl 18 v4, rest))
         else (seed + prime32_5, b));
          acc = acc + of_nat (length b);
          (acc, rest) = xx_words acc rest
      in xx_avalanche (xx_bytes acc rest))"

declare xx_stripes.simps [simp del] xx_words.simps [simp del]

section \<open>Wider hashes\<close>

fun hash_words_loop :: "string \<Rightarrow> nat \<Rightarrow> nat \<Rightarrow> 128 word \<Rightarrow> 128 word" where
  "hash_words_loop s i 0 hash = hash"
| "hash_words_loop s i (Suc n) hash =
     hash_words_loop s (Suc i) n (push_bit 32 hash + ucast (xx_hash32 s (of_nat i)))"

definition hash_words :: "string \<Rightarrow> nat \<Rightarrow> 128 word" where
  "hash_words s n = hash_words_loop s 0 n 0"

definition h32 :: "string \<Rightarrow> u32" where
  "h32 s = xx_hash32 s 0"

definition h64 :: "string \<Rightarrow> 64 word" where
  "h64 s = ucast (hash_words s 2)"

definition h128 :: "string \<Rightarrow> 128 word" where
  "h128 s = hash_words s 4"

section \<open>The hash of a query\<close>

definition to_base36 :: "nat \<Rightarrow> string" where
  "to_base36 n = map digit_char (radix_digits 36 n)"

text \<open>\<open>fmt\<close> is the text of a double that is no integer; \<open>None\<close> is a panic of the comparators in \<open>normalize_ast\<close>.\<close>

definition hash_of_ast :: "'a text_lib_scheme \<Rightarrow> (rat \<Rightarrow> string) \<Rightarrow> ast \<Rightarrow> string option" where
  "hash_of_ast B fmt q =
     do {
       normalized \<leftarrow> normalize_ast B q;
       Some (to_base36 (unat (h64 (stringify fmt (ast_to_json normalized)))))
     }"

definition hash_of_name_and_args :: "(rat \<Rightarrow> string) \<Rightarrow> string \<Rightarrow> json list \<Rightarrow> string" where
  "hash_of_name_and_args fmt name args =
     to_base36 (unat (h64 (name @ '':'' @ stringify fmt (JArray args))))"


section \<open>Facts\<close>

lemma unat_append_word:
  assumes "unat h < 2 ^ 96"
  shows "unat (push_bit 32 h + ucast (w :: u32) :: 128 word) = unat h * 2 ^ 32 + unat w"
proof -
  have lt: "unat w < 2 ^ 32" using unsigned_less [of w, where ?'a = nat] by simp
  then have w: "unat (ucast w :: 128 word) = unat w" by (simp add: unsigned_ucast_eq take_bit_eq_mod)
  have "unat (push_bit 32 h) = take_bit 128 (push_bit 32 (unat h))" by (simp only: unsigned_push_bit_eq) simp
  also have "\<dots> = unat h * 2 ^ 32" using assms by (simp add: take_bit_eq_mod push_bit_eq_mult)
  finally have p: "unat (push_bit 32 h) = unat h * 2 ^ 32" .
  have "unat h * 2 ^ 32 + unat w < 2 ^ 128" using assms lt by simp
  then show ?thesis using unat_add_lem [of "push_bit 32 h" "ucast w :: 128 word"] p w by simp
qed

lemma h64_concat: "unat (h64 s) = unat (xx_hash32 s 0) * 2 ^ 32 + unat (xx_hash32 s 1)"
proof -
  let ?h0 = "push_bit 32 0 + ucast (xx_hash32 s 0) :: 128 word"
  have lt: "unat (xx_hash32 s i) < 2 ^ 32" for i using unsigned_less [of "xx_hash32 s i", where ?'a = nat] by simp
  have h0: "unat ?h0 = unat (xx_hash32 s 0)" using unat_append_word [of 0 "xx_hash32 s 0"] by simp
  have "hash_words s 2 = push_bit 32 ?h0 + ucast (xx_hash32 s 1)"
    by (simp only: hash_words_def numeral_2_eq_2 hash_words_loop.simps) simp
  moreover have "unat ?h0 < 2 ^ 96" unfolding h0 using lt [of 0] by simp
  ultimately have u: "unat (hash_words s 2) = unat (xx_hash32 s 0) * 2 ^ 32 + unat (xx_hash32 s 1)"
    using unat_append_word [of ?h0 "xx_hash32 s 1"] h0 by simp
  have "unat (xx_hash32 s 0) * 2 ^ 32 + unat (xx_hash32 s 1) < 2 ^ 64" using lt [of 0] lt [of 1] by simp
  then show ?thesis unfolding h64_def using u by (simp add: unsigned_ucast_eq take_bit_eq_mod)
qed

text \<open>
  The reference vectors of the code's tests: the canonical xxHash32 values, and the hash of the query
  of all rows of one table, which identifies it in stored client views.
\<close>

lemma xx_hash32_vectors:
  "xx_hash32 [] 0 = 0x02CC5D05" "xx_hash32 ''abc'' 0 = 0x32D153FF" "xx_hash32 [] 1 = 0x0B2CB792"
  by code_simp+

lemma hash_of_ast_vector: "hash_of_ast B fmt (ast_table_only ''issues'') = Some ''3fscdztul0ozz''"
proof -
  have n: "normalize_ast B (ast_table_only ''issues'') = Some (ast_table_only ''issues'')"
    by (simp add: ast_table_only_def)
  have "stringify fmt (ast_to_json (ast_table_only ''issues'')) = ''{\"table\":\"issues\"}''" by code_simp
  moreover have "xx_hash32 ''{\"table\":\"issues\"}'' 0 = 3793533009" "xx_hash32 ''{\"table\":\"issues\"}'' 1 = 599686031"
    by code_simp+
  ultimately have "unat (h64 (stringify fmt (ast_to_json (ast_table_only ''issues'')))) = 3793533009 * 2 ^ 32 + 599686031"
    by (simp add: h64_concat)
  moreover have "to_base36 (3793533009 * 2 ^ 32 + 599686031) = ''3fscdztul0ozz''"
    by (simp add: to_base36_def radix_digits.simps digit_char_def) code_simp
  ultimately show ?thesis by (simp add: hash_of_ast_def n)
qed

end
