(* ===== verification/F64_Round.thy ===== *)
theory F64_Round
  imports Machine
begin

text \<open>
  Rounding to the nearest double is monotone. Component theories use it to bound sums and products
  of doubles that the code compares with a limit.
\<close>

section \<open>Division\<close>

fun f64_div :: "f64 \<Rightarrow> f64 \<Rightarrow> f64" where
  "f64_div F_NaN y = F_NaN"
| "f64_div x F_NaN = F_NaN"
| "f64_div (F_Fin p) (F_Fin q) = (if q = 0 then f64_signed_inf p else f64_round (p / q))"
| "f64_div (F_Fin p) y = F_Fin 0"
| "f64_div F_PosInf (F_Fin q) = (if q < 0 then F_NegInf else F_PosInf)"
| "f64_div F_NegInf (F_Fin q) = (if q < 0 then F_PosInf else F_NegInf)"
| "f64_div x y = F_NaN"

text \<open>\<open>f64::clamp\<close> with bounds that are not not-a-number.\<close>

definition f64_clamp :: "rat \<Rightarrow> rat \<Rightarrow> f64 \<Rightarrow> f64" where
  "f64_clamp lo hi x =
     (if f64_partial_cmp x (F_Fin lo) = Some Less then F_Fin lo
      else if f64_partial_cmp x (F_Fin hi) = Some Greater then F_Fin hi
      else x)"

section \<open>Powers of two\<close>

lemma pow2_powi: "pow2 k = 2 powi k"
  by (simp add: pow2_def power_int_def field_simps)

lemma pow2_add: "pow2 (a + b) = pow2 a * pow2 b"
  by (simp add: pow2_powi power_int_add)

lemma pow2_nonzero [simp]: "pow2 k \<noteq> 0"
  using pow2_pos [of k] by linarith

lemma pow2_nonneg [simp]: "0 \<le> pow2 k"
  using pow2_pos [of k] by linarith

lemma pow2_mono: "a \<le> b \<Longrightarrow> pow2 a \<le> pow2 b"
  by (simp add: pow2_powi power_int_increasing)

lemma pow2_nat: "0 \<le> k \<Longrightarrow> pow2 k = of_int (2 ^ nat k)"
  by (simp add: pow2_def)

lemma log2_floor_bounds:
  assumes "0 < q"
  shows "pow2 (log2_floor q) \<le> q" "q < pow2 (log2_floor q + 1)"
proof -
  obtain a b where ab: "quotient_of q = (a, b)" by force
  have b: "0 < b" using quotient_of_denom_pos [OF ab] .
  have q: "q = of_int a / of_int b" using quotient_of_div [OF ab] .
  have a: "0 < a" using assms b q by (simp add: zero_less_divide_iff)
  let ?k = "int_bits a" and ?l = "int_bits b"
  have ka: "2 ^ nat (?k - 1) \<le> a" "a < 2 ^ nat ?k" "0 < ?k" using int_bits_bounds [OF a] by auto
  have kb: "2 ^ nat (?l - 1) \<le> b" "b < 2 ^ nat ?l" "0 < ?l" using int_bits_bounds [OF b] by auto
  have A: "pow2 (?k - 1) \<le> of_int a" "of_int a < pow2 ?k"
    using ka by (simp_all only: pow2_nat of_int_le_iff of_int_less_iff)
  have B: "pow2 (?l - 1) \<le> of_int b" "of_int b < pow2 ?l"
    using kb by (simp_all only: pow2_nat of_int_le_iff of_int_less_iff)
  have "q < pow2 (?k - ?l + 1)"
  proof -
    have "of_int a < pow2 (?k - ?l + 1) * pow2 (?l - 1)" using A(2) by (simp flip: pow2_add)
    also have "\<dots> \<le> pow2 (?k - ?l + 1) * of_int b" using B(1) by simp
    finally show ?thesis using b by (simp add: q divide_less_eq)
  qed
  moreover have "pow2 (?k - ?l - 1) \<le> q"
  proof -
    have "pow2 (?k - ?l - 1) * of_int b \<le> pow2 (?k - ?l - 1) * pow2 ?l" using B(2) by simp
    also have "\<dots> \<le> of_int a" using A(1) by (simp flip: pow2_add)
    finally show ?thesis using b by (simp add: q le_divide_eq)
  qed
  moreover have "\<bar>q\<bar> = q" using assms by simp
  ultimately show "pow2 (log2_floor q) \<le> q" "q < pow2 (log2_floor q + 1)"
    by (simp_all add: log2_floor_def ab Let_def)
qed

lemma log2_floor_mono: "0 < p \<Longrightarrow> p \<le> q \<Longrightarrow> log2_floor p \<le> log2_floor q"
  using log2_floor_bounds [of p] log2_floor_bounds [of q] pow2_mono [of "log2_floor q + 1" "log2_floor p"]
  by fastforce


section \<open>Rounding to the nearest double\<close>

lemma round_half_even_bounds: "of_int \<lfloor>x\<rfloor> \<le> (of_int (round_half_even x) :: rat)" "round_half_even x \<le> \<lceil>x\<rceil>"
proof -
  show "of_int \<lfloor>x\<rfloor> \<le> (of_int (round_half_even x) :: rat)"
    by (simp add: round_half_even_def Let_def)
  have "\<lfloor>x\<rfloor> + 1 \<le> \<lceil>x\<rceil>" if "x - of_int \<lfloor>x\<rfloor> \<ge> 1 / 2"
    using that by (simp add: add1_zle_eq floor_less_iff less_ceiling_iff)
  moreover have "\<lfloor>x\<rfloor> \<le> \<lceil>x\<rceil>" by (rule floor_le_ceiling)
  ultimately show "round_half_even x \<le> \<lceil>x\<rceil>"
    by (auto simp: round_half_even_def Let_def not_less)
qed

lemma round_half_even_mono:
  assumes "x \<le> y"
  shows "round_half_even x \<le> round_half_even y"
proof (cases "\<lfloor>x\<rfloor> = \<lfloor>y\<rfloor>")
  case True
  with assms show ?thesis by (auto simp: round_half_even_def Let_def)
next
  case False
  then have "\<lfloor>x\<rfloor> < \<lfloor>y\<rfloor>" using floor_mono [OF assms] by simp
  then show ?thesis by (auto simp: round_half_even_def Let_def)
qed

definition round_exp :: "rat \<Rightarrow> int" where
  "round_exp q = max (log2_floor q) (- 1022)"

definition round_at :: "int \<Rightarrow> rat \<Rightarrow> rat" where
  "round_at e q = of_int (round_half_even (q / pow2 (e - 52))) * pow2 (e - 52)"

lemma f64_round_at:
  "0 < q \<Longrightarrow> f64_round q = (if round_at (round_exp q) q \<ge> pow2 1024 then F_PosInf else F_Fin (round_at (round_exp q) q))"
proof -
  assume q: "0 < q"
  have "0 \<le> q / pow2 (round_exp q - 52)" using q by (simp add: less_imp_le)
  then have "0 \<le> round_half_even (q / pow2 (round_exp q - 52))"
    using round_half_even_mono [of 0 "q / pow2 (round_exp q - 52)"] round_half_even_int [of 0] by simp
  then have "0 \<le> round_at (round_exp q) q" unfolding round_at_def by (simp add: less_imp_le)
  then have "\<not> round_at (round_exp q) q \<le> - pow2 1024" using pow2_pos [of 1024] by linarith
  with q show ?thesis by (simp add: f64_round_def Let_def round_at_def round_exp_def)
qed

lemma round_at_mono: "p \<le> q \<Longrightarrow> round_at e p \<le> round_at e q"
  using round_half_even_mono [of "p / pow2 (e - 52)" "q / pow2 (e - 52)"]
  by (simp add: round_at_def divide_right_mono less_imp_le)

lemma round_at_upper:
  assumes "p \<le> pow2 (e + 1)"
  shows "round_at e p \<le> pow2 (e + 1)"
proof -
  have e: "pow2 (e + 1) = of_int (2 ^ 53) * pow2 (e - 52)"
    using pow2_add [of 53 "e - 52"] by (simp add: pow2_nat add.commute)
  have "round_at e p \<le> round_at e (pow2 (e + 1))" using assms by (rule round_at_mono)
  also have "pow2 (e + 1) / pow2 (e - 52) = of_int (2 ^ 53)" unfolding e using pow2_pos [of "e - 52"] by simp
  then have "round_at e (pow2 (e + 1)) = pow2 (e + 1)" by (simp only: round_at_def round_half_even_int e)
  finally show ?thesis .
qed

lemma round_at_lower:
  assumes "pow2 e \<le> q"
  shows "pow2 e \<le> round_at e q"
proof -
  have e: "pow2 e = of_int (2 ^ 52) * pow2 (e - 52)"
    using pow2_add [of 52 "e - 52"] by (simp add: pow2_nat)
  have "pow2 e / pow2 (e - 52) = of_int (2 ^ 52)" unfolding e using pow2_pos [of "e - 52"] by simp
  then have "round_at e (pow2 e) = pow2 e" by (simp only: round_at_def round_half_even_int e)
  then show ?thesis using round_at_mono [OF assms, of e] by simp
qed

lemma round_at_exp_mono:
  assumes "0 < p" "p \<le> q"
  shows "round_at (round_exp p) p \<le> round_at (round_exp q) q"
proof (cases "round_exp p = round_exp q")
  case True
  then show ?thesis using round_at_mono [OF assms(2)] by simp
next
  case False
  then have lt: "round_exp p < round_exp q" "round_exp q = log2_floor q"
    using log2_floor_mono [OF assms] by (auto simp: round_exp_def)
  have "p \<le> pow2 (round_exp p + 1)"
    using log2_floor_bounds(2) [OF assms(1)] pow2_mono [of "log2_floor p + 1" "round_exp p + 1"]
    by (simp add: round_exp_def)
  then have "round_at (round_exp p) p \<le> pow2 (round_exp p + 1)" by (rule round_at_upper)
  also have "\<dots> \<le> pow2 (round_exp q)" using lt by (intro pow2_mono) simp
  also have "\<dots> \<le> round_at (round_exp q) q"
    using log2_floor_bounds(1) [of q] assms lt by (intro round_at_lower) simp
  finally show ?thesis .
qed

theorem f64_round_mono:
  assumes "0 \<le> p" "p \<le> q"
  shows "le_by f64_partial_cmp (f64_round p) (f64_round q)"
proof (cases "p = 0")
  case True
  have "0 \<le> round_at (round_exp q) q" if "0 < q"
    using round_at_mono [of 0 q "round_exp q"] that round_half_even_int [of 0] by (simp add: round_at_def)
  with True assms show ?thesis
    by (cases "q = 0") (auto simp: f64_round_at le_by_def cmp_linorder_def f64_round_def [of 0])
next
  case False
  with assms have "0 < p" "0 < q" by simp_all
  with round_at_exp_mono [of p q] assms(2) show ?thesis
    by (auto simp: f64_round_at le_by_def cmp_linorder_def)
qed


section \<open>Evaluation\<close>

text \<open>Code equations that spare the evaluation of very large powers of two.\<close>

lemma pow2_code [code]: "pow2 k = (if 0 \<le> k then of_int (2 ^ nat k) else Fract 1 (2 ^ nat (- k)))"
  by (simp add: pow2_def Fract_of_int_quotient)

lemma f64_round_code [code]:
  "f64_round q =
     (if q = 0 then F_Fin 0
      else let ulp = pow2 (max (log2_floor q) (- 1022) - 52);
               r = of_int (round_half_even (q / ulp)) * ulp
           in if \<bar>r\<bar> < 18446744073709551616 then F_Fin r
              else if r \<ge> pow2 1024 then F_PosInf else if r \<le> - pow2 1024 then F_NegInf else F_Fin r)"
proof -
  have "(18446744073709551616 :: rat) \<le> pow2 1024"
    using pow2_mono [of 64 1024] by (simp add: pow2_def)
  then show ?thesis by (simp add: f64_round_def Let_def abs_less_iff)
qed

end
