(* ===== verification/Lifecycle.thy ===== *)
theory Lifecycle
  imports Cvr_Queries Protocol_Error Query_Hash F64_Round "HOL-Library.AList"
begin

text \<open>
  The decisions of a view syncer's life (\<open>zero-cache-view-syncer/src/view_syncer_lifecycle.rs\<close>):
  keep-alive and shutdown, the thrashing detector, the check of a client's base version, expiry of
  queries and the delay of the eviction timer. Time is an argument of every decision.
\<close>

section \<open>Keep-alive and shutdown\<close>

record keep_alive =
  keep_alive_until :: int

definition keep_alive_new :: keep_alive where
  "keep_alive_new = \<lparr>keep_alive_until = 0\<rparr>"

definition keepalive :: "keep_alive \<Rightarrow> bool \<Rightarrow> int \<Rightarrow> int \<Rightarrow> keep_alive \<times> bool" where
  "keepalive k active now keepalive_ms =
     (if \<not> active then (k, False)
      else (k\<lparr>keep_alive_until := i64_add now keepalive_ms\<rparr>, True))"

datatype shutdown_decision = HasClients | KeepAliveActive int | Shutdown

definition check_shutdown_conditions :: "nat \<Rightarrow> int \<Rightarrow> int \<Rightarrow> int \<Rightarrow> shutdown_decision" where
  "check_shutdown_conditions client_count now until keepalive_ms =
     (if client_count > 0 then HasClients
      else if now \<le> until then KeepAliveActive keepalive_ms
      else Shutdown)"

section \<open>Thrashing\<close>

record thrash_record =
  th_count :: nat
  th_window_start :: int

definition thrash_window_ms :: int where
  "thrash_window_ms = 60000"

definition thrash_threshold :: nat where
  "thrash_threshold = 3"

definition check_for_thrashing ::
  "(string \<times> thrash_record) list \<Rightarrow> string \<Rightarrow> int \<Rightarrow> (string \<times> thrash_record) list \<times> bool" where
  "check_for_thrashing replacements query_id now =
     (case map_of replacements query_id of
        None \<Rightarrow> (AList.update query_id \<lparr>th_count = 1, th_window_start = now\<rparr> replacements, False)
      | Some record \<Rightarrow>
          if i64_sub now (th_window_start record) > thrash_window_ms
          then (AList.update query_id \<lparr>th_count = 1, th_window_start = now\<rparr> replacements, False)
          else let count = (th_count record + 1) mod 2 ^ 32
               in (AList.update query_id (record\<lparr>th_count := count\<rparr>) replacements, count \<ge> thrash_threshold))"

section \<open>Rows and versions\<close>

fun split_version :: "(string \<times> json) list \<Rightarrow> json option \<Rightarrow> (string \<times> json) list \<Rightarrow> (string \<times> json) list \<times> json option" where
  "split_version [] version contents = (contents, version)"
| "split_version ((k, v) # r) version contents =
     (if k = ''_0_version'' then split_version r (Some v) contents
      else split_version r version (contents @ [(k, v)]))"

definition contents_and_version :: "(string \<times> json) list \<Rightarrow> string + ((string \<times> json) list \<times> string)" where
  "contents_and_version r =
     (case split_version r None [] of
        (contents, Some (JString s)) \<Rightarrow> if s \<noteq> [] then Inr (contents, s) else Inl ''Invalid _0_version in row''
      | _ \<Rightarrow> Inl ''Invalid _0_version in row'')"

datatype version_check_error = ClientNotFound | StaleBaseCookie error_body

definition check_client_and_cvr_versions ::
  "'a text_lib_scheme \<Rightarrow> (lexi_error \<Rightarrow> string) \<Rightarrow> cvr_version option \<Rightarrow> cvr_version \<Rightarrow>
   (version_check_error + unit) option" where
  "check_client_and_cvr_versions B show_err client v =
     do {
       new_version \<leftarrow> empty_cvr_version B;
       Some (if cmp_versions (Some v) (Some new_version) = 0 \<and> cmp_versions client (Some new_version) > 0
         then Inl ClientNotFound
         else if cmp_versions client (Some v) > 0
         then Inl (StaleBaseCookie (error_body_new EkInvalidConnectionRequestBaseCookie
                (''CVR is at version '' @
                 (case version_to_cookie B show_err v of Inl _ \<Rightarrow> [] | Inr c \<Rightarrow> c))
                (Some OriginZeroCache)))
         else Inr ())
     }"

definition is_transform_failed_auth_error :: "transform_failed_body \<Rightarrow> bool" where
  "is_transform_failed_auth_error body =
     (case tf_reason body of
        ZeroCacheHttp status _ \<Rightarrow> f64_eq status (F_Fin 401) \<or> f64_eq status (F_Fin 403)
      | _ \<Rightarrow> False)"

definition is_transform_failed_error :: "transform_failed_body \<Rightarrow> bool" where
  "is_transform_failed_error body \<longleftrightarrow> \<not> is_transform_failed_auth_error body"

section \<open>Expiry of queries\<close>

fun expired_states :: "(string \<Rightarrow> f64 option) \<Rightarrow> f64 \<Rightarrow> client_query_state list \<Rightarrow> bool" where
  "expired_states pf clock [] = True"
| "expired_states pf clock (state # states) =
     (case inactivated_at state of
        None \<Rightarrow> False
      | Some at_time \<Rightarrow>
          if f64_lt clock (f64_add (as_number at_time) (fst (clamp_ttl pf (TtlMillis (cq_ttl state)))))
          then False
          else expired_states pf clock states)"

definition expired :: "(string \<Rightarrow> f64 option) \<Rightarrow> ttl_clock \<Rightarrow> query_record \<Rightarrow> bool" where
  "expired pf clock query =
     (case query_client_state query of
        None \<Rightarrow> False
      | Some cs \<Rightarrow> expired_states pf (as_number clock) (map snd cs))"

definition has_expired_queries :: "(string \<Rightarrow> f64 option) \<Rightarrow> ttl_clock \<Rightarrow> query_record list \<Rightarrow> bool" where
  "has_expired_queries pf clock qs = list_ex (expired pf clock) qs"

definition ttl_timer_hysteresis :: rat where
  "ttl_timer_hysteresis = 50"

definition f64_sub :: "f64 \<Rightarrow> f64 \<Rightarrow> f64" where
  "f64_sub x y =
     f64_add x (case y of F_Fin q \<Rightarrow> F_Fin (- q) | F_PosInf \<Rightarrow> F_NegInf | F_NegInf \<Rightarrow> F_PosInf | F_NaN \<Rightarrow> F_NaN)"

definition schedule_expire_eviction_delay :: "(string \<Rightarrow> f64 option) \<Rightarrow> cvr \<Rightarrow> f64 option option" where
  "schedule_expire_eviction_delay pf v =
     do {
       next \<leftarrow> next_eviction_time pf v;
       Some (map_option (\<lambda>next.
         f64_clamp ttl_timer_hysteresis 600000
           (f64_add (f64_sub (as_number next) (as_number (ttl_clk v))) (F_Fin ttl_timer_hysteresis))) next)
     }"

definition random_id :: "nat \<Rightarrow> string" where
  "random_id random_value = to_base36 random_value"

definition shutdown_before_initialization_error :: error_with_level where
  "shutdown_before_initialization_error =
     \<lparr>el_body = error_body_new EkInternal ''shut down before initialization completed'' (Some OriginZeroCache),
      el_level = LogWarn\<rparr>"


section \<open>Shutdown happens, and not too early\<close>

text \<open>
  The checks a caller makes while no client connects and no keep-alive arrives: a decision
  \<open>KeepAliveActive\<close> schedules the next check after its delay. \<open>shuts_down_at until ms now t\<close>: the
  check at time \<open>now\<close> leads to the decision to shut down at time \<open>t\<close>.
\<close>

inductive shuts_down_at :: "int \<Rightarrow> int \<Rightarrow> int \<Rightarrow> int \<Rightarrow> bool" where
  stop: "check_shutdown_conditions 0 now until ms = Shutdown \<Longrightarrow> shuts_down_at until ms now now"
| retry: "check_shutdown_conditions 0 now until ms = KeepAliveActive d \<Longrightarrow>
    shuts_down_at until ms (now + d) t \<Longrightarrow> shuts_down_at until ms now t"

inductive_simps shuts_down_at_iff: "shuts_down_at until ms now t"

lemma shuts_down_after: "shuts_down_at until ms now t \<Longrightarrow> until < t"
  by (induction rule: shuts_down_at.induct) (auto simp: check_shutdown_conditions_def split: if_splits)

lemma shuts_down_within:
  assumes "0 < ms"
  shows "\<exists>t. shuts_down_at until ms now t \<and> t \<le> max now (until + ms)"
proof (induction "nat (until - now + 1)" arbitrary: now rule: less_induct)
  case less
  show ?case
  proof (cases "now \<le> until")
    case True
    then have "nat (until - (now + ms) + 1) < nat (until - now + 1)" using assms by linarith
    from less [OF this] obtain t where t: "shuts_down_at until ms (now + ms) t" "t \<le> max (now + ms) (until + ms)"
      by blast
    have "check_shutdown_conditions 0 now until ms = KeepAliveActive ms"
      using True by (simp add: check_shutdown_conditions_def)
    from shuts_down_at.retry [OF this t(1)] have "shuts_down_at until ms now t" .
    moreover have "t \<le> max now (until + ms)" using t(2) True by linarith
    ultimately show ?thesis by blast
  next
    case False
    then have "shuts_down_at until ms now now"
      by (simp add: shuts_down_at.stop check_shutdown_conditions_def)
    moreover have "now \<le> max now (until + ms)" by simp
    ultimately show ?thesis by blast
  qed
qed



section \<open>Expiry agrees with eviction\<close>

lemma f64_add_commute: "f64_add x y = f64_add y x"
  by (cases x; cases y) (simp_all add: add.commute)

lemma f64_lt_iff: "x \<noteq> F_NaN \<Longrightarrow> y \<noteq> F_NaN \<Longrightarrow> f64_lt x y \<longleftrightarrow> \<not> le_by f64_partial_cmp y x"
  by (cases x; cases y) (auto simp: f64_lt_def le_by_def cmp_linorder_def)

lemma f64_max_le:
  assumes "x \<noteq> F_NaN" "y \<noteq> F_NaN" "c \<noteq> F_NaN"
  shows "le_by f64_partial_cmp (if f64_lt x y then y else x) c \<longleftrightarrow> le_by f64_partial_cmp x c \<and> le_by f64_partial_cmp y c"
  using assms by (cases x; cases y; cases c) (auto simp: f64_lt_def le_by_def cmp_linorder_def)

lemma f64_min_le:
  assumes "x \<noteq> F_NaN" "y \<noteq> F_NaN" "c \<noteq> F_NaN"
  shows "le_by f64_partial_cmp (if f64_lt x y then x else y) c \<longleftrightarrow> le_by f64_partial_cmp x c \<or> le_by f64_partial_cmp y c"
  using assms by (cases x; cases y; cases c) (auto simp: f64_lt_def le_by_def cmp_linorder_def)

lemma f64_add_fin_not_nan: "x \<noteq> F_NaN \<Longrightarrow> f64_add x (F_Fin q) \<noteq> F_NaN"
  by (cases x) (simp_all add: f64_round_def Let_def)

definition expiry :: "inactive_query \<Rightarrow> f64" where
  "expiry e = f64_add (as_number (in_at e)) (in_ttl_ms e)"

definition entry_ok :: "inactive_query \<Rightarrow> bool" where
  "entry_ok e \<longleftrightarrow> as_number (in_at e) \<noteq> F_NaN \<and> (\<exists>q. in_ttl_ms e = F_Fin q \<and> 0 \<le> q \<and> q \<le> 600000)"

definition state_clock_ok :: "client_query_state \<Rightarrow> bool" where
  "state_clock_ok s \<longleftrightarrow> (case inactivated_at s of None \<Rightarrow> True | Some a \<Rightarrow> as_number a \<noteq> F_NaN)"

lemma entry_expiry_not_nan: "entry_ok e \<Longrightarrow> expiry e \<noteq> F_NaN"
  by (auto simp: entry_ok_def expiry_def f64_add_fin_not_nan)

lemma state_entry_ok:
  "parses_ints pf \<Longrightarrow> as_number a \<noteq> F_NaN \<Longrightarrow> entry_ok \<lparr>in_hash = h, in_at = a, in_ttl_ms = clamped_ms pf t\<rparr>"
  using clamp_millis [of pf t] by (simp add: entry_ok_def clamped_ms_def)

lemma clamped_entry: "entry_ok e \<Longrightarrow> clamped_ms pf (in_ttl_ms e) = in_ttl_ms e"
  by (auto simp: entry_ok_def clamped_ms_def clamp_fixed)


text \<open>The loop over the clients of a query keeps the client that expires last.\<close>

lemma inactive_loop_expired:
  assumes "parses_ints pf" "list_all state_clock_ok states" "entry_ok e"
  shows "case inactive_loop pf h (Some e) states of
      None \<Rightarrow> \<forall>clock. \<not> expired_states pf clock states
    | Some None \<Rightarrow> False
    | Some (Some e') \<Rightarrow> entry_ok e' \<and> (\<forall>clock. clock \<noteq> F_NaN \<longrightarrow>
        (le_by f64_partial_cmp (expiry e') clock \<longleftrightarrow>
         le_by f64_partial_cmp (expiry e) clock \<and> expired_states pf clock states))"
  using assms(2,3)
proof (induction states arbitrary: e)
  case (Cons s states)
  show ?case
  proof (cases "inactivated_at s")
    case (Some a)
    let ?s = "e\<lparr>in_at := a, in_ttl_ms := clamped_ms pf (cq_ttl s)\<rparr>"
    obtain e1 where e1: "e1 = (if f64_lt (expiry e) (expiry ?s) then ?s else e)" by blast
    have s: "entry_ok ?s"
      using state_entry_ok [OF assms(1), of a h "cq_ttl s"] Cons.prems(1) Some
      by (simp add: state_clock_ok_def entry_ok_def)
    have ok: "entry_ok e1" using s Cons.prems(2) e1 by simp
    have step: "inactive_loop pf h (Some e) (s # states) = inactive_loop pf h (Some e1) states"
      using Some clamped_entry [OF Cons.prems(2), of pf] e1
      by (simp add: Let_def expiry_def f64_add_commute [of "in_ttl_ms e"])
    have max: "le_by f64_partial_cmp (expiry e1) clock \<longleftrightarrow>
        le_by f64_partial_cmp (expiry e) clock \<and> le_by f64_partial_cmp (expiry ?s) clock" if "clock \<noteq> F_NaN" for clock
      using f64_max_le [OF entry_expiry_not_nan [OF Cons.prems(2)] entry_expiry_not_nan [OF s] that] e1
      by (simp split: if_splits)
    have none: "\<not> expired_states pf clock states \<Longrightarrow> \<not> expired_states pf clock (s # states)" for clock
      using Some by simp
    have ex: "expired_states pf clock (s # states) \<longleftrightarrow>
        le_by f64_partial_cmp (expiry ?s) clock \<and> expired_states pf clock states" if "clock \<noteq> F_NaN" for clock
      using Some f64_lt_iff [OF that entry_expiry_not_nan [OF s]] by (simp add: expiry_def clamped_ms_def)
    have IH: "case inactive_loop pf h (Some e1) states of
      None \<Rightarrow> \<forall>clock. \<not> expired_states pf clock states
    | Some None \<Rightarrow> False
    | Some (Some e') \<Rightarrow> entry_ok e' \<and> (\<forall>clock. clock \<noteq> F_NaN \<longrightarrow>
        (le_by f64_partial_cmp (expiry e') clock \<longleftrightarrow>
         le_by f64_partial_cmp (expiry e1) clock \<and> expired_states pf clock states))"
      using Cons.IH [OF _ ok] Cons.prems(1) by simp
    show ?thesis
    proof (cases "inactive_loop pf h (Some e1) states")
      case None
      with IH none step show ?thesis by (simp del: expired_states.simps)
    next
      case (Some r)
      with IH step max ex show ?thesis by (cases r) (simp_all del: expired_states.simps)
    qed
  qed simp
qed simp

lemma inactive_loop_query:
  assumes "parses_ints pf" "list_all state_clock_ok states" "states \<noteq> []"
  shows "case inactive_loop pf h None states of
      None \<Rightarrow> \<forall>clock. \<not> expired_states pf clock states
    | Some None \<Rightarrow> False
    | Some (Some e) \<Rightarrow> entry_ok e \<and> (\<forall>clock. clock \<noteq> F_NaN \<longrightarrow>
        (le_by f64_partial_cmp (expiry e) clock \<longleftrightarrow> expired_states pf clock states))"
proof -
  obtain s ss where states: "states = s # ss" using assms(3) by (cases states) auto
  show ?thesis
  proof (cases "inactivated_at s")
    case (Some a)
    let ?s = "\<lparr>in_hash = h, in_at = a, in_ttl_ms = clamped_ms pf (cq_ttl s)\<rparr>"
    have s: "entry_ok ?s" using state_entry_ok [OF assms(1)] assms(2) states Some by (simp add: state_clock_ok_def)
    have ex: "expired_states pf clock states \<longleftrightarrow> \<not> f64_lt clock (expiry ?s) \<and> expired_states pf clock ss" for clock
      using Some states by (simp add: expiry_def clamped_ms_def)
    have "f64_lt clock (expiry ?s) \<longleftrightarrow> \<not> le_by f64_partial_cmp (expiry ?s) clock" if "clock \<noteq> F_NaN" for clock
      using f64_lt_iff [OF that entry_expiry_not_nan [OF s]] .
    moreover have "inactive_loop pf h None states = inactive_loop pf h (Some ?s) ss"
      using Some states by (simp add: Let_def)
    ultimately show ?thesis
      using inactive_loop_expired [OF assms(1) _ s, of ss h] assms(2) states ex by (auto split: option.splits)
  qed (simp add: states)
qed


definition query_clocks_ok :: "query_record \<Rightarrow> bool" where
  "query_clocks_ok q \<longleftrightarrow>
     (case query_client_state q of None \<Rightarrow> True | Some cs \<Rightarrow> cs \<noteq> [] \<and> list_all (\<lambda>(c, s). state_clock_ok s) cs)"

lemma collect_inactive_expired:
  assumes "parses_ints pf" "list_all (\<lambda>(h, q). query_clocks_ok q) qs"
  shows "list_all entry_ok (collect_inactive pf qs) \<and>
    (\<forall>clock. clock \<noteq> F_NaN \<longrightarrow>
      (list_ex (\<lambda>e. le_by f64_partial_cmp (expiry e) clock) (collect_inactive pf qs) \<longleftrightarrow>
       has_expired_queries pf (TtlClock clock) (map snd qs)))"
  using assms(2)
proof (induction qs)
  case (Cons hq qs)
  obtain h q where hq: "hq = (h, q)" by force
  show ?case
  proof (cases "query_client_state q")
    case None
    with Cons hq show ?thesis by (simp add: has_expired_queries_def expired_def)
  next
    case (Some cs)
    have "map snd cs \<noteq> []" "list_all state_clock_ok (map snd cs)"
      using Cons.prems hq Some by (auto simp: query_clocks_ok_def list_all_iff)
    from inactive_loop_query [OF assms(1) this(2,1), of h] Cons hq Some show ?thesis
      by (auto simp: has_expired_queries_def expired_def split: option.splits)
  qed
qed (simp add: has_expired_queries_def)

lemma next_loop_min:
  assumes "list_all entry_ok qs" "case nx of None \<Rightarrow> True | Some n \<Rightarrow> n \<noteq> F_NaN" "clock \<noteq> F_NaN"
  shows "(case next_loop nx qs of None \<Rightarrow> False | Some n \<Rightarrow> le_by f64_partial_cmp n clock) \<longleftrightarrow>
    (case nx of None \<Rightarrow> False | Some n \<Rightarrow> le_by f64_partial_cmp n clock) \<or>
    list_ex (\<lambda>e. le_by f64_partial_cmp (expiry e) clock) qs"
  using assms(1,2)
proof (induction qs arbitrary: nx)
  case (Cons q qs)
  let ?nx = "if (case nx of None \<Rightarrow> True | Some n \<Rightarrow> f64_lt (expiry q) n) then Some (expiry q) else nx"
  have q: "expiry q \<noteq> F_NaN" using Cons.prems(1) by (simp add: entry_expiry_not_nan)
  have "next_loop nx (q # qs) = next_loop ?nx qs" by (cases nx) (simp_all add: Let_def expiry_def)
  moreover have "(case ?nx of None \<Rightarrow> False | Some n \<Rightarrow> le_by f64_partial_cmp n clock) \<longleftrightarrow>
      (case nx of None \<Rightarrow> False | Some n \<Rightarrow> le_by f64_partial_cmp n clock) \<or> le_by f64_partial_cmp (expiry q) clock"
    using f64_min_le [OF q _ assms(3), of "the nx"] Cons.prems(2)
    by (cases nx; cases "f64_lt (expiry q) (the nx)") auto
  moreover have "case ?nx of None \<Rightarrow> True | Some n \<Rightarrow> n \<noteq> F_NaN" using q Cons.prems(2) by (simp split: option.splits)
  ultimately show ?case using Cons.IH [of ?nx] Cons.prems(1) by auto
qed simp

lemma f64_partial_cmp_not_None: "x \<noteq> F_NaN \<Longrightarrow> y \<noteq> F_NaN \<Longrightarrow> f64_partial_cmp x y \<noteq> None"
  by (cases x; cases y) simp_all

lemma get_inactive_queries_total:
  assumes "list_all entry_ok (collect_inactive pf (queries v))"
  shows "get_inactive_queries pf v = Some (isort_by cmp_inactive (collect_inactive pf (queries v)))"
proof -
  have "cmp_inactive a b \<noteq> None" if "entry_ok a" "entry_ok b" for a b
    using f64_partial_cmp_not_None [OF entry_expiry_not_nan [OF that(1)] entry_expiry_not_nan [OF that(2)]]
      f64_partial_cmp_not_None [of "as_number (in_at a)" "as_number (in_at b)"] that
    by (simp add: cmp_inactive_def expiry_def entry_ok_def)
  then have "sorted_wrt (\<lambda>a b. cmp_inactive a b \<noteq> None) (collect_inactive pf (queries v))"
    using assms by (induction "collect_inactive pf (queries v)") (auto simp: list_all_iff sorted_wrt_iff_nth_less)
  then show ?thesis by (simp add: get_inactive_queries_def sort_by_def)
qed

lemma expired_iff_next_eviction:
  assumes "parses_ints pf" "list_all (\<lambda>(h, q). query_clocks_ok q) (queries v)" "clock \<noteq> F_NaN"
  shows "\<exists>t. next_eviction_time pf v = Some t \<and>
    (has_expired_queries pf (TtlClock clock) (map snd (queries v)) \<longleftrightarrow>
      (case t of None \<Rightarrow> False | Some n \<Rightarrow> le_by f64_partial_cmp (as_number n) clock))"
proof -
  let ?es = "collect_inactive pf (queries v)"
  have c: "list_all entry_ok ?es"
    "list_ex (\<lambda>e. le_by f64_partial_cmp (expiry e) clock) ?es \<longleftrightarrow>
     has_expired_queries pf (TtlClock clock) (map snd (queries v))"
    using collect_inactive_expired [OF assms(1,2)] assms(3) by blast+
  have "list_all entry_ok (isort_by cmp_inactive ?es)" using c(1) by (simp add: list_all_iff)
  from next_loop_min [OF this, of None clock] c(2) assms(3) get_inactive_queries_total [OF c(1)] show ?thesis
    by (auto simp: next_eviction_time_def list_ex_iff split: option.splits)
qed



definition idle_query :: query_record where
  "idle_query = QCustom ((new_base ''q'')\<lparr>client_state :=
     [(''c'', \<lparr>inactivated_at = Some (TtlClock (F_Fin 1000)), cq_ttl = F_Fin 500, cq_deleted = False,
        cq_version = \<lparr>state_ver = ''00'', config_ver = None\<rparr>\<rparr>)]\<rparr>) ''n'' []"

definition idle_cvr :: cvr where
  "idle_cvr = \<lparr>cvr_id = ''g'', cvr_ver = \<lparr>state_ver = ''00'', config_ver = None\<rparr>, last_active = F_Fin 0,
     ttl_clk = TtlClock (F_Fin 1000), replica_version = None, clients = [], queries = [(''q'', idle_query)],
     client_schema = None, profile_id = None\<rparr>"

text \<open>A parser of doubles that reads plain digits, as Rust's does.\<close>

definition digits_f64 :: "string \<Rightarrow> f64 option" where
  "digits_f64 s =
     (let ds = map (to_digit 10) s in
      if s \<noteq> [] \<and> list_all (\<lambda>d. d \<noteq> None) ds then Some (F_Fin (of_nat (digits_value 10 (map the ds)))) else None)"

lemma digits_f64_ints: "parses_ints digits_f64"
proof -
  have "digits_f64 (nat_digits n) = Some (F_Fin (of_nat n))" for n
  proof -
    have "map (to_digit 10) (nat_digits n) = map Some (radix_digits 10 n)"
      using radix_digits_less [of 10 _ n] by (auto simp: nat_digits_def)
    moreover have "nat_digits n \<noteq> []" by (simp add: nat_digits_def)
    ultimately show ?thesis
      unfolding digits_f64_def Let_def by (simp add: list_all_iff comp_def)
  qed
  then show ?thesis by (simp add: parses_ints_def)
qed


section \<open>The eviction timer fires in time\<close>

lemma f64_round_floor:
  assumes "0 \<le> x" "x \<le> 2 ^ 52"
  shows "\<exists>y. f64_round x = F_Fin y \<and> of_int \<lfloor>x\<rfloor> \<le> y \<and> y \<le> of_int \<lceil>x\<rceil>"
proof -
  have c: "0 \<le> \<lfloor>x\<rfloor>" "\<lceil>x\<rceil> \<le> 2 ^ 52" "\<lfloor>x\<rfloor> \<le> \<lceil>x\<rceil>" "0 \<le> \<lceil>x\<rceil>"
    using assms by (simp_all add: ceiling_le_iff floor_le_ceiling)
  have f: "f64_round (of_int \<lfloor>x\<rfloor>) = F_Fin (of_int \<lfloor>x\<rfloor>)" "f64_round (of_int \<lceil>x\<rceil>) = F_Fin (of_int \<lceil>x\<rceil>)"
    using c by (auto intro!: f64_round_int)
  have "le_by f64_partial_cmp (F_Fin (of_int \<lfloor>x\<rfloor>)) (f64_round x)" "le_by f64_partial_cmp (f64_round x) (F_Fin (of_int \<lceil>x\<rceil>))"
    using f64_round_mono [of "of_int \<lfloor>x\<rfloor>" x] f64_round_mono [of x "of_int \<lceil>x\<rceil>"] f c assms by simp_all
  then show ?thesis
    by (cases "f64_round x") (auto simp: le_by_def cmp_linorder_def split: if_splits)
qed


text \<open>The clocks of a client view record in whole milliseconds, none of them in the future.\<close>

definition past_clock :: "int \<Rightarrow> ttl_clock \<Rightarrow> bool" where
  "past_clock c t \<longleftrightarrow> (\<exists>a. t = TtlClock (F_Fin (of_int a)) \<and> 0 \<le> a \<and> a \<le> c)"

definition query_past :: "int \<Rightarrow> query_record \<Rightarrow> bool" where
  "query_past c q \<longleftrightarrow>
     (case query_client_state q of
        None \<Rightarrow> True
      | Some cs \<Rightarrow> cs \<noteq> [] \<and>
          (\<forall>(k, s) \<in> set cs. case inactivated_at s of None \<Rightarrow> True | Some a \<Rightarrow> past_clock c a))"

lemma query_past_clocks: "query_past c q \<Longrightarrow> query_clocks_ok q"
  by (fastforce simp: query_past_def query_clocks_ok_def state_clock_ok_def list_all_iff past_clock_def
      split: option.splits)

lemma inactive_loop_at:
  assumes "inactive_loop pf h cur states = Some (Some e)"
    "\<forall>s\<in>set states. case inactivated_at s of None \<Rightarrow> True | Some a \<Rightarrow> P a"
    "case cur of None \<Rightarrow> True | Some e0 \<Rightarrow> P (in_at e0)"
  shows "P (in_at e)"
  using assms
  by (induction pf h cur states rule: inactive_loop.induct) (auto simp: Let_def split: option.splits if_splits)

lemma collect_inactive_at:
  assumes "\<forall>(h, q) \<in> set qs. query_past c q" "e \<in> set (collect_inactive pf qs)"
  shows "past_clock c (in_at e)"
  using assms
proof (induction qs)
  case (Cons hq qs)
  obtain h q where hq: "hq = (h, q)" by force
  show ?case
  proof (cases "e \<in> set (collect_inactive pf qs)")
    case False
    then obtain cs where cs: "query_client_state q = Some cs" "inactive_loop pf h None (map snd cs) = Some (Some e)"
      using Cons.prems(2) hq
      by (cases "query_client_state q"; cases "inactive_loop pf h None (map snd (the (query_client_state q)))")
        (auto split: option.splits)
    have "\<forall>s\<in>set (map snd cs). case inactivated_at s of None \<Rightarrow> True | Some a \<Rightarrow> past_clock c a"
      using Cons.prems(1) hq cs(1) by (auto simp: query_past_def)
    then show ?thesis by (rule inactive_loop_at [OF cs(2)]) simp
  qed (use Cons in auto)
qed simp

lemma next_loop_member:
  "next_loop nx qs = Some n \<Longrightarrow> nx = Some n \<or> (\<exists>e\<in>set qs. n = expiry e)"
  by (induction nx qs rule: next_loop.induct) (auto simp: Let_def expiry_def split: if_splits)

lemma expiry_bounds:
  assumes "entry_ok e" "past_clock c (in_at e)" "c < 2 ^ 51"
  shows "\<exists>x. expiry e = F_Fin x \<and> 0 \<le> x \<and> x \<le> of_int c + 600000"
proof -
  obtain a q where a: "in_at e = TtlClock (F_Fin (of_int a))" "0 \<le> a" "a \<le> c"
    and q: "in_ttl_ms e = F_Fin q" "0 \<le> q" "q \<le> 600000"
    using assms(1,2) by (auto simp: entry_ok_def past_clock_def)
  have "(of_int a :: rat) \<le> of_int c" "(of_int c :: rat) < of_int (2 ^ 51)"
    using a(3) assms(3) by (simp_all only: of_int_le_iff of_int_less_iff)
  then have s: "0 \<le> of_int a + q" "of_int a + q \<le> of_int (c + 600000)" "of_int a + q \<le> 2 ^ 52"
    using a q by simp_all
  obtain y where y: "f64_round (of_int a + q) = F_Fin y" "of_int \<lfloor>of_int a + q\<rfloor> \<le> y" "y \<le> of_int \<lceil>of_int a + q\<rceil>"
    using f64_round_floor [OF s(1,3)] by blast
  have "\<lceil>of_int a + q\<rceil> \<le> c + 600000" using s(2) by (simp only: ceiling_le_iff)
  then have "(of_int \<lceil>of_int a + q\<rceil> :: rat) \<le> of_int (c + 600000)" by (simp only: of_int_le_iff)
  moreover have "0 \<le> \<lfloor>of_int a + q\<rfloor>" using s(1) by (simp only: zero_le_floor)
  then have "0 \<le> (of_int \<lfloor>of_int a + q\<rfloor> :: rat)" by simp
  ultimately have "0 \<le> y" "y \<le> of_int (c + 600000)" using y(2,3) by linarith+
  then show ?thesis using y(1) a(1) q(1) by (simp add: expiry_def)
qed

lemma delay_reaches:
  assumes "0 \<le> x" "x \<le> of_int c + 600000" "0 \<le> c" "c < 2 ^ 51"
  shows "\<exists>d. f64_clamp 50 600000 (f64_add (f64_sub (F_Fin x) (F_Fin (of_int c))) (F_Fin 50)) = F_Fin d \<and>
    50 \<le> d \<and> d \<le> 600000 \<and> x \<le> of_int c + d"
proof (cases "x - of_int c \<le> 0")
  case True
  have "f64_add (f64_sub (F_Fin x) (F_Fin (of_int c))) (F_Fin 50) \<noteq> F_NaN"
    using f64_add_fin_not_nan [of "f64_round (x - of_int c)" 50] by (simp add: f64_sub_def f64_round_def Let_def)
  then show ?thesis using True
    by (cases "f64_add (f64_sub (F_Fin x) (F_Fin (of_int c))) (F_Fin 50)")
      (auto simp: f64_clamp_def cmp_linorder_def)
next
  case False
  let ?y = "x - of_int c"
  have y: "0 \<le> ?y" "?y \<le> 2 ^ 52" using False assms by simp_all
  obtain r where r: "f64_round ?y = F_Fin r" "of_int \<lfloor>?y\<rfloor> \<le> r" "r \<le> of_int \<lceil>?y\<rceil>"
    using f64_round_floor [OF y] by blast
  have "\<lceil>?y\<rceil> \<le> 600000" "0 \<le> \<lfloor>?y\<rfloor>" 
    using assms(2) y(1) by (simp_all only: ceiling_le_iff zero_le_floor)
  then have "(of_int \<lceil>?y\<rceil> :: rat) \<le> 600000" "0 \<le> (of_int \<lfloor>?y\<rfloor> :: rat)" by linarith+
  then have s: "0 \<le> r + 50" "r + 50 \<le> 2 ^ 52" using r by simp_all
  obtain d where d: "f64_round (r + 50) = F_Fin d" "of_int \<lfloor>r + 50\<rfloor> \<le> d" using f64_round_floor [OF s] by blast
  have "of_int (\<lfloor>?y\<rfloor> + 50) \<le> r + 50" using r(2) by simp
  then have "\<lfloor>?y\<rfloor> + 50 \<le> \<lfloor>r + 50\<rfloor>" by (simp only: le_floor_iff)
  then have "(of_int (\<lfloor>?y\<rfloor> + 50) :: rat) \<le> d" using d(2) by (metis of_int_le_iff order_trans)
  moreover have "?y < of_int (\<lfloor>?y\<rfloor> + 1)" using floor_correct [of ?y] by blast
  ultimately have "?y \<le> d" "50 \<le> d" using \<open>0 \<le> \<lfloor>?y\<rfloor>\<close> by simp_all
  with r(1) d(1) assms(2) show ?thesis by (auto simp: f64_sub_def f64_clamp_def cmp_linorder_def)
qed


text \<open>
  C21. Eviction is live: whenever some query is inactive, the delay computed for the eviction
  timer lies between the hysteresis and the greatest time-to-live, and once the clock has advanced
  by that delay some query has expired, so the timer never fires too early to evict one.
\<close>

theorem eviction_timer_liveness:
  assumes "parses_ints pf" "\<forall>(h, q) \<in> set (queries v). query_past c q"
    and "ttl_clk v = TtlClock (F_Fin (of_int c))" "0 \<le> c" "c < 2 ^ 51"
    and "schedule_expire_eviction_delay pf v = Some (Some delay)"
  shows "\<exists>d. delay = F_Fin d \<and> 50 \<le> d \<and> d \<le> 600000 \<and>
    (\<forall>t \<ge> of_int c + d. has_expired_queries pf (TtlClock (F_Fin t)) (map snd (queries v)))"
proof -
  let ?es = "collect_inactive pf (queries v)"
  have ok: "list_all (\<lambda>(h, q). query_clocks_ok q) (queries v)"
    using assms(2) query_past_clocks by (fastforce simp: list_all_iff)
  then have es: "list_all entry_ok ?es" using collect_inactive_expired [OF assms(1)] by blast
  obtain n where n: "next_loop None (isort_by cmp_inactive ?es) = Some n"
    and delay: "delay = f64_clamp 50 600000 (f64_add (f64_sub n (F_Fin (of_int c))) (F_Fin 50))"
    using assms(3,6) get_inactive_queries_total [OF es]
    by (auto simp: schedule_expire_eviction_delay_def next_eviction_time_def ttl_timer_hysteresis_def)
  then obtain e where e: "e \<in> set ?es" "n = expiry e" using next_loop_member [OF n] by auto
  have "entry_ok e" using es e(1) by (simp add: list_all_iff)
  then obtain x where x: "n = F_Fin x" "0 \<le> x" "x \<le> of_int c + 600000"
    using expiry_bounds [OF _ collect_inactive_at [OF assms(2) e(1)] assms(5)] e(2) by blast
  obtain d where d: "delay = F_Fin d" "50 \<le> d" "d \<le> 600000" "x \<le> of_int c + d"
    using delay_reaches [OF x(2,3) assms(4,5)] delay x(1) by auto
  have "has_expired_queries pf (TtlClock (F_Fin t)) (map snd (queries v))" if "of_int c + d \<le> t" for t
    using expired_iff_next_eviction [OF assms(1) ok, of "F_Fin t"] n x(1) d(4) that get_inactive_queries_total [OF es]
    by (auto simp: next_eviction_time_def le_by_def cmp_linorder_def)
  with d show ?thesis by blast
qed

theorem eviction_timer_liveness_witness:
  "\<exists>delay d. schedule_expire_eviction_delay digits_f64 idle_cvr = Some (Some delay) \<and> delay = F_Fin d \<and>
    has_expired_queries digits_f64 (TtlClock (F_Fin (1000 + d))) (map snd (queries idle_cvr))"
proof -
  have s: "schedule_expire_eviction_delay digits_f64 idle_cvr = Some (Some (F_Fin 550))" by code_simp
  have "\<forall>(h, q) \<in> set (queries idle_cvr). query_past 1000 q"
    by (auto simp: idle_cvr_def idle_query_def query_past_def past_clock_def new_base_def intro!: exI [of _ 1000])
  from eviction_timer_liveness [OF digits_f64_ints this _ _ _ s]
  have "\<exists>d. F_Fin 550 = F_Fin d \<and> 50 \<le> d \<and> d \<le> 600000 \<and>
      (\<forall>t \<ge> of_int 1000 + d. has_expired_queries digits_f64 (TtlClock (F_Fin t)) (map snd (queries idle_cvr)))"
    by (simp add: idle_cvr_def)
  with s show ?thesis by auto
qed

end
