(* ===== verification/Limiter.thy ===== *)
theory Limiter
  imports F64_Round Ttl "HOL-Library.AList"
begin

text \<open>
  The sliding-window rate limiters: the one the server uses for the mutations of a client group
  (\<open>zero-cache-mutagen/src/sliding_window_limiter.rs\<close>, \<open>zero-cache-server/src/mutation_rate_limit.rs\<close>)
  and the port of the same class in \<open>zero-cache-services/src/sliding_window_limiter.rs\<close>. Time is
  an \<open>i64\<close> and counts are \<open>u64\<close> values converted to doubles, with their rounding; the clock is an argument.
\<close>

section \<open>The limiter of the mutagen crate\<close>

record window =
  win_start :: int
  win_count :: nat

record limiter =
  window_size_ms :: int
  max_mutations :: nat
  windows :: "(window \<times> window) option"

definition limiter_new :: "int \<Rightarrow> nat \<Rightarrow> limiter option" where
  "limiter_new w m =
     do {
       assert_ok (0 < w);
       Some \<lparr>window_size_ms = w, max_mutations = m, windows = None\<rparr>
     }"

definition new_windows :: "int \<Rightarrow> int \<Rightarrow> window \<times> window" where
  "new_windows w now_ms =
     (let start = i64_sub now_ms (now_ms mod w)
      in (\<lparr>win_start = start, win_count = 0\<rparr>, \<lparr>win_start = i64_add start w, win_count = 0\<rparr>))"

definition total_calls :: "int \<Rightarrow> window \<Rightarrow> window \<Rightarrow> int \<Rightarrow> f64" where
  "total_calls w prior next now_ms =
     (let fraction =
        (if now_ms < i64_add (win_start prior) w then F_Fin 1
         else f64_clamp 0 1
           (f64_div (f64_of_i64 (i64_sub (i64_add (win_start prior) (i64_sub w 1)) (i64_sub now_ms w)))
             (f64_of_i64 w)))
      in f64_add (f64_mul (f64_of_usize (win_count prior)) fraction) (f64_of_usize (win_count next)))"

definition shift_windows :: "int \<Rightarrow> int \<Rightarrow> window \<times> window \<Rightarrow> window \<times> window" where
  "shift_windows w now_ms pn =
     (let (prior, next) = pn;
          (prior, next) = (if i64_sub now_ms w > i64_add (win_start next) w
             then new_windows w now_ms else (prior, next))
      in if i64_sub now_ms w \<ge> win_start next
         then (next, \<lparr>win_start = i64_add (win_start next) w, win_count = 0\<rparr>)
         else (prior, next))"

definition can_do :: "limiter \<Rightarrow> int \<Rightarrow> limiter \<times> bool" where
  "can_do l now_ms =
     (let w = window_size_ms l;
          pn = (case windows l of Some pn \<Rightarrow> pn | None \<Rightarrow> new_windows w now_ms);
          (prior, next) = shift_windows w now_ms pn;
          allowed = f64_lt (total_calls w prior next now_ms) (f64_of_usize (max_mutations l));
          (prior, next) =
            (if allowed then
               (if now_ms < win_start next
                then (prior\<lparr>win_count := usize_add (win_count prior) 1\<rparr>, next)
                else (prior, next\<lparr>win_count := usize_add (win_count next) 1\<rparr>))
             else (prior, next))
      in (l\<lparr>windows := Some (prior, next)\<rparr>, allowed))"

definition total_calls_for_time :: "limiter \<Rightarrow> int \<Rightarrow> f64" where
  "total_calls_for_time l now_ms =
     (case windows l of
        Some (prior, next) \<Rightarrow> total_calls (window_size_ms l) prior next now_ms
      | None \<Rightarrow> F_Fin 0)"

fun can_do_all :: "limiter \<Rightarrow> int list \<Rightarrow> limiter \<times> bool list" where
  "can_do_all l [] = (l, [])"
| "can_do_all l (t # ts) =
     (let (l', b) = can_do l t; (l'', bs) = can_do_all l' ts in (l'', b # bs))"

section \<open>One limiter per client group\<close>

record limiters =
  lims_max :: nat
  lims_window_ms :: int
  per_group :: "(string \<times> limiter) list"

definition rate_limit_init :: "limiters option option \<Rightarrow> nat option \<Rightarrow> nat \<Rightarrow> limiters option option" where
  "rate_limit_init cell m window_ms =
     (case cell of
        Some _ \<Rightarrow> cell
      | None \<Rightarrow> Some (map_option (\<lambda>m. \<lparr>lims_max = m, lims_window_ms = wrap_i64 (int window_ms), per_group = []\<rparr>) m))"

definition rate_limit_can_do ::
  "limiters option option \<Rightarrow> string \<Rightarrow> int \<Rightarrow> (limiters option option \<times> bool) option" where
  "rate_limit_can_do cell client_group_id now_ms =
     (case cell of
        Some (Some ls) \<Rightarrow>
          do {
            l \<leftarrow> (case map_of (per_group ls) client_group_id of
                    Some l \<Rightarrow> Some l
                  | None \<Rightarrow> limiter_new (lims_window_ms ls) (lims_max ls));
            let (l', b) = can_do l now_ms;
            Some (Some (Some (ls\<lparr>per_group := AList.update client_group_id l' (per_group ls)\<rparr>)), b)
          }
      | _ \<Rightarrow> Some (cell, True))"

section \<open>The limiter of the services crate\<close>

record svc_window =
  sw_start :: int
  sw_count :: int

record svc_limiter =
  svc_window_size_ms :: int
  svc_max_mutations :: int
  prior_window :: svc_window
  next_window :: svc_window

definition svc_new_windows :: "int \<Rightarrow> int \<Rightarrow> svc_window \<times> svc_window" where
  "svc_new_windows w now =
     (let start = i64_sub now (now mod w)
      in (\<lparr>sw_start = start, sw_count = 0\<rparr>, \<lparr>sw_start = i64_add start w, sw_count = 0\<rparr>))"

definition svc_limiter_new :: "int \<Rightarrow> int \<Rightarrow> int \<Rightarrow> svc_limiter" where
  "svc_limiter_new w m now =
     \<lparr>svc_window_size_ms = w, svc_max_mutations = m,
      prior_window = fst (svc_new_windows w now), next_window = snd (svc_new_windows w now)\<rparr>"

definition rotate_windows :: "svc_limiter \<Rightarrow> svc_limiter" where
  "rotate_windows l =
     l\<lparr>prior_window := next_window l,
       next_window := \<lparr>sw_start = i64_add (sw_start (next_window l)) (svc_window_size_ms l), sw_count = 0\<rparr>\<rparr>"

definition svc_total_calls_for_time :: "svc_limiter \<Rightarrow> int \<Rightarrow> f64 option" where
  "svc_total_calls_for_time l now =
     (let w = svc_window_size_ms l;
          fraction = (if now < i64_add (sw_start (prior_window l)) w then F_Fin 1
            else f64_div (f64_of_i64 (i64_sub (i64_add (sw_start (prior_window l)) (i64_sub w 1)) (i64_sub now w)))
              (f64_of_i64 w));
          fraction = (if f64_lt fraction (F_Fin 0) then F_Fin 0 else fraction)
      in do {
           assert_ok (le_by f64_partial_cmp fraction (F_Fin 1));
           Some (f64_add (f64_mul (f64_of_i64 (sw_count (prior_window l))) fraction)
             (f64_of_i64 (sw_count (next_window l))))
         })"

definition svc_can_do :: "svc_limiter \<Rightarrow> int \<Rightarrow> (svc_limiter \<times> bool) option" where
  "svc_can_do l now =
     (let w = svc_window_size_ms l;
          l = (if i64_sub now w > i64_add (sw_start (next_window l)) w
               then l\<lparr>prior_window := fst (svc_new_windows w now), next_window := snd (svc_new_windows w now)\<rparr>
               else l);
          l = (if i64_sub now w \<ge> sw_start (next_window l) then rotate_windows l else l)
      in do {
           total \<leftarrow> svc_total_calls_for_time l now;
           let allowed = f64_lt total (f64_of_i64 (svc_max_mutations l));
           Some (if allowed then
               (if now < sw_start (next_window l)
                then l\<lparr>prior_window := (prior_window l)\<lparr>sw_count := i64_add (sw_count (prior_window l)) 1\<rparr>\<rparr>
                else l\<lparr>next_window := (next_window l)\<lparr>sw_count := i64_add (sw_count (next_window l)) 1\<rparr>\<rparr>)
             else l, allowed)
         })"

fun svc_can_do_all :: "svc_limiter \<Rightarrow> int list \<Rightarrow> (svc_limiter \<times> bool list) option" where
  "svc_can_do_all l [] = Some (l, [])"
| "svc_can_do_all l (t # ts) =
     do { (l', b) \<leftarrow> svc_can_do l t; (l'', bs) \<leftarrow> svc_can_do_all l' ts; Some (l'', b # bs) }"


section \<open>Bounds\<close>

lemma f64_round_below:
  assumes "0 \<le> q" "q \<le> of_nat n" "n < 2 ^ 53"
  shows "\<exists>m. f64_round q = F_Fin m \<and> 0 \<le> m \<and> m \<le> of_nat n"
proof -
  have "f64_round (of_int (int n)) = F_Fin (of_int (int n))" using assms(3) by (intro f64_round_int) simp
  then have n: "f64_round (of_nat n) = F_Fin (of_nat n)" by simp
  have "f64_round 0 = F_Fin 0" by (simp add: f64_round_def)
  then show ?thesis
    using f64_round_mono [OF assms(1,2)] f64_round_mono [of 0 q] assms(1) n
    by (cases "f64_round q") (auto simp: le_by_def cmp_linorder_def split: if_splits)
qed

lemma f64_round_above:
  assumes "of_nat n \<le> q" "n < 2 ^ 53" "f64_lt (f64_round q) (F_Fin (of_nat k))"
  shows "n < k"
proof -
  have "f64_round (of_int (int n)) = F_Fin (of_int (int n))" using assms(2) by (intro f64_round_int) simp
  then have n: "f64_round (of_nat n) = F_Fin (of_nat n)" by simp
  have "le_by f64_partial_cmp (F_Fin (of_nat n)) (f64_round q)"
    using f64_round_mono [of "of_nat n" q] assms(1) n by simp
  with assms(3) show ?thesis
    by (cases "f64_round q") (auto simp: le_by_def f64_lt_def cmp_linorder_def split: if_splits)
qed

lemma f64_clamp_unit:
  assumes "x \<noteq> F_NaN"
  shows "\<exists>f. f64_clamp 0 1 x = F_Fin f \<and> 0 \<le> f \<and> f \<le> 1"
  using assms by (cases x) (auto simp: f64_clamp_def)

lemma f64_round_not_nan: "f64_round q \<noteq> F_NaN"
  by (simp add: f64_round_def Let_def)

lemma f64_of_usize_small: "n < 2 ^ 53 \<Longrightarrow> f64_of_usize n = F_Fin (of_nat n)"
  by (simp add: f64_of_usize_def)

lemma f64_of_i64_fin: "\<exists>q. f64_of_i64 i = F_Fin q"
  by (auto simp: f64_of_i64_def f64_of_usize_def Let_def)

lemma f64_div_not_nan:
  assumes "0 < w" "w < 2 ^ 53"
  shows "f64_div (f64_of_i64 i) (f64_of_i64 w) \<noteq> F_NaN"
  using f64_of_i64_fin [of i] f64_of_i64_small [of w] assms f64_round_not_nan by auto

text \<open>
  The limiter's invariant: the two windows are adjacent, lie where \<open>i64\<close> arithmetic on them cannot
  wrap around, and neither of them holds more than the permitted number of calls.
\<close>

fun windows_ok :: "int \<Rightarrow> nat \<Rightarrow> window \<times> window \<Rightarrow> bool" where
  "windows_ok w m (prior, next) \<longleftrightarrow>
     win_start next = win_start prior + w \<and> - (2 ^ 61) < win_start prior \<and> win_start prior < 2 ^ 60 \<and>
     win_count prior \<le> m \<and> win_count next \<le> m"

definition limiter_ok :: "limiter \<Rightarrow> bool" where
  "limiter_ok l \<longleftrightarrow> 0 < window_size_ms l \<and> window_size_ms l < 2 ^ 53 \<and> max_mutations l < 2 ^ 53 \<and>
     (case windows l of None \<Rightarrow> True | Some pn \<Rightarrow> windows_ok (window_size_ms l) (max_mutations l) pn)"

definition clock_ok :: "int \<Rightarrow> bool" where
  "clock_ok t \<longleftrightarrow> - (2 ^ 60) < t \<and> t < 2 ^ 60"

lemma new_windows_ok:
  assumes "0 < w" "w < 2 ^ 53" "clock_ok t"
  shows "windows_ok w m (new_windows w t)"
proof -
  have "0 \<le> t mod w" "t mod w < w" using assms by simp_all
  with assms show ?thesis by (simp add: new_windows_def Let_def clock_ok_def)
qed

lemma shift_windows_ok:
  assumes "0 < w" "w < 2 ^ 53" "clock_ok t" "windows_ok w m pn"
  shows "windows_ok w m (shift_windows w t pn)"
proof -
  obtain p n where pn: "pn = (p, n)" by force
  obtain p' n' where pn': "(if i64_sub t w > i64_add (win_start n) w then new_windows w t else (p, n)) = (p', n')"
    by force
  have ok': "windows_ok w m (p', n')"
    using new_windows_ok [OF assms(1-3), of m] assms(4) pn pn' by (auto split: if_splits)
  have t: "i64_sub t w = t - w" using assms by (simp add: clock_ok_def)
  show ?thesis
  proof (cases "t - w \<ge> win_start n'")
    case True
    then have "win_start n' < 2 ^ 60" "i64_add (win_start n') w = win_start n' + w"
      using assms ok' by (simp_all add: clock_ok_def)
    with True ok' pn pn' t assms(1) show ?thesis by (simp add: shift_windows_def Let_def)
  next
    case False
    with ok' pn pn' t show ?thesis by (simp add: shift_windows_def Let_def)
  qed
qed

lemma total_calls_lower:
  assumes w: "0 < w" "w < 2 ^ 53" and ok: "windows_ok w m (p, n)" and m: "m < 2 ^ 53"
    and lt: "f64_lt (total_calls w p n t) (F_Fin (of_nat k))"
  shows "win_count n < k" "t < win_start n \<Longrightarrow> win_count p < k"
proof -
  have c: "win_count p < 2 ^ 53" "win_count n < 2 ^ 53" using ok m by auto
  obtain f where f: "(if t < i64_add (win_start p) w then F_Fin 1
      else f64_clamp 0 1 (f64_div (f64_of_i64 (i64_sub (i64_add (win_start p) (i64_sub w 1)) (i64_sub t w))) (f64_of_i64 w)))
      = F_Fin f" "0 \<le> f" "f \<le> 1"
    using f64_clamp_unit [OF f64_div_not_nan [OF w]] by (cases "t < i64_add (win_start p) w") auto
  have "of_nat (win_count p) * f \<le> of_nat (win_count p)"
    using mult_left_mono [OF f(3), of "of_nat (win_count p)"] by simp
  then obtain x where x: "f64_round (of_nat (win_count p) * f) = F_Fin x" "0 \<le> x"
    using f64_round_below [OF _ _ c(1), of "of_nat (win_count p) * f"] f(2) by auto
  have tot: "total_calls w p n t = f64_round (x + of_nat (win_count n))"
    using c f(1) x by (simp add: total_calls_def Let_def f64_of_usize_small)
  show "win_count n < k"
    using f64_round_above [OF _ c(2) lt [unfolded tot]] x(2) by simp
  show "win_count p < k" if "t < win_start n"
  proof -
    have "i64_add (win_start p) w = win_start n" using ok w by simp
    with f that have "f = 1" by simp
    then have "x = of_nat (win_count p)" using x(1) f64_round_int [of "int (win_count p)"] c(1) by simp
    then show ?thesis using f64_round_above [OF _ c(1) lt [unfolded tot]] by simp
  qed
qed


lemma can_do_windows:
  assumes l: "limiter_ok l" and t: "clock_ok t"
  shows "\<exists>p n. windows (fst (can_do l t)) = Some (p, n) \<and> windows_ok (window_size_ms l) (max_mutations l) (p, n)"
proof -
  let ?w = "window_size_ms l" and ?m = "max_mutations l"
  let ?pn = "case windows l of Some pn \<Rightarrow> pn | None \<Rightarrow> new_windows ?w t"
  have w: "0 < ?w" "?w < 2 ^ 53" and m: "?m < 2 ^ 53" using l by (simp_all add: limiter_ok_def)
  have "windows_ok ?w ?m ?pn"
    using new_windows_ok [OF w t] l by (cases "windows l") (simp_all add: limiter_ok_def)
  then have ok: "windows_ok ?w ?m (shift_windows ?w t ?pn)" by (rule shift_windows_ok [OF w t])
  obtain p n where pn: "shift_windows ?w t ?pn = (p, n)" by force
  let ?a = "f64_lt (total_calls ?w p n t) (f64_of_usize ?m)"
  have res: "windows (fst (can_do l t)) = Some (if ?a then (if t < win_start n
        then (p\<lparr>win_count := usize_add (win_count p) 1\<rparr>, n) else (p, n\<lparr>win_count := usize_add (win_count n) 1\<rparr>))
      else (p, n))"
    by (simp add: can_do_def Let_def pn)
  have low: "win_count n < ?m" "t < win_start n \<Longrightarrow> win_count p < ?m" if ?a
    using total_calls_lower [OF w ok [unfolded pn] m, of t ?m] that m by (simp_all add: f64_of_usize_small)
  have "usize_add c 1 = Suc c" if "c < ?m" for c using that m by (simp add: usize_add_def)
  with ok pn low res show ?thesis by (cases ?a; cases "t < win_start n") auto
qed

lemma can_do_ok: "limiter_ok l \<Longrightarrow> clock_ok t \<Longrightarrow> limiter_ok (fst (can_do l t))"
  using can_do_windows [of l t] by (auto simp: limiter_ok_def can_do_def Let_def split: prod.splits)

lemma can_do_all_Cons: "fst (can_do_all l (t # ts)) = fst (can_do_all (fst (can_do l t)) ts)"
  by (simp add: Let_def case_prod_beta)

lemma can_do_all_ok: "limiter_ok l \<Longrightarrow> list_all clock_ok ts \<Longrightarrow> limiter_ok (fst (can_do_all l ts))"
proof (induction ts arbitrary: l)
  case (Cons t ts)
  then show ?case unfolding can_do_all_Cons by (simp add: can_do_ok)
qed simp

lemma can_do_params [simp]:
  "window_size_ms (fst (can_do l t)) = window_size_ms l" "max_mutations (fst (can_do l t)) = max_mutations l"
  by (simp_all add: can_do_def Let_def split: prod.splits)

lemma can_do_all_params:
  "window_size_ms (fst (can_do_all l ts)) = window_size_ms l \<and> max_mutations (fst (can_do_all l ts)) = max_mutations l"
proof (induction ts arbitrary: l)
  case (Cons t ts)
  show ?case using Cons [of "fst (can_do l t)"] unfolding can_do_all_Cons by simp
qed simp



text \<open>
  A call that arrives exactly two window lengths after the start of the next window is
  recorded in the window before its own, because the code starts fresh windows only when the
  trailing window lies strictly past that point. Calls of one and the same millisecond are then
  split over two windows, and a limiter for two calls grants three of them, where one without a
  previous call grants two.
\<close>

theorem limiter_boundary_overshoot:
  "map_option (\<lambda>l. snd (can_do_all l [0, 30, 30, 30, 30])) (limiter_new 10 2) =
     Some [True, True, True, True, False] \<and>
   map_option (\<lambda>l. snd (can_do_all l [30, 30, 30, 30])) (limiter_new 10 2) =
     Some [True, True, False, False] \<and>
   map_option snd (svc_can_do_all (svc_limiter_new 10 2 0) [30, 30, 30, 30]) =
     Some [True, True, True, False]"
  by (intro conjI) code_simp+

end
