(* ===== verification/Query_Semantics.thy ===== *)
theory Query_Semantics
  imports Zql_Predicate Ivm_Operator Machine
begin

text \<open>
  The meaning of a query on a database \<open>db\<close> (the rows of each table), against which the covering
  test and the read authorizer are verified: the rows that satisfy its condition, sorted, from its
  start bound on, up to its limit. A correlated condition holds when its subquery, run for the
  parent row, has a row. \<open>K\<close> selects the child rows of a parent.
\<close>

section \<open>Sizes of syntax trees\<close>

lemma csq_size: "size (subquery r) < size r"
  by (cases r) simp

lemma ast_where_size: "ast_where q = Some c \<Longrightarrow> size c < size q"
  by (cases q) simp

lemma related_size: "related q = Some rs \<Longrightarrow> r \<in> set rs \<Longrightarrow> size (subquery r) < size q"
  using csq_size [of r] size_list_estimation' [of r rs "size r" size] by (cases q) fastforce

lemma member_size: "c \<in> set cs \<Longrightarrow> size c < Suc (size_list size cs)"
  using size_list_estimation' [of c cs "size c" size] by simp

section \<open>The rows of a query\<close>

type_synonym database = "string option \<Rightarrow> string \<Rightarrow> row list"

definition correlated :: "correlation \<Rightarrow> row \<Rightarrow> row \<Rightarrow> bool" where
  "correlated corr parent child \<longleftrightarrow>
     list_all (\<lambda>(p, c). values_equal (get parent p) (get child c)) (zip (parent_field corr) (child_field corr))"

definition bound_allows :: "sort_order \<Rightarrow> ast_bound option \<Rightarrow> row \<Rightarrow> bool" where
  "bound_allows order b r =
     (case b of
        None \<Rightarrow> True
      | Some b \<Rightarrow>
          (case ab_row b of
             JObject entries \<Rightarrow>
               in_start order False (Some \<lparr>start_row = entries, basis = (if ab_exclusive b then After else At)\<rparr>) r
           | _ \<Rightarrow> True))"

definition limit_rows :: "f64 option \<Rightarrow> row list \<Rightarrow> row list" where
  "limit_rows lmt rs = (case lmt of None \<Rightarrow> rs | Some n \<Rightarrow> take (usize_of_f64 n) rs)"

definition window_rows :: "ast \<Rightarrow> row list \<Rightarrow> row list" where
  "window_rows q rs =
     (let order = (case order_by q of None \<Rightarrow> [] | Some ord \<Rightarrow> ord)
      in limit_rows (ast_limit q)
           (filter (bound_allows order (ast_start q)) (isort_by (make_comparator order False) rs)))"

function (sequential) query_rows :: "'b like_lib_scheme \<Rightarrow> database \<Rightarrow> (row \<Rightarrow> bool) \<Rightarrow> ast \<Rightarrow> row list"
  and cond_true :: "'b like_lib_scheme \<Rightarrow> database \<Rightarrow> row \<Rightarrow> condition \<Rightarrow> bool" where
  "query_rows L db K q =
     window_rows q (filter (\<lambda>r. K r \<and> (case ast_where q of None \<Rightarrow> True | Some c \<Rightarrow> cond_true L db r c))
       (db (ast_schema q) (ast_table q)))"
| "cond_true L db r (And cs) \<longleftrightarrow> list_all (\<lambda>c. cond_true L db r c) cs"
| "cond_true L db r (Or cs) \<longleftrightarrow> list_ex (\<lambda>c. cond_true L db r c) cs"
| "cond_true L db r (Correlated rel oper f s p) \<longleftrightarrow>
     (query_rows L db (correlated (csq_correlation rel) r) (subquery rel) \<noteq> []) = (oper = Exists)"
| "cond_true L db r (Simple oper l u) \<longleftrightarrow> leaf_true L (\<lambda>_ _. None) r (Simple oper l u)"
  by pat_completeness auto
termination
  by (relation "measure (case_sum (\<lambda>(L, db, K, q). size q) (\<lambda>(L, db, r, c). size c))")
    (auto simp: ast_where_size csq_size member_size less_SucI)

declare query_rows.simps [simp del]

definition where_true :: "'b like_lib_scheme \<Rightarrow> database \<Rightarrow> ast \<Rightarrow> row \<Rightarrow> bool" where
  "where_true L db q r = (case ast_where q of None \<Rightarrow> True | Some c \<Rightarrow> cond_true L db r c)"

lemma query_rows_where:
  "query_rows L db K q = window_rows q (filter (\<lambda>r. K r \<and> where_true L db q r) (db (ast_schema q) (ast_table q)))"
  by (simp add: query_rows.simps where_true_def)

lemma query_rows_source:
  "r \<in> set (query_rows L db K q) \<Longrightarrow> K r \<and> where_true L db q r \<and> r \<in> set (db (ast_schema q) (ast_table q))"
  by (auto simp: query_rows_where window_rows_def limit_rows_def Let_def split: option.splits dest!: in_set_takeD)

end
