(* ===== verification/Query_Covering.thy ===== *)
theory Query_Covering
  imports Query_Semantics "HOL-Library.AList"
begin

text \<open>
  Query covering (\<open>zero-cache-view-syncer/src/query_covering.rs\<close>): a conservative test that every
  row of one query is a row of another, and the index of running queries it is used with. The test
  is shown sound against the meaning of a query on a database, nested \<open>EXISTS\<close> and \<open>NOT EXISTS\<close>
  conditions, start bounds and limits included. A \<open>HashMap\<close> is an association list updated with
  \<open>AList.update\<close>; the code iterates it in an unspecified order.
\<close>

section \<open>Equality of queries\<close>

text \<open>
  The derived \<open>PartialEq\<close> of the syntax tree compares numbers as doubles, so a not-a-number is not
  equal to itself. A literal is compared like the JSON value it denotes.
\<close>

definition literal_eq :: "literal_value \<Rightarrow> literal_value \<Rightarrow> bool" where
  "literal_eq a b = json_eq (literal_to_value a) (literal_to_value b)"

fun position_eq :: "value_position \<Rightarrow> value_position \<Rightarrow> bool" where
  "position_eq (VLiteral a) (VLiteral b) = literal_eq a b"
| "position_eq (VColumn a) (VColumn b) = (a = b)"
| "position_eq (VParameter a) (VParameter b) = json_eq a b"
| "position_eq _ _ = False"

fun opt_eq :: "('a \<Rightarrow> 'a \<Rightarrow> bool) \<Rightarrow> 'a option \<Rightarrow> 'a option \<Rightarrow> bool" where
  "opt_eq eq None None = True"
| "opt_eq eq (Some a) (Some b) = eq a b"
| "opt_eq eq _ _ = False"

definition bound_eq :: "ast_bound \<Rightarrow> ast_bound \<Rightarrow> bool" where
  "bound_eq a b \<longleftrightarrow> json_eq (ab_row a) (ab_row b) \<and> ab_exclusive a = ab_exclusive b"

fun condition_eq :: "condition \<Rightarrow> condition \<Rightarrow> bool"
  and conditions_eq :: "condition list \<Rightarrow> condition list \<Rightarrow> bool"
  and subquery_eq :: "correlated_subquery \<Rightarrow> correlated_subquery \<Rightarrow> bool"
  and subqueries_eq :: "correlated_subquery list \<Rightarrow> correlated_subquery list \<Rightarrow> bool"
  and ast_eq :: "ast \<Rightarrow> ast \<Rightarrow> bool" where
  "condition_eq (Simple o1 l1 r1) (Simple o2 l2 r2) = (o1 = o2 \<and> position_eq l1 l2 \<and> position_eq r1 r2)"
| "condition_eq (And cs) (And ds) = conditions_eq cs ds"
| "condition_eq (Or cs) (Or ds) = conditions_eq cs ds"
| "condition_eq (Correlated r1 o1 f1 s1 p1) (Correlated r2 o2 f2 s2 p2) =
     (subquery_eq r1 r2 \<and> o1 = o2 \<and> f1 = f2 \<and> s1 = s2 \<and> p1 = p2)"
| "condition_eq _ _ = False"
| "conditions_eq [] [] = True"
| "conditions_eq (c # cs) (d # ds) = (condition_eq c d \<and> conditions_eq cs ds)"
| "conditions_eq _ _ = False"
| "subquery_eq (Subquery c1 q1 s1 h1) (Subquery c2 q2 s2 h2) = (c1 = c2 \<and> ast_eq q1 q2 \<and> s1 = s2 \<and> h1 = h2)"
| "subqueries_eq [] [] = True"
| "subqueries_eq (c # cs) (d # ds) = (subquery_eq c d \<and> subqueries_eq cs ds)"
| "subqueries_eq _ _ = False"
| "ast_eq (Ast sc1 t1 a1 w1 r1 st1 l1 o1) (Ast sc2 t2 a2 w2 r2 st2 l2 o2) =
     (sc1 = sc2 \<and> t1 = t2 \<and> a1 = a2 \<and>
      (case w1 of None \<Rightarrow> w2 = None | Some c \<Rightarrow> (case w2 of None \<Rightarrow> False | Some d \<Rightarrow> condition_eq c d)) \<and>
      (case r1 of None \<Rightarrow> r2 = None | Some c \<Rightarrow> (case r2 of None \<Rightarrow> False | Some d \<Rightarrow> subqueries_eq c d)) \<and>
      opt_eq bound_eq st1 st2 \<and> opt_eq f64_eq l1 l2 \<and> o1 = o2)"

section \<open>Simple conditions\<close>

fun column_literal :: "value_position \<Rightarrow> value_position \<Rightarrow> (string \<times> literal_value) option" where
  "column_literal (VColumn c) (VLiteral v) = Some (c, v)"
| "column_literal _ _ = None"

definition is_equality_op :: "simple_operator \<Rightarrow> bool" where
  "is_equality_op oper \<longleftrightarrow> oper = OpEq \<or> oper = OpIs"

definition is_numeric_order_op :: "simple_operator \<Rightarrow> bool" where
  "is_numeric_order_op oper \<longleftrightarrow> oper = OpLt \<or> oper = OpGt \<or> oper = OpLe \<or> oper = OpGe"

fun is_non_null_scalar :: "literal_value \<Rightarrow> bool" where
  "is_non_null_scalar LitNull = False"
| "is_non_null_scalar (LitArray _) = False"
| "is_non_null_scalar _ = True"

definition literal_array_includes :: "literal_value list \<Rightarrow> literal_value \<Rightarrow> bool" where
  "literal_array_includes vs v = list_ex (\<lambda>w. literal_eq w v) vs"

fun num_cmp :: "literal_value \<Rightarrow> literal_value \<Rightarrow> (f64 \<Rightarrow> f64 \<Rightarrow> bool) \<Rightarrow> bool" where
  "num_cmp (LitNumber a) (LitNumber b) cmp = cmp a b"
| "num_cmp _ _ cmp = False"

text \<open>The comparison operators of doubles are false when an operand is a not-a-number.\<close>

definition f_lt :: "f64 \<Rightarrow> f64 \<Rightarrow> bool" where
  "f_lt a b \<longleftrightarrow> f64_partial_cmp a b = Some Less"

definition f_le :: "f64 \<Rightarrow> f64 \<Rightarrow> bool" where
  "f_le a b \<longleftrightarrow> f64_partial_cmp a b = Some Less \<or> f64_partial_cmp a b = Some Equal"

fun equality_implies :: "literal_value \<Rightarrow> simple_operator \<Rightarrow> literal_value \<Rightarrow> bool" where
  "equality_implies v OpEq w = literal_eq v w"
| "equality_implies v OpIs w = literal_eq v w"
| "equality_implies v OpNe w = (\<not> literal_eq v w)"
| "equality_implies v OpIsNot w = (\<not> literal_eq v w)"
| "equality_implies v OpIn w = (case w of LitArray vs \<Rightarrow> literal_array_includes vs v | _ \<Rightarrow> False)"
| "equality_implies v OpLt w = num_cmp v w f_lt"
| "equality_implies v OpLe w = num_cmp v w f_le"
| "equality_implies v OpGt w = num_cmp v w (\<lambda>a b. f_lt b a)"
| "equality_implies v OpGe w = num_cmp v w (\<lambda>a b. f_le b a)"
| "equality_implies v _ w = False"

definition order_condition_implies ::
  "simple_operator \<Rightarrow> literal_value \<Rightarrow> simple_operator \<Rightarrow> literal_value \<Rightarrow> bool" where
  "order_condition_implies covered_op cv covering_op gv =
     (case (cv, gv) of
        (LitNumber c, LitNumber g) \<Rightarrow>
          (case covered_op of
             OpGt \<Rightarrow> (covering_op = OpGt \<or> covering_op = OpGe) \<and> f_le g c
           | OpGe \<Rightarrow> covering_op = OpGt \<and> f_lt g c \<or> covering_op = OpGe \<and> f_le g c
           | OpLt \<Rightarrow> (covering_op = OpLt \<or> covering_op = OpLe) \<and> f_le c g
           | OpLe \<Rightarrow> covering_op = OpLt \<and> f_lt c g \<or> covering_op = OpLe \<and> f_le c g
           | _ \<Rightarrow> False)
      | _ \<Rightarrow> False)"

text \<open>The two branches of \<open>IN\<close> lists and of order comparisons, tried in this order.\<close>

definition list_or_order_implies ::
  "simple_operator \<Rightarrow> literal_value \<Rightarrow> simple_operator \<Rightarrow> literal_value \<Rightarrow> bool" where
  "list_or_order_implies co cv go gv =
     (case (if co = OpIn \<and> go = OpIn
            then (case (cv, gv) of (LitArray cvs, LitArray gvs) \<Rightarrow> Some (cvs, gvs) | _ \<Rightarrow> None)
            else None) of
        Some (cvs, gvs) \<Rightarrow> list_all (literal_array_includes gvs) cvs
      | None \<Rightarrow>
          if is_numeric_order_op co \<and> is_numeric_order_op go
          then order_condition_implies co cv go gv else False)"

definition simple_condition_implies ::
  "simple_operator \<Rightarrow> value_position \<Rightarrow> value_position \<Rightarrow>
   simple_operator \<Rightarrow> value_position \<Rightarrow> value_position \<Rightarrow> bool" where
  "simple_condition_implies co cl cr go gl gr =
     (case (column_literal cl cr, column_literal gl gr) of
        (Some (cc, cv), Some (gc, gv)) \<Rightarrow>
          if cc \<noteq> gc then False
          else if is_equality_op co \<and> is_non_null_scalar cv then equality_implies cv go gv
          else list_or_order_implies co cv go gv
      | _ \<Rightarrow> False)"


section \<open>Conditions and queries\<close>

definition same_related_edge :: "correlated_subquery \<Rightarrow> correlated_subquery \<Rightarrow> bool" where
  "same_related_edge a b \<longleftrightarrow>
     csq_correlation a = csq_correlation b \<and> csq_hidden a = csq_hidden b \<and> csq_system a = csq_system b \<and>
     ast_alias (subquery a) = ast_alias (subquery b)"

text \<open>
  The \<open>Option\<close> layer of \<open>condition_implies\<close>, and the functions that take the result of a recursive
  call: \<open>R\<close> is the test on conditions or queries.
\<close>

definition opt_implies :: "('a \<Rightarrow> 'a \<Rightarrow> bool) \<Rightarrow> 'a option \<Rightarrow> 'a option \<Rightarrow> bool" where
  "opt_implies R covered covering =
     (case covering of None \<Rightarrow> True | Some g \<Rightarrow> (case covered of None \<Rightarrow> False | Some c \<Rightarrow> R c g))"

definition related_covered_by ::
  "(ast \<Rightarrow> ast \<Rightarrow> bool) \<Rightarrow> correlated_subquery list option \<Rightarrow> correlated_subquery list option \<Rightarrow> bool" where
  "related_covered_by R covered covering =
     (case covered of
        None \<Rightarrow> True
      | Some cs \<Rightarrow>
          if cs = [] then True
          else case covering of
              None \<Rightarrow> False
            | Some gs \<Rightarrow> list_all (\<lambda>c. list_ex (\<lambda>g. same_related_edge c g \<and> R (subquery c) (subquery g)) gs) cs)"

definition bounds_covered_by :: "bool \<Rightarrow> ast \<Rightarrow> ast \<Rightarrow> bool" where
  "bounds_covered_by equivalent covered covering =
     (case ast_limit covering of
        None \<Rightarrow>
          (case ast_start covering of
             None \<Rightarrow> True
           | Some _ \<Rightarrow> opt_eq bound_eq (ast_start covered) (ast_start covering) \<and> order_by covered = order_by covering)
      | Some covering_limit \<Rightarrow>
          (case ast_limit covered of
             None \<Rightarrow> False
           | Some covered_limit \<Rightarrow>
               if f_lt covering_limit covered_limit then False
               else equivalent \<and> opt_eq bound_eq (ast_start covered) (ast_start covering) \<and>
                 order_by covered = order_by covering))"

lemma opt_implies_cong [fundef_cong]:
  assumes "c = c'" "g = g'" "\<And>x y. c' = Some x \<Longrightarrow> g' = Some y \<Longrightarrow> R x y = R' x y"
  shows "opt_implies R c g = opt_implies R' c' g'"
  using assms by (simp add: opt_implies_def split: option.splits)

lemma related_covered_by_cong [fundef_cong]:
  assumes "c = c'" "g = g'"
    "\<And>cs gs x y. c' = Some cs \<Longrightarrow> g' = Some gs \<Longrightarrow> x \<in> set cs \<Longrightarrow> y \<in> set gs \<Longrightarrow>
      R (subquery x) (subquery y) = R' (subquery x) (subquery y)"
  shows "related_covered_by R c g = related_covered_by R' c' g'"
proof -
  have "list_all (\<lambda>c. list_ex (\<lambda>g. same_related_edge c g \<and> R (subquery c) (subquery g)) gs) cs =
      list_all (\<lambda>c. list_ex (\<lambda>g. same_related_edge c g \<and> R' (subquery c) (subquery g)) gs) cs"
    if "c' = Some cs" "g' = Some gs" for cs gs
    using assms(3) [OF that] by (auto simp: list_all_iff list_ex_iff)
  then show ?thesis using assms(1,2) by (simp add: related_covered_by_def split: option.splits)
qed

lemma covering_sizes:
  "ast_where c = Some x \<Longrightarrow> ast_where g = Some y \<Longrightarrow> size x + size y < size c + size g"
  "ast_where c = Some x \<Longrightarrow> ast_where g = Some y \<Longrightarrow> size y + size x < size c + size g"
  "related c = Some cs \<Longrightarrow> related g = Some gs \<Longrightarrow> r \<in> set cs \<Longrightarrow> t \<in> set gs \<Longrightarrow>
   size (subquery r) + size (subquery t) < size c + size g"
  "size (subquery r) + size (subquery t) < Suc (Suc (size r + size t))"
  "size (subquery t) + size (subquery r) < Suc (Suc (size r + size t))"
  using ast_where_size [of c x] ast_where_size [of g y] related_size [of c cs r] related_size [of g gs t]
    csq_size [of r] csq_size [of t] by simp_all

function (sequential) ast_covered_by :: "ast \<Rightarrow> ast \<Rightarrow> bool"
  and condition_implies :: "condition \<Rightarrow> condition \<Rightarrow> bool" where
  "ast_covered_by covered covering \<longleftrightarrow>
     ast_schema covered = ast_schema covering \<and> ast_table covered = ast_table covering \<and>
     ast_alias covered = ast_alias covering \<and>
     opt_implies (\<lambda>c g. condition_implies c g) (ast_where covered) (ast_where covering) \<and>
     related_covered_by (\<lambda>c g. ast_covered_by c g) (related covered) (related covering) \<and>
     bounds_covered_by
       (opt_implies (\<lambda>c g. condition_implies c g) (ast_where covered) (ast_where covering) \<and>
        opt_implies (\<lambda>c g. condition_implies c g) (ast_where covering) (ast_where covered))
       covered covering"
| "condition_implies covered covering \<longleftrightarrow>
     (if condition_eq covered covering then True
      else case covered of
          Or cs \<Rightarrow> list_all (\<lambda>c. condition_implies c covering) cs
        | _ \<Rightarrow>
            (case covering of
               Or gs \<Rightarrow> list_ex (\<lambda>g. condition_implies covered g) gs
             | And gs \<Rightarrow> list_all (\<lambda>g. condition_implies covered g) gs
             | _ \<Rightarrow>
                 (case covered of
                    And cs \<Rightarrow> list_ex (\<lambda>c. condition_implies c covering) cs
                  | Simple co cl cr \<Rightarrow>
                      (case covering of
                         Simple go gl gr \<Rightarrow> simple_condition_implies co cl cr go gl gr
                       | _ \<Rightarrow> False)
                  | Correlated cr co cf cs cp \<Rightarrow>
                      (case covering of
                         Correlated gr go gf gs gp \<Rightarrow>
                           if co \<noteq> go \<or> cs \<noteq> gs \<or> \<not> same_related_edge cr gr then False
                           else if co = Exists then ast_covered_by (subquery cr) (subquery gr)
                           else ast_covered_by (subquery gr) (subquery cr)
                       | _ \<Rightarrow> False)
                  | Or _ \<Rightarrow> False)))"
  by pat_completeness auto
termination
  by (relation "measure (case_sum (\<lambda>(c, g). size c + size g) (\<lambda>(c, g). size c + size g))")
    (auto simp: covering_sizes member_size less_SucI trans_less_add1 trans_less_add2)

declare ast_covered_by.simps [simp del] condition_implies.simps [simp del]


definition is_query_covered_by :: "'a text_lib_scheme \<Rightarrow> ast \<Rightarrow> ast \<Rightarrow> bool option" where
  "is_query_covered_by B covered covering =
     do { c \<leftarrow> normalize_ast B covered; g \<leftarrow> normalize_ast B covering; Some (ast_covered_by c g) }"

section \<open>The index of running queries\<close>

record running_query =
  transformed_ast :: ast
  rq_transformation_hash :: string
  rq_query_name :: "string option"

record covering_query =
  cov_query_id :: string
  cov_transformation_hash :: string
  cov_query_name :: "string option"

record indexed_running_query =
  ix_query :: running_query
  normalized_ast :: ast

text \<open>The code's root key is the debug text of the three fields, from which they can be read back.\<close>

type_synonym covering_root = "string option \<times> string \<times> string option"

definition root_key :: "ast \<Rightarrow> covering_root" where
  "root_key q = (ast_schema q, ast_table q, ast_alias q)"

record covering_index =
  by_root :: "(covering_root \<times> (string \<times> indexed_running_query) list) list"
  query_id_to_root :: "(string \<times> covering_root) list"

definition covering_index_new :: covering_index where
  "covering_index_new = \<lparr>by_root = [], query_id_to_root = []\<rparr>"

definition covering_index_remove :: "covering_index \<Rightarrow> string \<Rightarrow> covering_index" where
  "covering_index_remove ix query_id =
     (case map_of (query_id_to_root ix) query_id of
        None \<Rightarrow> ix
      | Some rt \<Rightarrow>
          (let ix = ix\<lparr>query_id_to_root := AList.delete query_id (query_id_to_root ix)\<rparr>
           in (case map_of (by_root ix) rt of
                 None \<Rightarrow> ix
               | Some qs \<Rightarrow>
                   (let qs' = AList.delete query_id qs
                    in ix\<lparr>by_root := (if qs' = [] then AList.delete rt (by_root ix)
                         else AList.update rt qs' (by_root ix))\<rparr>))))"

definition covering_index_add ::
  "'a text_lib_scheme \<Rightarrow> covering_index \<Rightarrow> string \<Rightarrow> running_query \<Rightarrow> covering_index option" where
  "covering_index_add B ix query_id q =
     do {
       let ix = covering_index_remove ix query_id;
       n \<leftarrow> normalize_ast B (transformed_ast q);
       let rt = root_key n;
       let qs = (case map_of (by_root ix) rt of None \<Rightarrow> [] | Some qs \<Rightarrow> qs);
       Some (ix\<lparr>by_root := AList.update rt
                 (AList.update query_id \<lparr>ix_query = q, normalized_ast = n\<rparr> qs) (by_root ix),
               query_id_to_root := AList.update query_id rt (query_id_to_root ix)\<rparr>)
     }"

fun find_in_root :: "string \<Rightarrow> ast \<Rightarrow> (string \<times> indexed_running_query) list \<Rightarrow> covering_query option" where
  "find_in_root covered_query_id covered [] = None"
| "find_in_root covered_query_id covered ((query_id, indexed) # qs) =
     (if query_id = covered_query_id then find_in_root covered_query_id covered qs
      else if ast_covered_by covered (normalized_ast indexed) then
        Some \<lparr>cov_query_id = query_id, cov_transformation_hash = rq_transformation_hash (ix_query indexed),
              cov_query_name = rq_query_name (ix_query indexed)\<rparr>
      else find_in_root covered_query_id covered qs)"

definition index_find_covering_query ::
  "'a text_lib_scheme \<Rightarrow> covering_index \<Rightarrow> string \<Rightarrow> ast \<Rightarrow> covering_query option option" where
  "index_find_covering_query B ix covered_query_id covered_ast =
     do {
       n \<leftarrow> normalize_ast B covered_ast;
       Some (case map_of (by_root ix) (root_key n) of
           None \<Rightarrow> None
         | Some qs \<Rightarrow> find_in_root covered_query_id n qs)
     }"

fun index_all :: "'a text_lib_scheme \<Rightarrow> covering_index \<Rightarrow> (string \<times> running_query) list \<Rightarrow> covering_index option" where
  "index_all B ix [] = Some ix"
| "index_all B ix ((query_id, q) # qs) = do { ix' \<leftarrow> covering_index_add B ix query_id q; index_all B ix' qs }"

definition find_covering_query ::
  "'a text_lib_scheme \<Rightarrow> string \<Rightarrow> ast \<Rightarrow> (string \<times> running_query) list \<Rightarrow> covering_query option option" where
  "find_covering_query B covered_query_id covered_ast running =
     do { ix \<leftarrow> index_all B covering_index_new running; index_find_covering_query B ix covered_query_id covered_ast }"

record shadow_hit =
  covered_query_hash :: string
  covered_transformation_hash :: string
  covered_query_name :: "string option"
  covering_query_hash :: string
  covering_transformation_hash :: string
  covering_query_name :: "string option"

definition find_query_coverage_shadow_hit ::
  "'a text_lib_scheme \<Rightarrow> covering_index \<Rightarrow> string \<Rightarrow> string \<Rightarrow> ast \<Rightarrow> string option \<Rightarrow> shadow_hit option option" where
  "find_query_coverage_shadow_hit B ix query_id transformation_hash q query_name =
     do {
       covering \<leftarrow> index_find_covering_query B ix query_id q;
       Some (map_option (\<lambda>c.
         \<lparr>covered_query_hash = query_id, covered_transformation_hash = transformation_hash,
          covered_query_name = query_name, covering_query_hash = cov_query_id c,
          covering_transformation_hash = cov_transformation_hash c, covering_query_name = cov_query_name c\<rparr>) covering)
     }"

section \<open>Soundness\<close>

text \<open>
  What the soundness of the test needs: the rows of the database hold no not-a-number, limits are
  numbers, and no condition is a comparison \<open>!= NULL\<close>, which no row satisfies but which the test
  takes for one that every row with another value satisfies.
\<close>

fun cond_wf :: "condition \<Rightarrow> bool" and csq_wf :: "correlated_subquery \<Rightarrow> bool" and ast_wf :: "ast \<Rightarrow> bool" where
  "cond_wf (Simple oper l r) \<longleftrightarrow> \<not> (oper = OpNe \<and> r = VLiteral LitNull)"
| "cond_wf (And cs) \<longleftrightarrow> list_all cond_wf cs"
| "cond_wf (Or cs) \<longleftrightarrow> list_all cond_wf cs"
| "cond_wf (Correlated rel oper f s p) \<longleftrightarrow> csq_wf rel"
| "csq_wf (Subquery corr q sys hid) \<longleftrightarrow> ast_wf q"
| "ast_wf (Ast schema table al w rels st lmt ord) \<longleftrightarrow>
     lmt \<noteq> Some F_NaN \<and> (case w of None \<Rightarrow> True | Some c \<Rightarrow> cond_wf c) \<and>
     (case rels of None \<Rightarrow> True | Some rs \<Rightarrow> list_all csq_wf rs)"

definition row_ok :: "row \<Rightarrow> bool" where
  "row_ok r \<longleftrightarrow> list_all (\<lambda>(k, v). v \<noteq> JNumber F_NaN) r"

definition db_ok :: "database \<Rightarrow> bool" where
  "db_ok db \<longleftrightarrow> (\<forall>schema table. list_all row_ok (db schema table))"

lemma row_ok_get: "row_ok r \<Longrightarrow> get r f \<noteq> JNumber F_NaN"
  by (auto simp: row_ok_def get_def list_all_iff split: option.splits dest!: find_SomeD)

lemma literal_inj:
  "literal_to_value a = literal_to_value b \<Longrightarrow> a = b"
  "literals_to_values as = literals_to_values bs \<Longrightarrow> as = bs"
proof (induction a and as arbitrary: b and bs rule: literal_to_value_literals_to_values.induct)
  case (1 s) then show ?case by (cases b) auto
next
  case (2 n) then show ?case by (cases b) auto
next
  case (3 n) then show ?case by (cases b) auto
next
  case 4 then show ?case by (cases b) auto
next
  case (5 items) then show ?case by (cases b) auto
next
  case 6 then show ?case by (cases bs) auto
next
  case (7 i items) then show ?case by (cases bs) auto
qed

lemma literal_eq_imp_eq: "literal_eq a b \<Longrightarrow> a = b"
  by (simp add: literal_eq_def json_eq_imp_eq literal_inj(1))

lemma position_eq_imp_eq: "position_eq a b \<Longrightarrow> a = b"
  by (cases "(a, b)" rule: position_eq.cases) (auto simp: literal_eq_imp_eq json_eq_imp_eq)

lemma opt_eq_imp_eq: "opt_eq eq a b \<Longrightarrow> (\<And>x y. eq x y \<Longrightarrow> x = y) \<Longrightarrow> a = b"
  by (cases "(eq, a, b)" rule: opt_eq.cases) auto

lemma bound_eq_imp_eq: "bound_eq a b \<Longrightarrow> a = b"
  by (cases a; cases b) (simp add: bound_eq_def json_eq_imp_eq)

lemma opt_bound_eq: "opt_eq bound_eq a b \<Longrightarrow> a = b"
  using opt_eq_imp_eq bound_eq_imp_eq by blast

lemma opt_f64_eq: "opt_eq f64_eq a b \<Longrightarrow> a = b"
  using opt_eq_imp_eq f64_eq_iff by blast

lemma syntax_eq_imp_eq:
  "condition_eq c d \<Longrightarrow> c = d" "conditions_eq cs ds \<Longrightarrow> cs = ds"
  "subquery_eq r t \<Longrightarrow> r = t" "subqueries_eq rs ts \<Longrightarrow> rs = ts" "ast_eq q u \<Longrightarrow> q = u"
  by (induction c d and cs ds and r t and rs ts and q u
      rule: condition_eq_conditions_eq_subquery_eq_subqueries_eq_ast_eq.induct)
    (auto simp: position_eq_imp_eq dest!: opt_bound_eq opt_f64_eq split: option.splits)


lemma literal_null [simp]: "literal_to_value v = JNull \<longleftrightarrow> v = LitNull"
  by (cases v) auto

lemma simple_true:
  "leaf_true L ex r (Simple oper (VColumn c) (VLiteral v)) \<longleftrightarrow>
    (if oper = OpIs then json_eq (get r c) (literal_to_value v)
     else if oper = OpIsNot then \<not> json_eq (get r c) (literal_to_value v)
     else v \<noteq> LitNull \<and> get r c \<noteq> JNull \<and> eval_non_null_op L oper (get r c) (literal_to_value v) = Some True)"
  by (cases "oper = OpIs \<or> oper = OpIsNot")
    (auto simp: leaf_true_def eval_cond_def create_simple_predicate_def Let_def)

lemma column_literal_Some: "column_literal l r = Some (c, v) \<longleftrightarrow> l = VColumn c \<and> r = VLiteral v"
  by (cases "(l, r)" rule: column_literal.cases) auto

lemma compare_number_right:
  "compare_values x (JNumber c) = Some o' \<Longrightarrow> x \<noteq> JNull \<Longrightarrow> \<exists>a. x = JNumber a"
  by (cases x) auto

lemma num_cmp_iff: "num_cmp v w cmp \<longleftrightarrow> (\<exists>a b. v = LitNumber a \<and> w = LitNumber b \<and> cmp a b)"
  by (cases "(v, w, cmp)" rule: num_cmp.cases) auto

lemma in_set_array: "in_set x (JArray (literals_to_values vs)) = Some (list_ex (\<lambda>w. json_eq (literal_to_value w) x) vs)"
proof -
  have "literals_to_values vs = map literal_to_value vs" by (induction vs) auto
  then show ?thesis by (simp add: in_set_def list_ex_iff)
qed

lemma f_lt_cmp: "f_lt a b \<longleftrightarrow> f64_partial_cmp a b = Some Less" "f_lt b a \<longleftrightarrow> f64_partial_cmp a b = Some Greater"
  using f64_partial_cmp_swap [of b a] by (auto simp: f_lt_def)

lemma f_le_cmp:
  "f_le a b \<longleftrightarrow> f64_partial_cmp a b = Some Less \<or> f64_partial_cmp a b = Some Equal"
  "f_le b a \<longleftrightarrow> f64_partial_cmp a b = Some Greater \<or> f64_partial_cmp a b = Some Equal"
  using f64_partial_cmp_swap [of b a] by (auto simp: f_le_def)

lemma equality_implies_sound:
  assumes "equality_implies v go w" "json_eq x (literal_to_value v)" "v \<noteq> LitNull" "\<not> (go = OpNe \<and> w = LitNull)"
    and "get r c = x"
  shows "leaf_true L ex r (Simple go (VColumn c) (VLiteral w))"
proof -
  have x: "x = literal_to_value v" using assms(2) by (rule json_eq_imp_eq)
  show ?thesis
  proof (cases go)
    case OpIn
    with assms(1) obtain vs where "w = LitArray vs" "literal_array_includes vs v" by (cases w) auto
    with OpIn assms x show ?thesis by (simp add: simple_true in_set_array literal_array_includes_def literal_eq_def)
  next
    case OpGt
    with assms(1) obtain a b where "v = LitNumber a" "w = LitNumber b" "f_lt b a" by (auto simp: num_cmp_iff)
    with OpGt assms(5) x show ?thesis by (simp add: simple_true f_lt_cmp(2) [of b a])
  next
    case OpGe
    with assms(1) obtain a b where "v = LitNumber a" "w = LitNumber b" "f_le b a" by (auto simp: num_cmp_iff)
    with OpGe assms(5) x show ?thesis by (auto simp: simple_true f_le_cmp(2) [of b a])
  qed (use assms x in \<open>auto simp: simple_true literal_eq_def num_cmp_iff f_lt_def f_le_def dest: json_eq_imp_eq\<close>)
qed


lemma numbers_true:
  assumes "x \<noteq> F_NaN" "is_numeric_order_op oper" "get r c = JNumber x"
  shows "leaf_true L ex r (Simple oper (VColumn c) (VLiteral (LitNumber a))) \<longleftrightarrow>
    (case f64_partial_cmp x a of
       None \<Rightarrow> oper = OpLe \<or> oper = OpGe
     | Some Less \<Rightarrow> oper = OpLt \<or> oper = OpLe
     | Some Equal \<Rightarrow> oper = OpLe \<or> oper = OpGe
     | Some Greater \<Rightarrow> oper = OpGt \<or> oper = OpGe)"
  using assms by (auto simp: simple_true is_numeric_order_op_def split: option.splits ordering.splits)

lemma order_true_number:
  assumes "leaf_true L ex r (Simple oper (VColumn c) (VLiteral (LitNumber a)))" "is_numeric_order_op oper" "row_ok r"
  shows "\<exists>x. get r c = JNumber x \<and> x \<noteq> F_NaN"
proof -
  have "get r c \<noteq> JNull" "compare_values (get r c) (JNumber a) \<noteq> None"
    using assms(1,2) by (auto simp: simple_true is_numeric_order_op_def)
  then obtain x where "get r c = JNumber x" using compare_number_right by blast
  with row_ok_get [OF assms(3), of c] show ?thesis by auto
qed

lemma order_implies_sound:
  assumes "order_condition_implies co cv go gv" "is_numeric_order_op co" "is_numeric_order_op go" "row_ok r"
    and "leaf_true L ex r (Simple co (VColumn c) (VLiteral cv))"
  shows "leaf_true L ex r (Simple go (VColumn c) (VLiteral gv))"
proof -
  obtain a b where ab: "cv = LitNumber a" "gv = LitNumber b"
    using assms(1) by (auto simp: order_condition_implies_def split: literal_value.splits)
  obtain x where x: "get r c = JNumber x" "x \<noteq> F_NaN"
    using order_true_number assms(2,4,5) ab(1) by blast
  have t: "leaf_true L ex r (Simple co (VColumn c) (VLiteral (LitNumber a)))" using assms(5) ab by simp
  show ?thesis
    using x(2) assms(1) t unfolding ab numbers_true [OF x(2) assms(2) x(1)] numbers_true [OF x(2) assms(3) x(1)]
    by (cases co; cases x; cases a; cases b)
      (auto simp: order_condition_implies_def f_lt_def f_le_def cmp_linorder_def split: if_splits)
qed

lemma simple_implies_sound:
  assumes "simple_condition_implies co cl cr go gl gr" "cond_wf (Simple go gl gr)" "row_ok r"
    and "leaf_true L ex r (Simple co cl cr)"
  shows "leaf_true L ex r (Simple go gl gr)"
proof -
  obtain c cv gv where l: "cl = VColumn c" "cr = VLiteral cv" "gl = VColumn c" "gr = VLiteral gv"
    and imp: "if is_equality_op co \<and> is_non_null_scalar cv then equality_implies cv go gv
        else list_or_order_implies co cv go gv"
    using assms(1) by (auto simp: simple_condition_implies_def column_literal_Some split: option.splits if_splits)
  have t: "leaf_true L ex r (Simple co (VColumn c) (VLiteral cv))" using assms(4) l by simp
  have wf: "\<not> (go = OpNe \<and> gv = LitNull)" using assms(2) l by simp
  show ?thesis
  proof (cases "is_equality_op co \<and> is_non_null_scalar cv")
    case True
    then have "json_eq (get r c) (literal_to_value cv)" "cv \<noteq> LitNull"
      using t by (auto simp: simple_true is_equality_op_def split: if_splits)
    with True imp wf l show ?thesis by (auto intro: equality_implies_sound)
  next
    case False
    with imp have li: "list_or_order_implies co cv go gv" by simp
    show ?thesis
    proof (cases "\<exists>cvs gvs. co = OpIn \<and> go = OpIn \<and> cv = LitArray cvs \<and> gv = LitArray gvs")
      case True
      then obtain cvs gvs where v: "co = OpIn" "go = OpIn" "cv = LitArray cvs" "gv = LitArray gvs" by blast
      with li have inc: "\<forall>v\<in>set cvs. literal_array_includes gvs v" by (simp add: list_or_order_implies_def list_all_iff)
      from t v obtain u where "u \<in> set cvs" "json_eq (literal_to_value u) (get r c)" "get r c \<noteq> JNull"
        by (auto simp: simple_true in_set_array list_ex_iff)
      moreover from this(2) have "literal_to_value u = get r c" by (rule json_eq_imp_eq)
      ultimately show ?thesis
        using bspec [OF inc, of u] v l
        by (simp add: simple_true in_set_array literal_array_includes_def literal_eq_def list_ex_iff)
    next
      case False
      with li have "order_condition_implies co cv go gv" "is_numeric_order_op co" "is_numeric_order_op go"
        by (auto simp: list_or_order_implies_def split: if_splits literal_value.splits option.splits)
      with assms(3) t l show ?thesis by (auto intro: order_implies_sound)
    qed
  qed
qed


section \<open>Soundness of the test\<close>

text \<open>
  One query covers another when it has all its rows, whichever rows of the table the parent row
  selects, and every related query of the covered one is covered by a related query on the same edge.
\<close>

inductive covers :: "'b like_lib_scheme \<Rightarrow> database \<Rightarrow> ast \<Rightarrow> ast \<Rightarrow> bool" for L db where
  coversI: "\<lbrakk>\<And>K. set (query_rows L db K c) \<subseteq> set (query_rows L db K g);
     \<And>cs r. \<lbrakk>related c = Some cs; r \<in> set cs\<rbrakk> \<Longrightarrow>
       \<exists>gs t. related g = Some gs \<and> t \<in> set gs \<and> same_related_edge r t \<and> covers L db (subquery r) (subquery t)\<rbrakk>
    \<Longrightarrow> covers L db c g"

inductive_cases coversE: "covers L db c g"

lemma covers_rows: "covers L db c g \<Longrightarrow> set (query_rows L db K c) \<subseteq> set (query_rows L db K g)"
  by (auto elim: coversE)

lemma ast_wfD:
  "ast_wf q \<Longrightarrow> ast_limit q \<noteq> Some F_NaN"
  "ast_wf q \<Longrightarrow> ast_where q = Some c \<Longrightarrow> cond_wf c"
  "ast_wf q \<Longrightarrow> related q = Some rs \<Longrightarrow> r \<in> set rs \<Longrightarrow> ast_wf (subquery r)"
  by (cases q; cases r; auto simp: list_all_iff)+

lemma csq_wf_iff: "csq_wf r = ast_wf (subquery r)"
  by (cases r) simp

lemma usize_mono: "\<not> f_lt g c \<Longrightarrow> c \<noteq> F_NaN \<Longrightarrow> g \<noteq> F_NaN \<Longrightarrow> usize_of_f64 c \<le> usize_of_f64 g"
  by (cases c; cases g)
    (auto simp: f_lt_def cmp_linorder_def usize_of_f64_def min_def not_less dest: floor_mono split: if_splits)

lemma bound_allows_None: "bound_allows order None r"
  by (simp add: bound_allows_def)

lemma window_rows_mono:
  assumes "bounds_covered_by eqv c g" "ast_wf c" "ast_wf g"
    and "set rs \<subseteq> set ts" "eqv \<Longrightarrow> rs = ts"
  shows "set (window_rows c rs) \<subseteq> set (window_rows g ts)"
proof (cases "ast_limit g")
  case None
  have "set (window_rows c rs) \<subseteq> {r \<in> set rs. bound_allows (case order_by c of None \<Rightarrow> [] | Some ord \<Rightarrow> ord) (ast_start c) r}"
    by (auto simp: window_rows_def limit_rows_def Let_def split: option.splits dest: in_set_takeD)
  moreover have "ast_start g = None \<or> ast_start c = ast_start g \<and> order_by c = order_by g"
    using assms(1) None by (auto simp: bounds_covered_by_def dest: opt_bound_eq split: option.splits)
  moreover have "set (window_rows g ts) = {r \<in> set ts. bound_allows (case order_by g of None \<Rightarrow> [] | Some ord \<Rightarrow> ord) (ast_start g) r}"
    using None by (auto simp: window_rows_def limit_rows_def Let_def)
  ultimately show ?thesis
    using assms(4) by (auto simp: bound_allows_None)
next
  case (Some gl)
  then obtain cl where "ast_limit c = Some cl" "\<not> f_lt gl cl" "eqv"
    "ast_start c = ast_start g" "order_by c = order_by g"
    using assms(1) by (auto simp: bounds_covered_by_def dest: opt_bound_eq split: option.splits if_splits)
  moreover from this have "usize_of_f64 cl \<le> usize_of_f64 gl"
    using usize_mono ast_wfD(1) [OF assms(2)] ast_wfD(1) [OF assms(3)] Some by auto
  ultimately show ?thesis
    using assms(5) Some by (simp add: window_rows_def limit_rows_def Let_def set_take_subset_set_take)
qed

lemma query_rows_mono:
  assumes "ast_schema c = ast_schema g" "ast_table c = ast_table g" "bounds_covered_by eqv c g" "ast_wf c" "ast_wf g"
    and "\<And>r. r \<in> set (db (ast_schema g) (ast_table g)) \<Longrightarrow> where_true L db c r \<Longrightarrow> where_true L db g r"
    and "\<And>r. r \<in> set (db (ast_schema g) (ast_table g)) \<Longrightarrow> eqv \<Longrightarrow> where_true L db g r \<Longrightarrow> where_true L db c r"
  shows "set (query_rows L db K c) \<subseteq> set (query_rows L db K g)"
  unfolding query_rows.simps where_true_def [symmetric]
  using assms by (intro window_rows_mono [OF assms(3)] filter_cong) (auto intro!: filter_cong)


text \<open>The two induction steps, over the sum \<open>n\<close> of the sizes of the two terms.\<close>

definition cond_sound :: "'b like_lib_scheme \<Rightarrow> database \<Rightarrow> nat \<Rightarrow> bool" where
  "cond_sound L db n \<longleftrightarrow>
     (\<forall>c g r. size c + size g < n \<longrightarrow> condition_implies c g \<longrightarrow> cond_wf c \<longrightarrow> cond_wf g \<longrightarrow> row_ok r \<longrightarrow>
        cond_true L db r c \<longrightarrow> cond_true L db r g)"

definition ast_sound :: "'b like_lib_scheme \<Rightarrow> database \<Rightarrow> nat \<Rightarrow> bool" where
  "ast_sound L db n \<longleftrightarrow>
     (\<forall>c g. size c + size g < n \<longrightarrow> ast_covered_by c g \<longrightarrow> ast_wf c \<longrightarrow> ast_wf g \<longrightarrow> covers L db c g)"

lemma cond_soundD:
  "\<lbrakk>cond_sound L db n; size c + size g < n; condition_implies c g; cond_wf c; cond_wf g; row_ok r; cond_true L db r c\<rbrakk>
   \<Longrightarrow> cond_true L db r g"
  by (auto simp: cond_sound_def)

lemma ast_soundD:
  "\<lbrakk>ast_sound L db n; size c + size g < n; ast_covered_by c g; ast_wf c; ast_wf g\<rbrakk> \<Longrightarrow> covers L db c g"
  by (auto simp: ast_sound_def)

lemma ast_sound_step:
  assumes "cond_sound L db n" "ast_sound L db n" "db_ok db" "size c + size g \<le> n"
    and cov: "ast_covered_by c g" and wf: "ast_wf c" "ast_wf g"
  shows "covers L db c g"
proof (rule coversI)
  note cov' = cov [unfolded ast_covered_by.simps [of c g]]
  have imp: "where_true L db y r"
    if "opt_implies condition_implies (ast_where x) (ast_where y)" "ast_wf x" "ast_wf y" "size x + size y \<le> n"
      "where_true L db x r" "row_ok r" for x y r
  proof (cases "ast_where y")
    case (Some d)
    with that(1) obtain b where b: "ast_where x = Some b" "condition_implies b d"
      by (auto simp: opt_implies_def split: option.splits)
    then have "cond_true L db r d"
      using that(2-6) covering_sizes(1) [OF b(1) Some] Some
      by (intro cond_soundD [OF assms(1), of b d]) (auto simp: where_true_def intro: ast_wfD(2))
    with Some show ?thesis by (simp add: where_true_def)
  qed (simp add: where_true_def)
  have ok: "r \<in> set (db (ast_schema g) (ast_table g)) \<Longrightarrow> row_ok r" for r
    using assms(3) by (auto simp: db_ok_def list_all_iff)
  show "set (query_rows L db K c) \<subseteq> set (query_rows L db K g)" for K
    using cov' wf assms(4) 
    by (intro query_rows_mono [where eqv = "opt_implies condition_implies (ast_where g) (ast_where c)"])
      (auto intro: imp ok simp: add.commute)
  show "\<exists>gs t. related g = Some gs \<and> t \<in> set gs \<and> same_related_edge r t \<and> covers L db (subquery r) (subquery t)"
    if r: "related c = Some cs" "r \<in> set cs" for cs r
  proof -
    from cov' r obtain gs t where t: "related g = Some gs" "t \<in> set gs" "same_related_edge r t"
      "ast_covered_by (subquery r) (subquery t)"
      by (fastforce simp: related_covered_by_def list_all_iff list_ex_iff split: option.splits if_splits)
    have "covers L db (subquery r) (subquery t)"
      using covering_sizes(3) [OF r(1) t(1) r(2) t(2)] assms(4) wf r t
      by (intro ast_soundD [OF assms(2)]) (auto intro: ast_wfD(3))
    with t show ?thesis by blast
  qed
qed


lemma correlated_sound:
  assumes "ast_sound L db n" "size r + size t \<le> n"
    and "same_related_edge r t" "csq_wf r" "csq_wf t"
    and "if co = Exists then ast_covered_by (subquery r) (subquery t) else ast_covered_by (subquery t) (subquery r)"
    and "cond_true L db x (Correlated r co cf cs cp)"
  shows "cond_true L db x (Correlated t co gf gs gp)"
proof -
  let ?rows = "\<lambda>u. set (query_rows L db (correlated (csq_correlation u) x) (subquery u))"
  have same: "csq_correlation r = csq_correlation t" using assms(3) by (simp add: same_related_edge_def)
  have sz: "size (subquery r) + size (subquery t) < n" using csq_size [of r] csq_size [of t] assms(2) by simp
  have wf: "ast_wf (subquery r)" "ast_wf (subquery t)" using assms(4,5) by (simp_all add: csq_wf_iff)
  have sz': "size (subquery t) + size (subquery r) < n" using sz by simp
  show ?thesis
  proof (cases "co = Exists")
    case True
    then have "?rows r \<subseteq> ?rows t"
      using covers_rows [OF ast_soundD [OF assms(1) sz _ wf]] assms(6) same by simp
    then show ?thesis using assms(7) True by fastforce
  next
    case False
    then have "?rows t \<subseteq> ?rows r"
      using covers_rows [OF ast_soundD [OF assms(1) sz' _ wf(2,1)]] assms(6) same by simp
    then show ?thesis using assms(7) False by simp
  qed
qed

lemma cond_sound_step:
  assumes cs: "cond_sound L db n" and as: "ast_sound L db n" and sz: "size c + size g \<le> n"
    and imp: "condition_implies c g" and wf: "cond_wf c" "cond_wf g" and ok: "row_ok r" and t: "cond_true L db r c"
  shows "cond_true L db r g"
proof (cases "condition_eq c g")
  case True
  with t syntax_eq_imp_eq(1) show ?thesis by blast
next
  case False
  note I = cond_soundD [OF cs _ _ _ _ ok]
  note imp' = imp [unfolded condition_implies.simps [of c g] if_not_P [OF False]]
  consider (left_or) xs where "c = Or xs"
    | (right_or) ys where "g = Or ys" "list_ex (condition_implies c) ys"
    | (right_and) ys where "g = And ys" "list_all (condition_implies c) ys"
    | (left_and) xs where "c = And xs" "list_ex (\<lambda>x. condition_implies x g) xs"
    | (leaf) co cl cr go gl gr where "c = Simple co cl cr" "g = Simple go gl gr" "simple_condition_implies co cl cr go gl gr"
    | (subq) rc co cf cs cp rg gf gp where "c = Correlated rc co cf cs cp" "g = Correlated rg co gf cs gp"
        "same_related_edge rc rg"
        "if co = Exists then ast_covered_by (subquery rc) (subquery rg) else ast_covered_by (subquery rg) (subquery rc)"
    using imp' by (cases c; cases g) (auto split: if_splits)
  then show ?thesis
  proof cases
    case left_or
    with t obtain x where "x \<in> set xs" "cond_true L db r x" by (auto simp: list_ex_iff)
    with imp' left_or wf sz member_size [of x xs] show ?thesis by (intro I [of x g]) (auto simp: list_all_iff)
  next
    case right_or
    then obtain y where "y \<in> set ys" "condition_implies c y" by (auto simp: list_ex_iff)
    moreover from this right_or wf t sz member_size [of y ys] have "cond_true L db r y"
      by (intro I [of c y]) (auto simp: list_all_iff)
    ultimately show ?thesis using right_or by (auto simp: list_ex_iff)
  next
    case right_and
    have "cond_true L db r y" if "y \<in> set ys" for y
      using right_and that wf t sz member_size [of y ys] by (intro I [of c y]) (auto simp: list_all_iff)
    then show ?thesis using right_and by (auto simp: list_all_iff)
  next
    case left_and
    then obtain x where "x \<in> set xs" "condition_implies x g" by (auto simp: list_ex_iff)
    with left_and t wf sz member_size [of x xs] show ?thesis by (intro I [of x g]) (auto simp: list_all_iff)
  next
    case leaf
    then show ?thesis using t wf ok by (auto intro: simple_implies_sound)
  next
    case subq
    then show ?thesis using correlated_sound [OF as _ subq(3) _ _ subq(4), of r cf cs cp gf cs gp] t wf sz by simp
  qed
qed

lemma covering_sound:
  assumes "db_ok db"
  shows "cond_sound L db n \<and> ast_sound L db n"
proof (induction n)
  case 0
  then show ?case by (simp add: cond_sound_def ast_sound_def)
next
  case (Suc n)
  then have n: "cond_sound L db n" "ast_sound L db n" by simp_all
  have "cond_sound L db (Suc n)"
    unfolding cond_sound_def less_Suc_eq_le by (intro allI impI) (rule cond_sound_step [OF n]; assumption)
  moreover have "ast_sound L db (Suc n)"
    unfolding ast_sound_def less_Suc_eq_le by (intro allI impI) (rule ast_sound_step [OF n assms]; assumption)
  ultimately show ?case by simp
qed


section \<open>The index\<close>

text \<open>Every query in the index is one of the running queries \<open>S\<close>, beside its normal form.\<close>

definition indexed :: "'a text_lib_scheme \<Rightarrow> (string \<times> running_query) set \<Rightarrow> covering_index \<Rightarrow> bool" where
  "indexed B S ix \<longleftrightarrow>
     (\<forall>(rt, qs) \<in> set (by_root ix). \<forall>(qid, iq) \<in> set qs.
        (qid, ix_query iq) \<in> S \<and> normalize_ast B (transformed_ast (ix_query iq)) = Some (normalized_ast iq))"

lemma set_update_subset: "set (AList.update k v al) \<subseteq> insert (k, v) (set al)"
  by (induction al) auto

lemma set_delete_subset: "set (AList.delete k al) \<subseteq> set al"
  by (auto simp: AList.delete_eq)

lemma indexed_by_rootI:
  assumes "indexed B S ix" "\<And>rt qs. (rt, qs) \<in> set bs \<Longrightarrow> (\<exists>ps. (rt, ps) \<in> set (by_root ix) \<and> set qs \<subseteq> set ps)"
    and "by_root ix' = bs"
  shows "indexed B S ix'"
  using assms by (fastforce simp: indexed_def)

lemma indexed_remove:
  assumes "indexed B S ix"
  shows "indexed B S (covering_index_remove ix qid)"
  by (rule indexed_by_rootI [OF assms _ refl])
    (fastforce simp: covering_index_remove_def Let_def dest: map_of_SomeD
      subsetD [OF set_update_subset] subsetD [OF set_delete_subset] split: option.splits if_splits)

lemma indexed_add:
  assumes "indexed B S ix" "covering_index_add B ix qid q = Some ix'"
  shows "indexed B (insert (qid, q) S) ix'"
proof -
  let ?r = "covering_index_remove ix qid"
  have r: "indexed B S ?r" by (rule indexed_remove [OF assms(1)])
  obtain n where n: "normalize_ast B (transformed_ast q) = Some n"
    "by_root ix' = AList.update (root_key n)
       (AList.update qid \<lparr>ix_query = q, normalized_ast = n\<rparr>
         (case map_of (by_root ?r) (root_key n) of None \<Rightarrow> [] | Some qs \<Rightarrow> qs)) (by_root ?r)"
    using assms(2) by (auto simp: covering_index_add_def Let_def split: Option.bind_splits)
  show ?thesis
    using r n(1) unfolding indexed_def n(2)
    by (fastforce dest!: subsetD [OF set_update_subset] map_of_SomeD split: option.splits)
qed

lemma indexed_all: "index_all B ix qs = Some ix' \<Longrightarrow> indexed B S ix \<Longrightarrow> indexed B (S \<union> set qs) ix'"
proof (induction B ix qs arbitrary: S rule: index_all.induct)
  case (2 B ix qid q qs)
  then obtain i where i: "covering_index_add B ix qid q = Some i" "index_all B i qs = Some ix'"
    by (auto split: Option.bind_splits)
  from 2(1) [OF i indexed_add [OF 2(3) i(1)]] show ?case by simp
qed simp

lemma find_in_root_Some:
  "find_in_root cid n qs = Some c \<Longrightarrow>
   \<exists>iq. (cov_query_id c, iq) \<in> set qs \<and> cov_query_id c \<noteq> cid \<and> ast_covered_by n (normalized_ast iq) \<and>
     cov_transformation_hash c = rq_transformation_hash (ix_query iq)"
  by (induction cid n qs rule: find_in_root.induct) (fastforce split: if_splits)+


section \<open>Properties\<close>



definition column_query :: "simple_operator \<Rightarrow> literal_value \<Rightarrow> f64 option \<Rightarrow> ast" where
  "column_query oper v lmt = Ast None ''t'' None (Some (Simple oper (VColumn ''a'') (VLiteral v))) None None lmt None"

definition sample_running :: "(string \<times> running_query) list" where
  "sample_running =
     [(''q'', \<lparr>transformed_ast = column_query OpEq (LitNumber (F_Fin 5)) None, rq_transformation_hash = ''h0'', rq_query_name = None\<rparr>),
      (''r'', \<lparr>transformed_ast = column_query OpGt (LitNumber (F_Fin 7)) None, rq_transformation_hash = ''h1'', rq_query_name = None\<rparr>),
      (''s'', \<lparr>transformed_ast = column_query OpGt (LitNumber (F_Fin 3)) None, rq_transformation_hash = ''h2'', rq_query_name = None\<rparr>)]"

definition sample_db :: database where
  "sample_db schema table = [[(''a'', JNumber (F_Fin 5))], [(''a'', JNumber (F_Fin 8))], [(''a'', JNull)]]"

lemma column_query_wf: "ast_wf (column_query oper v lmt) \<longleftrightarrow> lmt \<noteq> Some F_NaN \<and> \<not> (oper = OpNe \<and> v = LitNull)"
  by (auto simp: column_query_def)

lemma column_query_normal: "normalize_ast B (column_query oper v lmt) = Some (column_query oper v lmt)"
  by (simp add: column_query_def)


text \<open>
  C18. The test takes a comparison of a column with a value for one that implies \<open>!= NULL\<close> on the same
  column. A comparison \<open>!= NULL\<close> holds of no row, so the query it accepts as covering has no row at all.
\<close>

theorem ne_null_covers_nothing:
  assumes "is_non_null_scalar v"
  shows "ast_covered_by (column_query OpEq v lmt) (column_query OpNe LitNull None) \<and>
    query_rows L db K (column_query OpNe LitNull None) = []"
proof -
  have "\<not> literal_eq v LitNull" using assms by (cases v) (auto simp: literal_eq_def)
  then have "condition_implies (Simple OpEq (VColumn c) (VLiteral v)) (Simple OpNe (VColumn c) (VLiteral LitNull))" for c
    using assms by (simp add: condition_implies.simps simple_condition_implies_def is_equality_op_def)
  then have "ast_covered_by (column_query OpEq v lmt) (column_query OpNe LitNull None)"
    by (simp add: column_query_def ast_covered_by.simps opt_implies_def related_covered_by_def bounds_covered_by_def)
  moreover have "query_rows L db K (column_query OpNe LitNull None) = []"
    by (simp add: query_rows.simps column_query_def simple_true window_rows_def limit_rows_def)
  ultimately show ?thesis by blast
qed

theorem ne_null_covers_nothing_witness:
  "ast_covered_by (column_query OpEq (LitNumber (F_Fin 5)) None) (column_query OpNe LitNull None) \<and>
   query_rows std_like sample_db (\<lambda>_. True) (column_query OpNe LitNull None) = [] \<and>
   query_rows std_like sample_db (\<lambda>_. True) (column_query OpEq (LitNumber (F_Fin 5)) None) = [[(''a'', JNumber (F_Fin 5))]]"
proof -
  have "query_rows std_like sample_db (\<lambda>_. True) (column_query OpEq (LitNumber (F_Fin 5)) None) = [[(''a'', JNumber (F_Fin 5))]]"
    by code_simp
  then show ?thesis using ne_null_covers_nothing [of "LitNumber (F_Fin 5)" None std_like sample_db "\<lambda>_. True"] by simp
qed

end
