(* ===== verification/Auth_Policy.thy ===== *)
theory Auth_Policy
  imports Query_Semantics Btree
begin

text \<open>
  Permissions and their evaluation (\<open>zero-cache-auth/src/policy.rs\<close>). A policy is a list of
  conditions of which one has to hold; no policy, or an empty one, denies. The predicate of a
  condition may panic, hence the \<open>option\<close> results; \<open>ex\<close> is the resolver of correlated conditions.
\<close>

type_synonym policy = "condition list"

record update_policies =
  pre_mutation :: "policy option"
  post_mutation :: "policy option"

record asset_permissions =
  ap_select :: "policy option"
  ap_insert :: "policy option"
  ap_update :: update_policies
  ap_delete :: "policy option"

record table_permissions_entry =
  tp_row :: "asset_permissions option"
  tp_cell :: "(string, asset_permissions) btree option"

type_synonym table_permissions = "(string, table_permissions_entry) btree"

record permissions_config =
  tables :: "table_permissions option"

datatype phase = PreMutation | PostMutation

datatype action = AInsert | AUpdate | ADelete

fun any_rule :: "'b like_lib_scheme \<Rightarrow> exists_fn \<Rightarrow> row \<Rightarrow> condition list \<Rightarrow> bool option" where
  "any_rule L ex row [] = Some False"
| "any_rule L ex row (rule # rules) =
     do {
       p \<leftarrow> create_predicate_with_exists L ex rule;
       b \<leftarrow> p row;
       if b then Some True else any_rule L ex row rules
     }"

definition passes_policy_with_exists :: "'b like_lib_scheme \<Rightarrow> exists_fn \<Rightarrow> policy option \<Rightarrow> row \<Rightarrow> bool option" where
  "passes_policy_with_exists L ex policy row =
     (case policy of
        None \<Rightarrow> Some False
      | Some rules \<Rightarrow> if rules = [] then Some False else any_rule L ex row rules)"

text \<open>The variants without a resolver panic at a correlated condition.\<close>

definition passes_policy :: "'b like_lib_scheme \<Rightarrow> policy option \<Rightarrow> row \<Rightarrow> bool option" where
  "passes_policy L policy row = passes_policy_with_exists L (\<lambda>_ _. None) policy row"

fun all_policies :: "'b like_lib_scheme \<Rightarrow> exists_fn \<Rightarrow> row \<Rightarrow> policy list \<Rightarrow> bool option" where
  "all_policies L ex row [] = Some True"
| "all_policies L ex row (policy # policies) =
     do {
       b \<leftarrow> passes_policy_with_exists L ex (Some policy) row;
       if b then all_policies L ex row policies else Some False
     }"

definition passes_policy_group_with_exists ::
  "'b like_lib_scheme \<Rightarrow> exists_fn \<Rightarrow> policy option \<Rightarrow> policy list \<Rightarrow> row \<Rightarrow> bool option" where
  "passes_policy_group_with_exists L ex row_policy cell_policies row =
     do {
       b \<leftarrow> passes_policy_with_exists L ex row_policy row;
       if \<not> b then Some False else all_policies L ex row cell_policies
     }"

definition passes_policy_group :: "'b like_lib_scheme \<Rightarrow> policy option \<Rightarrow> policy list \<Rightarrow> row \<Rightarrow> bool option" where
  "passes_policy_group L row_policy cell_policies row =
     passes_policy_group_with_exists L (\<lambda>_ _. None) row_policy cell_policies row"

text \<open>The policy of an asset for an action and a phase: the same selection for rows and for cells.\<close>

definition asset_policy :: "asset_permissions \<Rightarrow> action \<Rightarrow> phase \<Rightarrow> policy option" where
  "asset_policy asset act ph =
     (case (act, ph) of
        (AInsert, PostMutation) \<Rightarrow> ap_insert asset
      | (AUpdate, PreMutation) \<Rightarrow> pre_mutation (ap_update asset)
      | (AUpdate, PostMutation) \<Rightarrow> post_mutation (ap_update asset)
      | (ADelete, PreMutation) \<Rightarrow> ap_delete asset
      | _ \<Rightarrow> None)"

definition applicable_row_policy :: "asset_permissions option \<Rightarrow> action \<Rightarrow> phase \<Rightarrow> policy option" where
  "applicable_row_policy row act ph = do { row \<leftarrow> row; asset_policy row act ph }"

definition applicable_cell_policies ::
  "(string, asset_permissions) btree option \<Rightarrow> action \<Rightarrow> phase \<Rightarrow> string list \<Rightarrow> policy list" where
  "applicable_cell_policies cells act ph changed =
     (case cells of
        None \<Rightarrow> []
      | Some cells \<Rightarrow>
          concat (map (\<lambda>(column, asset).
            if act = AUpdate \<and> column \<notin> set changed then []
            else case asset_policy asset act ph of None \<Rightarrow> [] | Some p \<Rightarrow> [p]) cells))"

definition can_do_with_exists ::
  "'b like_lib_scheme \<Rightarrow> exists_fn \<Rightarrow> table_permissions_entry option \<Rightarrow> action \<Rightarrow> phase \<Rightarrow> row \<Rightarrow> string list \<Rightarrow> bool option" where
  "can_do_with_exists L ex permissions act ph row changed =
     (case permissions of
        None \<Rightarrow> passes_policy_group_with_exists L ex None [] row
      | Some entry \<Rightarrow>
          passes_policy_group_with_exists L ex (applicable_row_policy (tp_row entry) act ph)
            (applicable_cell_policies (tp_cell entry) act ph changed) row)"

definition policy_can_do :: "'b like_lib_scheme \<Rightarrow> table_permissions_entry option \<Rightarrow> action \<Rightarrow> phase \<Rightarrow> row \<Rightarrow> string list \<Rightarrow> bool option" where
  "policy_can_do L permissions act ph row changed = can_do_with_exists L (\<lambda>_ _. None) permissions act ph row changed"

section \<open>Specification\<close>

text \<open>
  A policy allows a row when one of its rules evaluates to true. The check says \<open>Some True\<close> only
  when this holds of the row policy and of every cell policy; it denies where there is no policy.
\<close>

definition allows :: "'b like_lib_scheme \<Rightarrow> exists_fn \<Rightarrow> policy option \<Rightarrow> row \<Rightarrow> bool" where
  "allows L ex policy row \<longleftrightarrow> (\<exists>rules rule. policy = Some rules \<and> rule \<in> set rules \<and> eval_cond L ex row rule = Some True)"

definition rules_total :: "'b like_lib_scheme \<Rightarrow> exists_fn \<Rightarrow> row \<Rightarrow> policy option \<Rightarrow> bool" where
  "rules_total L ex row policy \<longleftrightarrow> (\<forall>rules rule. policy = Some rules \<longrightarrow> rule \<in> set rules \<longrightarrow> eval_cond L ex row rule \<noteq> None)"

lemma any_rule_eval:
  "any_rule L ex row (rule # rules) =
     do { b \<leftarrow> eval_cond L ex row rule; if b then Some True else any_rule L ex row rules }"
  by (simp add: eval_cond_def split: Option.bind_splits)

lemma any_rule_True: "any_rule L ex row rules = Some True \<Longrightarrow> \<exists>rule\<in>set rules. eval_cond L ex row rule = Some True"
  by (induction rules) (auto simp: any_rule_eval option_mono simp del: any_rule.simps(2) split: if_splits)

lemma any_rule_total:
  "\<forall>rule\<in>set rules. eval_cond L ex row rule \<noteq> None \<Longrightarrow>
   any_rule L ex row rules = Some (\<exists>rule\<in>set rules. eval_cond L ex row rule = Some True)"
  by (induction rules) (auto simp: any_rule_eval simp del: any_rule.simps(2))

lemma passes_policy_True: "passes_policy_with_exists L ex policy row = Some True \<Longrightarrow> allows L ex policy row"
  by (auto simp: passes_policy_with_exists_def allows_def dest!: any_rule_True split: option.splits if_splits)

lemma passes_policy_total:
  "rules_total L ex row policy \<Longrightarrow> passes_policy_with_exists L ex policy row = Some (allows L ex policy row)"
  by (auto simp: passes_policy_with_exists_def allows_def rules_total_def any_rule_total split: option.splits)

lemma all_policies_True:
  "all_policies L ex row ps = Some True \<Longrightarrow> p \<in> set ps \<Longrightarrow> allows L ex (Some p) row"
  by (induction ps) (auto simp: option_mono passes_policy_True split: if_splits)

lemma all_policies_total:
  "\<forall>p\<in>set ps. rules_total L ex row (Some p) \<Longrightarrow> all_policies L ex row ps = Some (\<forall>p\<in>set ps. allows L ex (Some p) row)"
  by (induction ps) (auto simp: passes_policy_total)

text \<open>What a table's permissions require of a row for an action in a phase.\<close>

definition required_policies :: "table_permissions_entry option \<Rightarrow> action \<Rightarrow> phase \<Rightarrow> string list \<Rightarrow> policy option list" where
  "required_policies permissions act ph changed =
     (case permissions of
        None \<Rightarrow> [None]
      | Some entry \<Rightarrow> applicable_row_policy (tp_row entry) act ph #
          map Some (applicable_cell_policies (tp_cell entry) act ph changed))"

lemma can_do_True:
  "can_do_with_exists L ex permissions act ph row changed = Some True \<Longrightarrow>
   p \<in> set (required_policies permissions act ph changed) \<Longrightarrow> allows L ex p row"
  by (auto simp: can_do_with_exists_def required_policies_def passes_policy_group_with_exists_def option_mono
      passes_policy_True dest: all_policies_True split: option.splits if_splits)

lemma can_do_total:
  "\<forall>p\<in>set (required_policies permissions act ph changed). rules_total L ex row p \<Longrightarrow>
   can_do_with_exists L ex permissions act ph row changed =
     Some (\<forall>p\<in>set (required_policies permissions act ph changed). allows L ex p row)"
  by (auto simp: can_do_with_exists_def required_policies_def passes_policy_group_with_exists_def
      passes_policy_total all_policies_total split: option.splits)

end
