(* ===== verification/Auth_Read.thy ===== *)
theory Auth_Read
  imports Auth_Policy Query_Hash
begin

text \<open>
  The read authorizer (\<open>zero-cache-auth/src/read_authorizer.rs\<close>): the select rules of each table are
  added to every query and subquery on it, the result is simplified, static parameters are bound to
  the authentication data, and the query is hashed. Running the result is shown to be running the
  query on the database that holds only the rows the rules allow.
\<close>

section \<open>Simplification\<close>

definition is_always_true :: "condition \<Rightarrow> bool" where
  "is_always_true c \<longleftrightarrow> c = And []"

definition is_always_false :: "condition \<Rightarrow> bool" where
  "is_always_false c \<longleftrightarrow> c = Or []"

text \<open>The rest of \<open>simplify_compound\<close>, from the simplified members.\<close>

definition flatten_compound :: "bool \<Rightarrow> condition \<Rightarrow> condition list" where
  "flatten_compound is_and c =
     (case c of
        And ds \<Rightarrow> if is_and then ds else [c]
      | Or ds \<Rightarrow> if is_and then [c] else ds
      | _ \<Rightarrow> [c])"

definition join_compound :: "bool \<Rightarrow> condition list \<Rightarrow> condition" where
  "join_compound is_and cs =
     (let flattened = concat (map (flatten_compound is_and) cs)
      in if is_and \<and> list_ex is_always_false flattened then Or []
         else if \<not> is_and \<and> list_ex is_always_true flattened then And []
         else if is_and then And flattened else Or flattened)"

function (sequential) simplify_condition :: "condition \<Rightarrow> condition" where
  "simplify_condition (And [c]) = simplify_condition c"
| "simplify_condition (And cs) = join_compound True (map (\<lambda>c. simplify_condition c) cs)"
| "simplify_condition (Or [c]) = simplify_condition c"
| "simplify_condition (Or cs) = join_compound False (map (\<lambda>c. simplify_condition c) cs)"
| "simplify_condition c = c"
  by pat_completeness auto
termination
  by (relation "measure size") (auto simp: less_Suc_eq_le dest!: member_size_le)

section \<open>Adding the rules\<close>

definition row_select_rules :: "permissions_config \<Rightarrow> string \<Rightarrow> policy option" where
  "row_select_rules rules table =
     do {
       ts \<leftarrow> tables rules;
       entry \<leftarrow> map_of ts table;
       row \<leftarrow> tp_row entry;
       select \<leftarrow> ap_select row;
       if select = [] then None else Some select
     }"

definition add_rules_to_where :: "condition option \<Rightarrow> policy option \<Rightarrow> condition" where
  "add_rules_to_where w rules =
     And ((case w of None \<Rightarrow> [] | Some c \<Rightarrow> [c]) @ [Or (case rules of None \<Rightarrow> [] | Some rs \<Rightarrow> rs)])"

function (sequential) transform_query_internal :: "permissions_config \<Rightarrow> ast \<Rightarrow> ast"
  and transform_condition :: "permissions_config \<Rightarrow> condition \<Rightarrow> condition"
  and transform_subquery :: "permissions_config \<Rightarrow> correlated_subquery \<Rightarrow> correlated_subquery" where
  "transform_query_internal rules (Ast schema table al w rels st lmt ord) =
     Ast schema table al
       (Some (simplify_condition (add_rules_to_where (map_option (\<lambda>c. transform_condition rules c) w)
         (row_select_rules rules table))))
       (map_option (\<lambda>rs. map (\<lambda>r. transform_subquery rules r) rs) rels) st lmt ord"
| "transform_condition rules (And cs) = And (map (\<lambda>c. transform_condition rules c) cs)"
| "transform_condition rules (Or cs) = Or (map (\<lambda>c. transform_condition rules c) cs)"
| "transform_condition rules (Correlated rel oper flp scl pid) = Correlated (transform_subquery rules rel) oper flp scl pid"
| "transform_condition rules c = c"
| "transform_subquery rules (Subquery corr q sys hid) = Subquery corr (transform_query_internal rules q) sys hid"
  by pat_completeness auto
termination
  by (relation "measure (\<lambda>x. case x of Inl (_, q) \<Rightarrow> size q | Inr (Inl (_, c)) \<Rightarrow> size c | Inr (Inr (_, r)) \<Rightarrow> size r)")
    (auto simp: less_Suc_eq_le dest!: member_size_le)

definition transform_query :: "ast \<Rightarrow> permissions_config \<Rightarrow> ast" where
  "transform_query q rules = transform_query_internal rules q"

section \<open>Static parameters\<close>

definition object_field :: "json \<Rightarrow> string \<Rightarrow> json option" where
  "object_field v name =
     (case v of JObject entries \<Rightarrow> map_option snd (find (\<lambda>(k, _). k = name) entries) | _ \<Rightarrow> None)"

fun resolve_path :: "string list \<Rightarrow> json \<Rightarrow> json" where
  "resolve_path [] v = v"
| "resolve_path (part # path) v = (case object_field v part of None \<Rightarrow> JNull | Some next \<Rightarrow> resolve_path path next)"

fun path_parts :: "json list \<Rightarrow> string list option" where
  "path_parts [] = Some []"
| "path_parts (JString part # parts) = map_option (\<lambda>ps. part # ps) (path_parts parts)"
| "path_parts (_ # parts) = None"

definition resolve_parameter :: "json \<Rightarrow> json \<Rightarrow> json" where
  "resolve_parameter raw auth_data =
     (case raw of
        JObject _ \<Rightarrow>
          if object_field raw ''anchor'' \<noteq> Some (JString ''authData'') then JNull
          else (case object_field raw ''field'' of
              Some (JString f) \<Rightarrow> resolve_path [f] auth_data
            | Some (JArray parts) \<Rightarrow>
                (case path_parts parts of None \<Rightarrow> JNull | Some path \<Rightarrow> resolve_path path auth_data)
            | _ \<Rightarrow> JNull)
      | _ \<Rightarrow> JNull)"

text \<open>\<open>None\<close> in the loop over an array is the early return at a nested array; \<open>pf\<close> parses a double.\<close>

fun literal_from_json :: "'a text_lib_scheme \<Rightarrow> (string \<Rightarrow> f64 option) \<Rightarrow> json \<Rightarrow> literal_value"
  and literals_from_json :: "'a text_lib_scheme \<Rightarrow> (string \<Rightarrow> f64 option) \<Rightarrow> json list \<Rightarrow> literal_value list option" where
  "literal_from_json B pf JNull = LitNull"
| "literal_from_json B pf (JBool b) = LitBool b"
| "literal_from_json B pf (JNumber n) = LitNumber n"
| "literal_from_json B pf (JBigInt n) =
     (case pf (to_str_radix B n 10) of Some x \<Rightarrow> LitNumber x | None \<Rightarrow> LitNull)"
| "literal_from_json B pf (JString s) = LitString s"
| "literal_from_json B pf (JArray vs) =
     (case literals_from_json B pf vs of None \<Rightarrow> LitNull | Some ls \<Rightarrow> LitArray ls)"
| "literal_from_json B pf (JObject _) = LitNull"
| "literals_from_json B pf [] = Some []"
| "literals_from_json B pf (v # vs) =
     (case literal_from_json B pf v of
        LitArray _ \<Rightarrow> None
      | l \<Rightarrow> map_option (\<lambda>ls. l # ls) (literals_from_json B pf vs))"

fun bind_value_position :: "'a text_lib_scheme \<Rightarrow> (string \<Rightarrow> f64 option) \<Rightarrow> json \<Rightarrow> value_position \<Rightarrow> value_position" where
  "bind_value_position B pf auth_data (VParameter raw) =
     VLiteral (literal_from_json B pf (resolve_parameter raw auth_data))"
| "bind_value_position B pf auth_data p = p"

function (sequential) bind_condition :: "'a text_lib_scheme \<Rightarrow> (string \<Rightarrow> f64 option) \<Rightarrow> json \<Rightarrow> condition \<Rightarrow> condition"
  and bind_subquery :: "'a text_lib_scheme \<Rightarrow> (string \<Rightarrow> f64 option) \<Rightarrow> json \<Rightarrow> correlated_subquery \<Rightarrow> correlated_subquery"
  and bind_static_parameters :: "'a text_lib_scheme \<Rightarrow> (string \<Rightarrow> f64 option) \<Rightarrow> json \<Rightarrow> ast \<Rightarrow> ast" where
  "bind_condition B pf auth (Simple oper l r) = Simple oper (bind_value_position B pf auth l) (bind_value_position B pf auth r)"
| "bind_condition B pf auth (And cs) = And (map (\<lambda>c. bind_condition B pf auth c) cs)"
| "bind_condition B pf auth (Or cs) = Or (map (\<lambda>c. bind_condition B pf auth c) cs)"
| "bind_condition B pf auth (Correlated rel oper flp scl pid) = Correlated (bind_subquery B pf auth rel) oper flp scl pid"
| "bind_subquery B pf auth (Subquery corr q sys hid) = Subquery corr (bind_static_parameters B pf auth q) sys hid"
| "bind_static_parameters B pf auth (Ast schema table al w rels st lmt ord) =
     Ast schema table al (map_option (\<lambda>c. bind_condition B pf auth c) w)
       (map_option (\<lambda>rs. map (\<lambda>r. bind_subquery B pf auth r) rs) rels) st lmt ord"
  by pat_completeness auto
termination
  by (relation "measure (\<lambda>x. case x of Inl (_, _, _, c) \<Rightarrow> size c | Inr (Inl (_, _, _, r)) \<Rightarrow> size r | Inr (Inr (_, _, _, q)) \<Rightarrow> size q)")
    (auto simp: less_Suc_eq_le dest!: member_size_le)


definition bind_optional_policy ::
  "'a text_lib_scheme \<Rightarrow> (string \<Rightarrow> f64 option) \<Rightarrow> json \<Rightarrow> policy option \<Rightarrow> policy option" where
  "bind_optional_policy B pf auth policy = map_option (map (bind_condition B pf auth)) policy"

definition bind_asset_permissions ::
  "'a text_lib_scheme \<Rightarrow> (string \<Rightarrow> f64 option) \<Rightarrow> json \<Rightarrow> asset_permissions \<Rightarrow> asset_permissions" where
  "bind_asset_permissions B pf auth asset =
     \<lparr>ap_select = bind_optional_policy B pf auth (ap_select asset),
      ap_insert = bind_optional_policy B pf auth (ap_insert asset),
      ap_update = \<lparr>pre_mutation = bind_optional_policy B pf auth (pre_mutation (ap_update asset)),
                   post_mutation = bind_optional_policy B pf auth (post_mutation (ap_update asset))\<rparr>,
      ap_delete = bind_optional_policy B pf auth (ap_delete asset)\<rparr>"

definition bind_table_entry ::
  "'a text_lib_scheme \<Rightarrow> (string \<Rightarrow> f64 option) \<Rightarrow> json \<Rightarrow> table_permissions_entry \<Rightarrow> table_permissions_entry" where
  "bind_table_entry B pf auth entry =
     \<lparr>tp_row = map_option (bind_asset_permissions B pf auth) (tp_row entry),
      tp_cell = map_option (map (\<lambda>(name, asset). (name, bind_asset_permissions B pf auth asset))) (tp_cell entry)\<rparr>"

definition bind_permissions_auth_data ::
  "'a text_lib_scheme \<Rightarrow> (string \<Rightarrow> f64 option) \<Rightarrow> json \<Rightarrow> permissions_config \<Rightarrow> permissions_config" where
  "bind_permissions_auth_data B pf auth permissions =
     \<lparr>tables = map_option (map (\<lambda>(name, entry). (name, bind_table_entry B pf auth entry))) (tables permissions)\<rparr>"

section \<open>The transformed query and its hash\<close>

record transformed_and_hashed =
  th_id :: string
  th_transformed_ast :: ast
  th_transformation_hash :: string

definition with_hash ::
  "'a text_lib_scheme \<Rightarrow> (rat \<Rightarrow> string) \<Rightarrow> string \<Rightarrow> ast \<Rightarrow> transformed_and_hashed option" where
  "with_hash B fmt qid transformed =
     do {
       hash \<leftarrow> hash_of_ast B fmt transformed;
       Some \<lparr>th_id = qid, th_transformed_ast = transformed, th_transformation_hash = hash\<rparr>
     }"

definition transform_and_hash_query ::
  "'a text_lib_scheme \<Rightarrow> (rat \<Rightarrow> string) \<Rightarrow> string \<Rightarrow> ast \<Rightarrow> permissions_config \<Rightarrow> bool \<Rightarrow> transformed_and_hashed option" where
  "transform_and_hash_query B fmt qid q rules internal_query =
     with_hash B fmt qid (if internal_query then q else transform_query q rules)"

definition transform_and_hash_query_with_auth_data ::
  "'a text_lib_scheme \<Rightarrow> (rat \<Rightarrow> string) \<Rightarrow> (string \<Rightarrow> f64 option) \<Rightarrow> string \<Rightarrow> ast \<Rightarrow> permissions_config \<Rightarrow> json \<Rightarrow> bool \<Rightarrow>
   transformed_and_hashed option" where
  "transform_and_hash_query_with_auth_data B fmt pf qid q rules auth internal_query =
     with_hash B fmt qid
       (if internal_query then bind_static_parameters B pf auth q
        else bind_static_parameters B pf auth (transform_query q rules))"

section \<open>Simplification keeps the meaning\<close>

lemma flatten_compound_true:
  "list_all (cond_true L db r) (flatten_compound True c) = cond_true L db r c"
  "list_ex (cond_true L db r) (flatten_compound False c) = cond_true L db r c"
  by (cases c; simp add: flatten_compound_def)+

lemma always_false_true: "list_ex is_always_false cs \<Longrightarrow> \<not> list_all (cond_true L db r) cs"
  by (auto simp: list_ex_iff list_all_iff is_always_false_def intro!: bexI [of _ "Or []"])

lemma always_true_true: "list_ex is_always_true cs \<Longrightarrow> list_ex (cond_true L db r) cs"
  by (auto simp: list_ex_iff is_always_true_def intro!: bexI [of _ "And []"])

lemma join_compound_true:
  "cond_true L db r (join_compound True cs) = list_all (cond_true L db r) cs"
  "cond_true L db r (join_compound False cs) = list_ex (cond_true L db r) cs"
proof -
  have a: "list_all (cond_true L db r) (concat (map (flatten_compound True) cs)) = list_all (cond_true L db r) cs"
    by (induction cs) (simp_all add: flatten_compound_true(1))
  have o: "list_ex (cond_true L db r) (concat (map (flatten_compound False) cs)) = list_ex (cond_true L db r) cs"
    by (induction cs) (simp_all add: flatten_compound_true(2))
  show "cond_true L db r (join_compound True cs) = list_all (cond_true L db r) cs"
    using always_false_true [of "concat (map (flatten_compound True) cs)" L db r] a
    by (auto simp: join_compound_def Let_def)
  show "cond_true L db r (join_compound False cs) = list_ex (cond_true L db r) cs"
    using always_true_true [of "concat (map (flatten_compound False) cs)" L db r] o
    by (auto simp: join_compound_def Let_def)
qed

lemma simplify_true [simp]: "cond_true L db r (simplify_condition c) = cond_true L db r c"
  by (induction c rule: simplify_condition.induct)
    (auto simp: join_compound_true list_all_iff list_ex_iff)


section \<open>Binding commutes with the transformation\<close>

lemma bind_flatten: "flatten_compound b (bind_condition B pf auth c) = map (bind_condition B pf auth) (flatten_compound b c)"
  by (cases c) (auto simp: flatten_compound_def)

lemma bind_constants [simp]:
  "is_always_false (bind_condition B pf auth c) = is_always_false c" "is_always_true (bind_condition B pf auth c) = is_always_true c"
  by (cases c; simp add: is_always_false_def is_always_true_def)+

lemma bind_join: "bind_condition B pf auth (join_compound b cs) = join_compound b (map (bind_condition B pf auth) cs)"
proof -
  have "concat (map (flatten_compound b) (map (bind_condition B pf auth) cs)) =
      map (bind_condition B pf auth) (concat (map (flatten_compound b) cs))"
    by (induction cs) (simp_all add: bind_flatten)
  then show ?thesis by (simp add: join_compound_def Let_def list_ex_iff)
qed

lemma bind_simplify: "bind_condition B pf auth (simplify_condition c) = simplify_condition (bind_condition B pf auth c)"
  by (induction c rule: simplify_condition.induct) (simp_all add: bind_join comp_def cong: map_cong)

lemma bound_fields [simp]:
  "tp_row (bind_table_entry B pf auth e) = map_option (bind_asset_permissions B pf auth) (tp_row e)"
  "ap_select (bind_asset_permissions B pf auth a) = map_option (map (bind_condition B pf auth)) (ap_select a)"
  "tables (bind_permissions_auth_data B pf auth rules) =
   map_option (map (\<lambda>(name, entry). (name, bind_table_entry B pf auth entry))) (tables rules)"
  by (simp_all add: bind_table_entry_def bind_asset_permissions_def bind_optional_policy_def bind_permissions_auth_data_def)

lemma map_of_map_entries: "map_of (map (\<lambda>(name, entry). (name, f entry)) ts) table = map_option f (map_of ts table)"
  by (induction ts) auto

lemma bind_rules:
  "row_select_rules (bind_permissions_auth_data B pf auth rules) table =
   map_option (map (bind_condition B pf auth)) (row_select_rules rules table)"
  by (cases "tables rules"; simp add: row_select_rules_def map_of_map_entries split: Option.bind_splits; fastforce)

lemma bind_transform:
  "bind_static_parameters B pf auth (transform_query_internal rules q) =
   transform_query_internal (bind_permissions_auth_data B pf auth rules) (bind_static_parameters B pf auth q)"
  "bind_condition B pf auth (transform_condition rules c) =
   transform_condition (bind_permissions_auth_data B pf auth rules) (bind_condition B pf auth c)"
  "bind_subquery B pf auth (transform_subquery rules r) =
   transform_subquery (bind_permissions_auth_data B pf auth rules) (bind_subquery B pf auth r)"
proof (induction rules q and rules c and rules r
    rule: transform_query_internal_transform_condition_transform_subquery.induct)
  case (1 rules schema table al w rels st lmt ord)
  have "map_option (map (bind_subquery B pf auth)) (map_option (map (transform_subquery rules)) rels) =
      map_option (map (transform_subquery (bind_permissions_auth_data B pf auth rules))) (map_option (map (bind_subquery B pf auth)) rels)"
    using 1(2) by (cases rels) auto
  then show ?case using 1(1) by (auto simp: bind_simplify bind_rules add_rules_to_where_def split: option.splits)
qed auto

section \<open>The readable rows\<close>

text \<open>The database that holds, of each table, only the rows that one of its select rules allows.\<close>

definition readable_db :: "'b like_lib_scheme \<Rightarrow> permissions_config \<Rightarrow> database \<Rightarrow> database" where
  "readable_db L rules db schema table =
     filter (\<lambda>r. case row_select_rules rules table of None \<Rightarrow> False | Some rs \<Rightarrow> list_ex (cond_true L db r) rs)
       (db schema table)"

lemma window_rows_transform: "window_rows (transform_query_internal rules q) = window_rows q"
  by (cases q) (simp add: window_rows_def fun_eq_iff)

lemma transform_source:
  "ast_schema (transform_query_internal rules q) = ast_schema q" "ast_table (transform_query_internal rules q) = ast_table q"
  by (cases q; simp)+

lemma where_true_transform:
  "where_true L db (transform_query_internal rules q) r \<longleftrightarrow>
     (case ast_where q of None \<Rightarrow> True | Some c \<Rightarrow> cond_true L db r (transform_condition rules c)) \<and>
     (case row_select_rules rules (ast_table q) of None \<Rightarrow> False | Some rs \<Rightarrow> list_ex (cond_true L db r) rs)"
  by (cases q) (simp add: where_true_def add_rules_to_where_def split: option.splits)

lemma transform_rows:
  "query_rows L db K (transform_query_internal rules q) = query_rows L (readable_db L rules db) K q"
  "cond_true L db r (transform_condition rules c) = cond_true L (readable_db L rules db) r c"
  "query_rows L db K (subquery (transform_subquery rules s)) = query_rows L (readable_db L rules db) K (subquery s) \<and>
   csq_correlation (transform_subquery rules s) = csq_correlation s"
proof (induction rules q and rules c and rules s arbitrary: K and r and K
    rule: transform_query_internal_transform_condition_transform_subquery.induct)
  case (1 rules schema table al w rels st lmt ord)
  let ?q = "Ast schema table al w rels st lmt ord"
  have "where_true L db (transform_query_internal rules ?q) r \<longleftrightarrow>
      where_true L (readable_db L rules db) ?q r \<and>
      (case row_select_rules rules table of None \<Rightarrow> False | Some rs \<Rightarrow> list_ex (cond_true L db r) rs)" for r
    unfolding where_true_transform using 1(1) by (simp add: where_true_def split: option.splits)
  then show ?case
    unfolding query_rows_where window_rows_transform transform_source
    by (simp add: readable_db_def conj_ac cong: filter_cong)
qed (auto simp: list_all_iff list_ex_iff)


lemma readable_rows:
  assumes "r \<in> set (query_rows L db K (transform_query_internal rules q))"
  shows "\<exists>rs. row_select_rules rules (ast_table q) = Some rs \<and> list_ex (cond_true L db r) rs \<and>
    r \<in> set (db (ast_schema q) (ast_table q))"
proof -
  have "r \<in> set (readable_db L rules db (ast_schema q) (ast_table q))"
    using assms query_rows_source by (fastforce simp: transform_rows(1))
  then show ?thesis by (auto simp: readable_db_def split: option.splits)
qed

definition same_edge :: "correlated_subquery \<Rightarrow> correlated_subquery \<Rightarrow> bool" where
  "same_edge r t \<longleftrightarrow> csq_correlation r = csq_correlation t \<and> csq_system r = csq_system t \<and>
     csq_hidden r = csq_hidden t \<and> ast_alias (subquery r) = ast_alias (subquery t)"

text \<open>
  Two queries, each on its database, have the same results: the same rows in the same order,
  whichever rows a parent selects, and pairwise the same for their related queries.
\<close>

inductive same_results :: "'b like_lib_scheme \<Rightarrow> database \<Rightarrow> database \<Rightarrow> ast \<Rightarrow> ast \<Rightarrow> bool" for L db db' where
  same_resultsI: "\<lbrakk>\<And>K. query_rows L db K q = query_rows L db' K q';
     (related q = None) = (related q' = None);
     \<And>rs ts. \<lbrakk>related q = Some rs; related q' = Some ts\<rbrakk> \<Longrightarrow> length rs = length ts;
     \<And>rs ts i. \<lbrakk>related q = Some rs; related q' = Some ts; i < length rs\<rbrakk> \<Longrightarrow>
       same_edge (rs ! i) (ts ! i) \<and> same_results L db db' (subquery (rs ! i)) (subquery (ts ! i))\<rbrakk>
    \<Longrightarrow> same_results L db db' q q'"


lemma transform_subquery_fields:
  "subquery (transform_subquery rules r) = transform_query_internal rules (subquery r)" "same_edge (transform_subquery rules r) r"
  by (cases r; cases "subquery r"; simp add: same_edge_def)+

lemma transform_related: "related (transform_query_internal rules q) = map_option (map (transform_subquery rules)) (related q)"
  by (cases q) simp

lemma transform_same_results:
  "same_results L db (readable_db L rules db) (transform_query_internal rules q) q"
proof (induction "size q" arbitrary: q rule: less_induct)
  case less
  show ?case
  proof (rule same_resultsI)
    show "same_edge (rs ! i) (ts ! i) \<and> same_results L db (readable_db L rules db) (subquery (rs ! i)) (subquery (ts ! i))"
      if "related (transform_query_internal rules q) = Some rs" "related q = Some ts" "i < length rs" for rs ts i
    proof -
      have "rs = map (transform_subquery rules) ts" using that by (simp add: transform_related)
      moreover have "size (subquery (ts ! i)) < size q" using that related_size [of q ts "ts ! i"] calculation by simp
      ultimately show ?thesis using that(3) less by (simp add: transform_subquery_fields)
    qed
  qed (auto simp: transform_rows(1) transform_related)
qed

section \<open>Properties\<close>

text \<open>
  C12. Reads are confined to what the select rules allow: the query the authorizer returns gives, on every
  database, exactly the results of the client's query on the database that holds only the rows for
  which a select rule of their table holds, with the parameters of both bound to the connection's
  authentication data. This covers related queries, and subqueries under \<open>EXISTS\<close> and \<open>NOT EXISTS\<close>,
  which therefore reveal nothing of other rows; each row returned satisfies a rule of its table.
\<close>

theorem read_authorizer_confines:
  assumes "transform_and_hash_query_with_auth_data B fmt pf qid q rules auth False = Some t"
  shows "same_results L db (readable_db L (bind_permissions_auth_data B pf auth rules) db)
      (th_transformed_ast t) (bind_static_parameters B pf auth q) \<and>
    (\<forall>K. \<forall>r\<in>set (query_rows L db K (th_transformed_ast t)).
       \<exists>rs. row_select_rules (bind_permissions_auth_data B pf auth rules) (ast_table q) = Some rs \<and>
         list_ex (cond_true L db r) rs)"
proof -
  have t: "th_transformed_ast t =
      transform_query_internal (bind_permissions_auth_data B pf auth rules) (bind_static_parameters B pf auth q)"
    using assms by (auto simp: transform_and_hash_query_with_auth_data_def with_hash_def transform_query_def bind_transform
        split: Option.bind_splits)
  have "ast_table (bind_static_parameters B pf auth q) = ast_table q" by (cases q) simp
  with readable_rows [of _ L db _ "bind_permissions_auth_data B pf auth rules" "bind_static_parameters B pf auth q"]
  show ?thesis unfolding t using transform_same_results by fastforce
qed


definition sample_rule :: condition where
  "sample_rule = Simple OpEq (VColumn ''owner'')
     (VParameter (JObject [(''type'', JString ''static''), (''anchor'', JString ''authData''), (''field'', JString ''sub'')]))"

definition select_permissions :: "policy \<Rightarrow> permissions_config" where
  "select_permissions select =
     \<lparr>tables = Some [(''issue'', \<lparr>tp_row = Some \<lparr>ap_select = Some select, ap_insert = None,
        ap_update = \<lparr>pre_mutation = None, post_mutation = None\<rparr>, ap_delete = None\<rparr>, tp_cell = None\<rparr>)]\<rparr>"

definition owner_row :: "string \<Rightarrow> row" where
  "owner_row s = [(''owner'', JString s)]"

definition owners_db :: database where
  "owners_db schema table = [owner_row ''ann'', owner_row ''bob'']"

theorem read_authorizer_confines_witness:
  "\<exists>t. transform_and_hash_query_with_auth_data std_text (\<lambda>_. []) (\<lambda>_. None) ''q'' (ast_table_only ''issue'')
      (select_permissions [sample_rule]) (JObject [(''sub'', JString ''ann'')]) False = Some t \<and>
    query_rows std_like owners_db (\<lambda>_. True) (th_transformed_ast t) = [owner_row ''ann''] \<and>
    same_results std_like owners_db
      (readable_db std_like (bind_permissions_auth_data std_text (\<lambda>_. None) (JObject [(''sub'', JString ''ann'')])
        (select_permissions [sample_rule])) owners_db)
      (th_transformed_ast t) (ast_table_only ''issue'')"
proof -
  let ?A = "JObject [(''sub'', JString ''ann'')]" and ?P = "select_permissions [sample_rule]"
  let ?T = "bind_static_parameters std_text (\<lambda>_. None) ?A (transform_query (ast_table_only ''issue'') ?P)"
  have rows: "query_rows std_like owners_db (\<lambda>_. True) ?T = [owner_row ''ann'']" by code_simp
  have n: "normalize_ast std_text ?T \<noteq> None" by code_simp
  then obtain t where t: "transform_and_hash_query_with_auth_data std_text (\<lambda>_. []) (\<lambda>_. None) ''q'' (ast_table_only ''issue'') ?P ?A False = Some t"
    by (auto simp: transform_and_hash_query_with_auth_data_def with_hash_def hash_of_ast_def)
  have "th_transformed_ast t = ?T"
    using t by (auto simp: transform_and_hash_query_with_auth_data_def with_hash_def split: Option.bind_splits)
  moreover have "bind_static_parameters std_text (\<lambda>_. None) ?A (ast_table_only ''issue'') = ast_table_only ''issue''"
    by (simp add: ast_table_only_def)
  ultimately show ?thesis using t rows read_authorizer_confines [OF t, of std_like owners_db] by auto
qed

text \<open>
  C16. The hash of a transformed query does not tell a table nobody may read from a table everybody may
  read: for a query without a condition, both transformed queries have the same normal form and so the
  same transformation hash, although the first has no row and the second has all of them. Normalization
  drops the empty disjunction that denies as well as the empty conjunction that allows.
\<close>

theorem deny_and_allow_same_hash:
  assumes "row_select_rules deny table = None" "row_select_rules allow table = Some [And []]"
  shows "hash_of_ast B fmt (transform_query (ast_table_only table) deny) =
      hash_of_ast B fmt (transform_query (ast_table_only table) allow) \<and>
    query_rows L db K (transform_query (ast_table_only table) deny) = [] \<and>
    query_rows L db K (transform_query (ast_table_only table) allow) = filter K (db None table)"
proof -
  have d: "transform_query (ast_table_only table) deny = Ast None table None (Some (Or [])) None None None None"
    using assms(1) by (simp add: transform_query_def ast_table_only_def add_rules_to_where_def join_compound_def)
  have a: "transform_query (ast_table_only table) allow = Ast None table None (Some (And [])) None None None None"
    using assms(2) by (simp add: transform_query_def ast_table_only_def add_rules_to_where_def join_compound_def)
  have "ins_by (make_comparator [] False) r rs = r # rs" for r and rs :: "row list"
    by (cases rs) simp_all
  then have "isort_by (make_comparator [] False) rs = rs" for rs :: "row list"
    by (induction rs) simp_all
  then show ?thesis
    unfolding d a
    by (simp add: hash_of_ast_def rejoin_def query_rows_where where_true_def window_rows_def limit_rows_def bound_allows_def)
qed


theorem deny_and_allow_same_hash_witness:
  "hash_of_ast std_text (\<lambda>_. []) (transform_query (ast_table_only ''issue'') \<lparr>tables = None\<rparr>) =
      hash_of_ast std_text (\<lambda>_. []) (transform_query (ast_table_only ''issue'') (select_permissions [And []])) \<and>
   query_rows std_like owners_db (\<lambda>_. True) (transform_query (ast_table_only ''issue'') \<lparr>tables = None\<rparr>) = [] \<and>
   query_rows std_like owners_db (\<lambda>_. True) (transform_query (ast_table_only ''issue'') (select_permissions [And []])) =
      [owner_row ''ann'', owner_row ''bob'']"
  using deny_and_allow_same_hash [of "\<lparr>tables = None\<rparr>" "''issue''" "select_permissions [And []]" std_text "\<lambda>_. []" std_like owners_db "\<lambda>_. True"]
  by (simp add: row_select_rules_def select_permissions_def owners_db_def)

end
