(* ===== verification/Mutagen.thy ===== *)
theory Mutagen
  imports Protocol_Error Btree Ast_Json
begin

text \<open>
  CRUD mutations (\<open>zero-cache-mutagen/src/crud_ops.rs\<close>, \<open>crud_ops_json.rs\<close>, \<open>sql.rs\<close>,
  \<open>orchestration.rs\<close>, \<open>last_mutation_id.rs\<close> and \<open>zero-cache-types/src/sql.rs\<close>): the operations and
  their decoder, the SQL text that applies them, which statements run, and the check of mutation ids.
  The SQL text is shown to read back as the intended tokens, whatever the client's names and values.
\<close>

section \<open>Operations\<close>

text \<open>Inserts, upserts and updates have the same fields; a delete has the key values only.\<close>

record row_op =
  op_table :: string
  op_primary_key :: "string list"
  op_value :: row

record delete_op =
  del_table :: string
  del_primary_key :: "string list"
  del_value :: "(string, json) btree"

datatype crud_op = CrudInsert row_op | CrudUpsert row_op | CrudUpdate row_op | CrudDelete delete_op

datatype crud_op_error = CrudMissingField string | CrudExpectedString json | CrudExpectedArray json
  | CrudExpectedObject json | CrudUnknownOp string

definition crud_req :: "json \<Rightarrow> string \<Rightarrow> crud_op_error + json" where
  "crud_req v key =
     (case (case v of JObject entries \<Rightarrow> map_option snd (find (\<lambda>(k, _). k = key) entries) | _ \<Rightarrow> None) of
        None \<Rightarrow> Inl (CrudMissingField key)
      | Some w \<Rightarrow> Inr w)"

definition crud_as_str :: "json \<Rightarrow> crud_op_error + string" where
  "crud_as_str v = (case v of JString s \<Rightarrow> Inr s | _ \<Rightarrow> Inl (CrudExpectedString v))"

definition crud_as_array :: "json \<Rightarrow> crud_op_error + json list" where
  "crud_as_array v = (case v of JArray items \<Rightarrow> Inr items | _ \<Rightarrow> Inl (CrudExpectedArray v))"

definition crud_as_object :: "json \<Rightarrow> crud_op_error + row" where
  "crud_as_object v = (case v of JObject entries \<Rightarrow> Inr entries | _ \<Rightarrow> Inl (CrudExpectedObject v))"

definition crud_str_array :: "json \<Rightarrow> crud_op_error + string list" where
  "crud_str_array v = and_then (crud_as_array v) (map_res crud_as_str)"

definition pk_record :: "row \<Rightarrow> (string, json) btree" where
  "pk_record entries = fold (\<lambda>(k, v) m. bt_set k v m) entries []"

definition crud_op_from_json :: "json \<Rightarrow> crud_op_error + crud_op" where
  "crud_op_from_json v =
     and_then (and_then (crud_req v ''op'') crud_as_str) (\<lambda>opr.
     and_then (and_then (crud_req v ''tableName'') crud_as_str) (\<lambda>table.
     and_then (and_then (crud_req v ''primaryKey'') crud_str_array) (\<lambda>pk.
       if opr = ''insert'' \<or> opr = ''upsert'' \<or> opr = ''update'' then
         and_then (and_then (crud_req v ''value'') crud_as_object) (\<lambda>value.
           let body = \<lparr>op_table = table, op_primary_key = pk, op_value = value\<rparr>
           in Inr (if opr = ''insert'' then CrudInsert body else if opr = ''upsert'' then CrudUpsert body else CrudUpdate body))
       else if opr = ''delete'' then
         and_then (and_then (crud_req v ''value'') crud_as_object) (\<lambda>value.
           Inr (CrudDelete \<lparr>del_table = table, del_primary_key = pk, del_value = pk_record value\<rparr>))
       else Inl (CrudUnknownOp opr))))"

section \<open>SQL text\<close>

definition dquote :: char where "dquote = CHR 0x22"
definition squote :: char where "squote = CHR 0x27"

fun double_char :: "char \<Rightarrow> string \<Rightarrow> string" where
  "double_char q [] = []"
| "double_char q (c # s) = (if c = q then q # q # double_char q s else c # double_char q s)"

definition sql_id :: "string \<Rightarrow> string" where
  "sql_id name = [dquote] @ double_char dquote name @ [dquote]"

definition sql_lit :: "string \<Rightarrow> string" where
  "sql_lit v = [squote] @ double_char squote v @ [squote]"

fun join_with :: "string \<Rightarrow> string list \<Rightarrow> string" where
  "join_with sep [] = []"
| "join_with sep [x] = x"
| "join_with sep (x # xs) = x @ sep @ join_with sep xs"

definition sql_id_list :: "string list \<Rightarrow> string" where
  "sql_id_list names = join_with '','' (map sql_id names)"

fun value_sql :: "(rat \<Rightarrow> string) \<Rightarrow> json \<Rightarrow> string" where
  "value_sql fmt JNull = ''NULL''"
| "value_sql fmt (JBool b) = (if b then ''TRUE'' else ''FALSE'')"
| "value_sql fmt (JNumber n) = f64_display fmt n"
| "value_sql fmt (JBigInt b) = int_to_string b"
| "value_sql fmt (JString s) = sql_lit s"
| "value_sql fmt v = sql_lit (stringify fmt v)"

definition row_columns_sql :: "row \<Rightarrow> string" where
  "row_columns_sql row = ''('' @ join_with '','' (map (\<lambda>(k, _). sql_id k) row) @ '')''"

definition row_values_sql :: "(rat \<Rightarrow> string) \<Rightarrow> row \<Rightarrow> string" where
  "row_values_sql fmt row = ''('' @ join_with '','' (map (\<lambda>(_, v). value_sql fmt v) row) @ '')''"

definition assign_sql :: "(rat \<Rightarrow> string) \<Rightarrow> string \<Rightarrow> json \<Rightarrow> string" where
  "assign_sql fmt k v = sql_id k @ '' = '' @ value_sql fmt v"

definition set_clause :: "(rat \<Rightarrow> string) \<Rightarrow> row \<Rightarrow> string" where
  "set_clause fmt row = join_with '','' (map (\<lambda>(k, v). assign_sql fmt k v) row)"

definition get_insert_sql :: "(rat \<Rightarrow> string) \<Rightarrow> row_op \<Rightarrow> string" where
  "get_insert_sql fmt opr =
     ''INSERT INTO '' @ sql_id (op_table opr) @ '' '' @ row_columns_sql (op_value opr) @ '' VALUES '' @
     row_values_sql fmt (op_value opr)"

definition get_upsert_sql :: "(rat \<Rightarrow> string) \<Rightarrow> row_op \<Rightarrow> string" where
  "get_upsert_sql fmt opr =
     ''INSERT INTO '' @ sql_id (op_table opr) @ '' '' @ row_columns_sql (op_value opr) @ '' VALUES '' @
     row_values_sql fmt (op_value opr) @ '' ON CONFLICT ('' @ join_with '','' (map sql_id (op_primary_key opr)) @
     '') DO UPDATE SET '' @ set_clause fmt (op_value opr)"

text \<open>\<open>None\<close> is the panic on a primary key column that is missing from the values.\<close>

definition row_get :: "row \<Rightarrow> string \<Rightarrow> json option" where
  "row_get row col = map_option snd (find (\<lambda>(k, _). k = col) row)"

definition get_update_sql :: "(rat \<Rightarrow> string) \<Rightarrow> row_op \<Rightarrow> string option" where
  "get_update_sql fmt opr =
     do {
       conds \<leftarrow> map_opt (\<lambda>k. do { v \<leftarrow> row_get (op_value opr) k; Some (assign_sql fmt k v) }) (op_primary_key opr);
       Some (''UPDATE '' @ sql_id (op_table opr) @ '' SET '' @ set_clause fmt (op_value opr) @ '' WHERE '' @
             join_with '' AND '' conds)
     }"

definition get_delete_sql :: "(rat \<Rightarrow> string) \<Rightarrow> delete_op \<Rightarrow> string option" where
  "get_delete_sql fmt opr =
     do {
       conds \<leftarrow> map_opt (\<lambda>k. do { v \<leftarrow> map_of (del_value opr) k; Some (assign_sql fmt k v) }) (del_primary_key opr);
       Some (''DELETE FROM '' @ sql_id (del_table opr) @ '' WHERE '' @ join_with '' AND '' conds)
     }"

fun crud_op_sql :: "(rat \<Rightarrow> string) \<Rightarrow> crud_op \<Rightarrow> string option" where
  "crud_op_sql fmt (CrudInsert opr) = Some (get_insert_sql fmt opr)"
| "crud_op_sql fmt (CrudUpsert opr) = Some (get_upsert_sql fmt opr)"
| "crud_op_sql fmt (CrudUpdate opr) = get_update_sql fmt opr"
| "crud_op_sql fmt (CrudDelete opr) = get_delete_sql fmt opr"

definition plan_mutation_sql :: "(rat \<Rightarrow> string) \<Rightarrow> crud_op list \<Rightarrow> bool \<Rightarrow> bool \<Rightarrow> string list option" where
  "plan_mutation_sql fmt ops error_mode authorized =
     (if error_mode \<or> \<not> authorized then Some [] else map_opt (crud_op_sql fmt) ops)"

section \<open>Mutation ids\<close>

datatype mutation_id_check = IdOk | AlreadyProcessed string int int | UnexpectedId error_body

definition check_mutation_id :: "string \<Rightarrow> int \<Rightarrow> int \<Rightarrow> mutation_id_check" where
  "check_mutation_id client_id received last_id =
     (case cmp_linorder received last_id of
        Less \<Rightarrow> AlreadyProcessed client_id received last_id
      | Greater \<Rightarrow> UnexpectedId (error_body_new EkInvalidPush
          (''Push contains unexpected mutation id '' @ int_to_string received @ '' for client '' @ client_id @
           ''. Expected mutation id '' @ int_to_string last_id @ ''.'') (Some OriginZeroCache))
      | Equal \<Rightarrow> IdOk)"

definition get_upsert_last_mutation_id_sql :: "string \<Rightarrow> string \<Rightarrow> string \<Rightarrow> string" where
  "get_upsert_last_mutation_id_sql upstream_schema client_group_id client_id =
     ''INSERT INTO '' @ sql_id upstream_schema @ ''.clients as current ('' @ sql_id ''clientGroupID'' @ '', '' @
     sql_id ''clientID'' @ '', '' @ sql_id ''lastMutationID'' @ '') VALUES ('' @ sql_lit client_group_id @ '', '' @
     sql_lit client_id @ '', 1) ON CONFLICT ('' @ sql_id ''clientGroupID'' @ '', '' @ sql_id ''clientID'' @
     '') DO UPDATE SET '' @ sql_id ''lastMutationID'' @ '' = current.'' @ sql_id ''lastMutationID'' @
     '' + 1 RETURNING '' @ sql_id ''lastMutationID''"


section \<open>Reading SQL text\<close>

text \<open>
  The lexical structure of SQL that matters for injection: a quoted identifier or literal extends to
  the next quote that is not doubled; every other character stands for itself.
\<close>

datatype sql_token = TIdent string | TLit string | TRaw char

fun read_quoted :: "char \<Rightarrow> string \<Rightarrow> (string \<times> string) option" where
  "read_quoted q [] = None"
| "read_quoted q (c # s) =
     (if c = q
      then (case s of
              d # t \<Rightarrow> if d = q then map_option (\<lambda>(x, r). (q # x, r)) (read_quoted q t) else Some ([], s)
            | [] \<Rightarrow> Some ([], []))
      else map_option (\<lambda>(x, r). (c # x, r)) (read_quoted q s))"

lemma read_quoted_length: "read_quoted q s = Some (x, r) \<Longrightarrow> length r < length s"
  by (induction q s arbitrary: x r rule: read_quoted.induct) (fastforce split: if_splits list.splits)+

function lex_sql :: "string \<Rightarrow> sql_token list option" where
  "lex_sql [] = Some []"
| "lex_sql (c # s) =
     (if c = dquote then do { (x, r) \<leftarrow> read_quoted dquote s; ts \<leftarrow> lex_sql r; Some (TIdent x # ts) }
      else if c = squote then do { (x, r) \<leftarrow> read_quoted squote s; ts \<leftarrow> lex_sql r; Some (TLit x # ts) }
      else do { ts \<leftarrow> lex_sql s; Some (TRaw c # ts) })"
  by pat_completeness auto
termination
  by (relation "measure length") (auto dest: read_quoted_length)

text \<open>A statement as the pieces it is built from.\<close>

datatype piece = PRaw string | PIdent string | PLit string

fun render :: "piece list \<Rightarrow> string" where
  "render [] = []"
| "render (PRaw s # ps) = s @ render ps"
| "render (PIdent x # ps) = sql_id x @ render ps"
| "render (PLit x # ps) = sql_lit x @ render ps"

fun tokens :: "piece list \<Rightarrow> sql_token list" where
  "tokens [] = []"
| "tokens (PRaw s # ps) = map TRaw s @ tokens ps"
| "tokens (PIdent x # ps) = TIdent x # tokens ps"
| "tokens (PLit x # ps) = TLit x # tokens ps"

definition plain :: "string \<Rightarrow> bool" where
  "plain s \<longleftrightarrow> dquote \<notin> set s \<and> squote \<notin> set s"

fun starts_raw :: "piece list \<Rightarrow> bool" where
  "starts_raw [] = True"
| "starts_raw (PRaw s # ps) = (s \<noteq> [])"
| "starts_raw _ = False"

fun pieces_ok :: "piece list \<Rightarrow> bool" where
  "pieces_ok [] = True"
| "pieces_ok (PRaw s # ps) = (plain s \<and> pieces_ok ps)"
| "pieces_ok (_ # ps) = (starts_raw ps \<and> pieces_ok ps)"

lemma quote_distinct [simp]: "dquote \<noteq> squote" "squote \<noteq> dquote"
  by (simp_all add: dquote_def squote_def)

lemma read_quoted_double:
  "(case rest of [] \<Rightarrow> True | c # _ \<Rightarrow> c \<noteq> q) \<Longrightarrow> read_quoted q (double_char q x @ q # rest) = Some (x, rest)"
  by (induction q x rule: double_char.induct) (auto split: list.splits)

lemma starts_raw_render:
  "starts_raw ps \<Longrightarrow> pieces_ok ps \<Longrightarrow> (case render ps of [] \<Rightarrow> True | c # _ \<Rightarrow> c \<noteq> dquote \<and> c \<noteq> squote)"
  by (cases ps rule: starts_raw.cases) (auto simp: plain_def neq_Nil_conv)

lemma lex_plain: "plain s \<Longrightarrow> lex_sql rest = Some ts \<Longrightarrow> lex_sql (s @ rest) = Some (map TRaw s @ ts)"
  by (induction s) (auto simp: plain_def)

lemma lex_render: "pieces_ok ps \<Longrightarrow> lex_sql (render ps) = Some (tokens ps)"
proof (induction ps rule: render.induct)
  case (3 x ps)
  then have "read_quoted dquote (double_char dquote x @ dquote # render ps) = Some (x, render ps)"
    using starts_raw_render [of ps] by (intro read_quoted_double) (auto split: list.splits)
  with 3 show ?case by (simp add: sql_id_def)
next
  case (4 x ps)
  then have "read_quoted squote (double_char squote x @ squote # render ps) = Some (x, render ps)"
    using starts_raw_render [of ps] by (intro read_quoted_double) (auto split: list.splits)
  with 4 show ?case by (simp add: sql_lit_def)
qed (simp_all add: lex_plain)


fun join_pieces :: "string \<Rightarrow> piece list list \<Rightarrow> piece list" where
  "join_pieces sep [] = []"
| "join_pieces sep [x] = x"
| "join_pieces sep (x # xs) = x @ [PRaw sep] @ join_pieces sep xs"

lemma render_append [simp]: "render (ps @ qs) = render ps @ render qs"
  by (induction ps rule: render.induct) simp_all

lemma render_join: "render (join_pieces sep pss) = join_with sep (map render pss)"
  by (induction sep pss rule: join_pieces.induct) simp_all

lemma starts_raw_append: "starts_raw ps \<Longrightarrow> starts_raw qs \<Longrightarrow> starts_raw (ps @ qs)"
  by (cases ps rule: starts_raw.cases) auto

lemma pieces_ok_append: "pieces_ok ps \<Longrightarrow> pieces_ok qs \<Longrightarrow> starts_raw qs \<Longrightarrow> pieces_ok (ps @ qs)"
  by (induction ps rule: pieces_ok.induct) (auto simp: starts_raw_append)

lemma pieces_ok_join:
  "plain sep \<Longrightarrow> sep \<noteq> [] \<Longrightarrow> list_all pieces_ok pss \<Longrightarrow> pieces_ok (join_pieces sep pss)"
  by (induction sep pss rule: join_pieces.induct) (auto intro!: pieces_ok_append)

text \<open>The pieces of a value, of an assignment and of each statement.\<close>

fun value_pieces :: "(rat \<Rightarrow> string) \<Rightarrow> json \<Rightarrow> piece list" where
  "value_pieces fmt (JString s) = [PLit s]"
| "value_pieces fmt (JArray vs) = [PLit (stringify fmt (JArray vs))]"
| "value_pieces fmt (JObject es) = [PLit (stringify fmt (JObject es))]"
| "value_pieces fmt v = [PRaw (value_sql fmt v)]"

definition assign_pieces :: "(rat \<Rightarrow> string) \<Rightarrow> string \<times> json \<Rightarrow> piece list" where
  "assign_pieces fmt kv = [PIdent (fst kv), PRaw '' = ''] @ value_pieces fmt (snd kv)"

definition row_pieces :: "(rat \<Rightarrow> string) \<Rightarrow> string \<Rightarrow> row \<Rightarrow> piece list" where
  "row_pieces fmt table row =
     [PRaw ''INSERT INTO '', PIdent table, PRaw '' ('' ] @ join_pieces '','' (map (\<lambda>(k, _). [PIdent k]) row) @
     [PRaw '') VALUES (''] @ join_pieces '','' (map (\<lambda>(_, v). value_pieces fmt v) row) @ [PRaw '')'']"

definition set_pieces :: "(rat \<Rightarrow> string) \<Rightarrow> row \<Rightarrow> piece list" where
  "set_pieces fmt row = join_pieces '','' (map (assign_pieces fmt) row)"

definition key_pieces :: "(rat \<Rightarrow> string) \<Rightarrow> (string \<rightharpoonup> json) \<Rightarrow> string list \<Rightarrow> piece list" where
  "key_pieces fmt m pk = join_pieces '' AND '' (map (\<lambda>k. assign_pieces fmt (k, the (m k))) pk)"

fun op_pieces :: "(rat \<Rightarrow> string) \<Rightarrow> crud_op \<Rightarrow> piece list" where
  "op_pieces fmt (CrudInsert opr) = row_pieces fmt (op_table opr) (op_value opr)"
| "op_pieces fmt (CrudUpsert opr) =
     row_pieces fmt (op_table opr) (op_value opr) @
     [PRaw '' ON CONFLICT (''] @ join_pieces '','' (map (\<lambda>k. [PIdent k]) (op_primary_key opr)) @
     [PRaw '') DO UPDATE SET ''] @ set_pieces fmt (op_value opr)"
| "op_pieces fmt (CrudUpdate opr) =
     [PRaw ''UPDATE '', PIdent (op_table opr), PRaw '' SET ''] @ set_pieces fmt (op_value opr) @
     [PRaw '' WHERE ''] @ key_pieces fmt (row_get (op_value opr)) (op_primary_key opr)"
| "op_pieces fmt (CrudDelete opr) =
     [PRaw ''DELETE FROM '', PIdent (del_table opr), PRaw '' WHERE ''] @
     key_pieces fmt (map_of (del_value opr)) (del_primary_key opr)"

lemma render_value: "render (value_pieces fmt v) = value_sql fmt v"
  by (cases v) simp_all

lemma render_assign: "render (assign_pieces fmt kv) = assign_sql fmt (fst kv) (snd kv)"
  by (simp add: assign_pieces_def assign_sql_def render_value)

lemma render_keys:
  "map_opt (\<lambda>k. do { v \<leftarrow> m k; Some (assign_sql fmt k v) }) pk = Some conds \<Longrightarrow>
   render (key_pieces fmt m pk) = join_with '' AND '' conds"
proof -
  assume a: "map_opt (\<lambda>k. do { v \<leftarrow> m k; Some (assign_sql fmt k v) }) pk = Some conds"
  then have "conds = map (\<lambda>k. assign_sql fmt k (the (m k))) pk"
    by (induction pk arbitrary: conds) (auto simp: option_mono)
  then show ?thesis by (simp add: key_pieces_def render_join comp_def render_assign)
qed

lemma render_op: "crud_op_sql fmt opr = Some sql \<Longrightarrow> render (op_pieces fmt opr) = sql"
  by (cases opr)
    (auto simp: get_insert_sql_def get_upsert_sql_def get_update_sql_def get_delete_sql_def row_pieces_def set_pieces_def
      set_clause_def row_columns_sql_def row_values_sql_def render_join render_value render_assign comp_def
      split_def option_mono dest: render_keys)


lemma plain_simps [simp]: "plain []" "plain (c # s) \<longleftrightarrow> c \<noteq> dquote \<and> c \<noteq> squote \<and> plain s" "plain (s @ t) \<longleftrightarrow> plain s \<and> plain t"
  by (auto simp: plain_def)

lemma plain_nat_digits: "plain (nat_digits n)"
proof -
  have "digit_char d \<noteq> dquote \<and> digit_char d \<noteq> squote" if "d < 10" for d
    using of_digit_char [of d] that by (auto simp: dquote_def squote_def)
  moreover have "\<forall>d\<in>set (radix_digits 10 n). d < 10" using radix_digits_less by simp
  ultimately show ?thesis by (fastforce simp: plain_def nat_digits_def)
qed

lemma plain_value:
  assumes "\<forall>q. plain (fmt q)"
  shows "pieces_ok (value_pieces fmt v)"
  using assms plain_nat_digits
  by (cases v) (auto simp: f64_display_def int_to_string_def dquote_def squote_def split: f64.splits)

lemma pieces_ok_assign: "\<forall>q. plain (fmt q) \<Longrightarrow> pieces_ok (assign_pieces fmt kv)"
  by (simp add: assign_pieces_def plain_value dquote_def squote_def)

lemma pieces_ok_op: 
  assumes "\<forall>q. plain (fmt q)"
  shows "pieces_ok (op_pieces fmt opr)"
proof -
  note ok = pieces_ok_append pieces_ok_join
  have row: "pieces_ok (row_pieces fmt table row)" for table row
    unfolding row_pieces_def by (auto intro!: ok simp: list_all_iff plain_value [OF assms] dquote_def squote_def)
  have set: "pieces_ok (set_pieces fmt row)" for row
    unfolding set_pieces_def by (intro ok) (auto simp: list_all_iff pieces_ok_assign [OF assms] dquote_def squote_def)
  have key: "pieces_ok (key_pieces fmt m pk)" for m pk
    unfolding key_pieces_def by (intro ok) (auto simp: list_all_iff pieces_ok_assign [OF assms] dquote_def squote_def)
  show ?thesis
    by (cases opr) (auto intro!: ok row set key simp: list_all_iff dquote_def squote_def)
qed


section \<open>Properties\<close>

text \<open>
  C14. The SQL text of a mutation says what the mutation means: read as SQL, its tokens are the fixed
  words of the statement with the table, column names and string values as single identifier and
  literal tokens, so that no name or value a client sends can change the shape of the statement. The
  hypothesis is that the text of a number contains no quote.
\<close>

theorem mutation_sql_tokens:
  assumes "\<forall>q. plain (fmt q)" "plan_mutation_sql fmt ops error_mode authorized = Some sqls"
  shows "map lex_sql sqls =
    (if error_mode \<or> \<not> authorized then [] else map (\<lambda>opr. Some (tokens (op_pieces fmt opr))) ops)"
proof -
  have "map lex_sql sqls = map (\<lambda>opr. Some (tokens (op_pieces fmt opr))) ops" if "map_opt (crud_op_sql fmt) ops = Some sqls"
    using that
  proof (induction ops arbitrary: sqls)
    case (Cons opr ops)
    then obtain s ss where s: "crud_op_sql fmt opr = Some s" "map_opt (crud_op_sql fmt) ops = Some ss" "sqls = s # ss"
      by (auto simp: option_mono)
    have "lex_sql s = Some (tokens (op_pieces fmt opr))"
      using lex_render [OF pieces_ok_op [OF assms(1)], of opr] render_op [OF s(1)] by simp
    with Cons.IH [OF s(2)] s(3) show ?case by simp
  qed simp
  then show ?thesis using assms(2) by (auto simp: plan_mutation_sql_def split: if_splits)
qed

definition sample_ops :: "crud_op list" where
  "sample_ops =
     [CrudUpdate \<lparr>op_table = [dquote], op_primary_key = [''id''],
        op_value = [(''id'', JNumber (F_Fin 7)), (''t'', JString ([squote] @ ''; DROP TABLE x; --''))]\<rparr>]"

theorem mutation_sql_tokens_witness:
  "\<exists>sql. plan_mutation_sql (\<lambda>_. []) sample_ops False True = Some [sql] \<and>
    lex_sql sql = Some (map TRaw ''UPDATE '' @ [TIdent [dquote]] @ map TRaw '' SET '' @ [TIdent ''id''] @ map TRaw '' = 7,'' @
      [TIdent ''t''] @ map TRaw '' = '' @ [TLit ([squote] @ ''; DROP TABLE x; --'')] @ map TRaw '' WHERE '' @
      [TIdent ''id''] @ map TRaw '' = 7'')"
proof -
  obtain sql where sql: "plan_mutation_sql (\<lambda>_. []) sample_ops False True = Some [sql]"
    by (simp add: plan_mutation_sql_def sample_ops_def get_update_sql_def row_get_def)
  have "tokens (op_pieces (\<lambda>_. []) (hd sample_ops)) =
      map TRaw ''UPDATE '' @ [TIdent [dquote]] @ map TRaw '' SET '' @ [TIdent ''id''] @ map TRaw '' = 7,'' @
      [TIdent ''t''] @ map TRaw '' = '' @ [TLit ([squote] @ ''; DROP TABLE x; --'')] @ map TRaw '' WHERE '' @
      [TIdent ''id''] @ map TRaw '' = 7''"
    by code_simp
  then show ?thesis
    using mutation_sql_tokens [of "\<lambda>_. []" sample_ops False True "[sql]"] sql by (simp add: sample_ops_def)
qed

end
