(* ===== verification/Auth_Write.thy ===== *)
theory Auth_Write
  imports Auth_Read Mutagen Json_Parse
begin

text \<open>
  The write authorizer (\<open>zero-cache-auth/src/write_authorizer.rs\<close>) and the decoder of compiled
  permissions (\<open>compiled_permissions.rs\<close>). The lookups in the replica are parameters, as in the code:
  whether a row exists, the row before and the row after an operation. A mutation is shown to be
  planned only when every one of its operations passes every policy that applies to it.
\<close>

section \<open>Operations without upserts\<close>

datatype normalized_op = NormInsert row_op | NormUpdate row_op | NormDelete delete_op

definition crud_table :: "crud_op \<Rightarrow> string" where
  "crud_table opr =
     (case opr of
        CrudInsert b \<Rightarrow> op_table b
      | CrudUpsert b \<Rightarrow> op_table b
      | CrudUpdate b \<Rightarrow> op_table b
      | CrudDelete d \<Rightarrow> del_table d)"

text \<open>\<open>Inl\<close> is the error of the first table that is not known.\<close>

fun validate_table_names :: "crud_op list \<Rightarrow> string set \<Rightarrow> string + unit" where
  "validate_table_names [] known = Inr ()"
| "validate_table_names (opr # ops) known =
     (if crud_table opr \<notin> known then Inl (crud_table opr) else validate_table_names ops known)"

fun normalize_op :: "(row_op \<Rightarrow> bool) \<Rightarrow> crud_op \<Rightarrow> normalized_op" where
  "normalize_op row_exists (CrudUpsert b) = (if row_exists b then NormUpdate b else NormInsert b)"
| "normalize_op row_exists (CrudInsert b) = NormInsert b"
| "normalize_op row_exists (CrudUpdate b) = NormUpdate b"
| "normalize_op row_exists (CrudDelete d) = NormDelete d"

definition normalize_ops :: "(row_op \<Rightarrow> bool) \<Rightarrow> crud_op list \<Rightarrow> normalized_op list" where
  "normalize_ops row_exists ops = map (normalize_op row_exists) ops"

definition changed_columns :: "row \<Rightarrow> string list" where
  "changed_columns row = map fst row"

section \<open>The checks before and after\<close>

definition update_key :: "row_op \<Rightarrow> row" where
  "update_key b = filter (\<lambda>(k, _). k \<in> set (op_primary_key b)) (op_value b)"

fun can_pre_mutation_with_exists ::
  "'b like_lib_scheme \<Rightarrow> exists_fn \<Rightarrow> table_permissions \<Rightarrow> (string \<Rightarrow> row \<Rightarrow> row option) \<Rightarrow> normalized_op list \<Rightarrow> bool option" where
  "can_pre_mutation_with_exists L ex ts existing_row [] = Some True"
| "can_pre_mutation_with_exists L ex ts existing_row (NormInsert b # ops) =
     can_pre_mutation_with_exists L ex ts existing_row ops"
| "can_pre_mutation_with_exists L ex ts existing_row (NormUpdate b # ops) =
     (case existing_row (op_table b) (update_key b) of
        None \<Rightarrow> Some False
      | Some row \<Rightarrow>
          do {
            ok \<leftarrow> can_do_with_exists L ex (map_of ts (op_table b)) AUpdate PreMutation row (changed_columns (op_value b));
            if ok then can_pre_mutation_with_exists L ex ts existing_row ops else Some False
          })"
| "can_pre_mutation_with_exists L ex ts existing_row (NormDelete d # ops) =
     (case existing_row (del_table d) (del_value d) of
        None \<Rightarrow> Some False
      | Some row \<Rightarrow>
          do {
            ok \<leftarrow> can_do_with_exists L ex (map_of ts (del_table d)) ADelete PreMutation row [];
            if ok then can_pre_mutation_with_exists L ex ts existing_row ops else Some False
          })"

fun can_post_mutation_with_exists ::
  "'b like_lib_scheme \<Rightarrow> exists_fn \<Rightarrow> table_permissions \<Rightarrow> (normalized_op \<Rightarrow> row) \<Rightarrow> normalized_op list \<Rightarrow> bool option" where
  "can_post_mutation_with_exists L ex ts resulting_row [] = Some True"
| "can_post_mutation_with_exists L ex ts resulting_row (NormInsert b # ops) =
     do {
       ok \<leftarrow> can_do_with_exists L ex (map_of ts (op_table b)) AInsert PostMutation (resulting_row (NormInsert b)) [];
       if ok then can_post_mutation_with_exists L ex ts resulting_row ops else Some False
     }"
| "can_post_mutation_with_exists L ex ts resulting_row (NormUpdate b # ops) =
     do {
       ok \<leftarrow> can_do_with_exists L ex (map_of ts (op_table b)) AUpdate PostMutation (resulting_row (NormUpdate b))
         (changed_columns (op_value b));
       if ok then can_post_mutation_with_exists L ex ts resulting_row ops else Some False
     }"
| "can_post_mutation_with_exists L ex ts resulting_row (NormDelete d # ops) =
     can_post_mutation_with_exists L ex ts resulting_row ops"

definition authorize_mutation_with_exists ::
  "'b like_lib_scheme \<Rightarrow> exists_fn \<Rightarrow> crud_op list \<Rightarrow> string set \<Rightarrow> table_permissions \<Rightarrow> (row_op \<Rightarrow> bool) \<Rightarrow>
   (string \<Rightarrow> row \<Rightarrow> row option) \<Rightarrow> (normalized_op \<Rightarrow> row) \<Rightarrow> (string + bool) option" where
  "authorize_mutation_with_exists L ex ops known ts row_exists existing_row resulting_row =
     (case validate_table_names ops known of
        Inl e \<Rightarrow> Some (Inl e)
      | Inr _ \<Rightarrow>
          do {
            let normalized = normalize_ops row_exists ops;
            can_pre \<leftarrow> can_pre_mutation_with_exists L ex ts existing_row normalized;
            can_post \<leftarrow> can_post_mutation_with_exists L ex ts resulting_row normalized;
            Some (Inr (can_pre \<and> can_post))
          })"

definition authorize_and_plan_mutation ::
  "'b like_lib_scheme \<Rightarrow> (rat \<Rightarrow> string) \<Rightarrow> crud_op list \<Rightarrow> bool \<Rightarrow> string set \<Rightarrow> table_permissions \<Rightarrow> (row_op \<Rightarrow> bool) \<Rightarrow>
   (string \<Rightarrow> row \<Rightarrow> row option) \<Rightarrow> (normalized_op \<Rightarrow> row) \<Rightarrow> (string + string list) option" where
  "authorize_and_plan_mutation L fmt ops error_mode known ts row_exists existing_row resulting_row =
     (if error_mode then Some (Inr [])
      else do {
        authorized \<leftarrow> authorize_mutation_with_exists L (\<lambda>_ _. None) ops known ts row_exists existing_row resulting_row;
        (case authorized of
           Inl e \<Rightarrow> Some (Inl e)
         | Inr b \<Rightarrow> map_option Inr (plan_mutation_sql fmt ops error_mode b))
      })"

section \<open>Specification\<close>

text \<open>
  What an operation needs: the row before an update or delete exists and is allowed by every policy
  that applies before the mutation, and the row after an insert or update by every one that applies after it.
\<close>

definition all_allow :: "'b like_lib_scheme \<Rightarrow> exists_fn \<Rightarrow> table_permissions \<Rightarrow> string \<Rightarrow> action \<Rightarrow> phase \<Rightarrow> string list \<Rightarrow> row \<Rightarrow> bool" where
  "all_allow L ex ts table act ph changed row \<longleftrightarrow>
     (\<forall>p\<in>set (required_policies (map_of ts table) act ph changed). allows L ex p row)"

fun write_allowed ::
  "'b like_lib_scheme \<Rightarrow> exists_fn \<Rightarrow> table_permissions \<Rightarrow> (string \<Rightarrow> row \<Rightarrow> row option) \<Rightarrow> (normalized_op \<Rightarrow> row) \<Rightarrow> normalized_op \<Rightarrow> bool" where
  "write_allowed L ex ts existing_row resulting_row (NormInsert b) \<longleftrightarrow>
     all_allow L ex ts (op_table b) AInsert PostMutation [] (resulting_row (NormInsert b))"
| "write_allowed L ex ts existing_row resulting_row (NormUpdate b) \<longleftrightarrow>
     (\<exists>row. existing_row (op_table b) (update_key b) = Some row \<and>
        all_allow L ex ts (op_table b) AUpdate PreMutation (changed_columns (op_value b)) row) \<and>
     all_allow L ex ts (op_table b) AUpdate PostMutation (changed_columns (op_value b)) (resulting_row (NormUpdate b))"
| "write_allowed L ex ts existing_row resulting_row (NormDelete d) \<longleftrightarrow>
     (\<exists>row. existing_row (del_table d) (del_value d) = Some row \<and>
        all_allow L ex ts (del_table d) ADelete PreMutation [] row)"

lemma can_do_all_allow:
  "can_do_with_exists L ex (map_of ts table) act ph row changed = Some True \<Longrightarrow> all_allow L ex ts table act ph changed row"
  by (auto simp: all_allow_def dest: can_do_True)

lemma checks_allow:
  assumes "can_pre_mutation_with_exists L ex ts existing_row ops = Some True"
    and "can_post_mutation_with_exists L ex ts resulting_row ops = Some True" "opr \<in> set ops"
  shows "write_allowed L ex ts existing_row resulting_row opr"
  using assms
proof (induction ops)
  case (Cons a ops)
  then show ?case
    by (cases a) (auto simp: option_mono dest: can_do_all_allow split: option.splits if_splits)
qed simp

lemma validate_names: "validate_table_names ops known = Inr () \<longleftrightarrow> (\<forall>opr\<in>set ops. crud_table opr \<in> known)"
  by (induction ops) auto


section \<open>Compiled permissions\<close>

datatype permissions_error = PermShape string | PermCondition ast_json_error

definition perm_object :: "json \<Rightarrow> string \<Rightarrow> permissions_error + (string \<times> json) list" where
  "perm_object v ctx = (case v of JObject entries \<Rightarrow> Inr entries | _ \<Rightarrow> Inl (PermShape (ctx @ '' must be an object'')))"

definition perm_array :: "json \<Rightarrow> string \<Rightarrow> permissions_error + json list" where
  "perm_array v ctx = (case v of JArray items \<Rightarrow> Inr items | _ \<Rightarrow> Inl (PermShape (ctx @ '' must be an array'')))"

definition perm_string :: "json \<Rightarrow> string \<Rightarrow> permissions_error + string" where
  "perm_string v ctx = (case v of JString s \<Rightarrow> Inr s | _ \<Rightarrow> Inl (PermShape (ctx @ '' must be a string'')))"

definition compiled_condition_from_json :: "json \<Rightarrow> permissions_error + condition" where
  "compiled_condition_from_json v =
     (if (case v of JObject obj \<Rightarrow> field obj ''type'' = Some (JString ''literal'') | _ \<Rightarrow> False)
      then (case v of JObject obj \<Rightarrow>
              (case field obj ''value'' of
                 Some (JBool b) \<Rightarrow> Inr (if b then And [] else Or [])
               | _ \<Rightarrow> Inl (PermShape ''literal policy condition must contain a boolean value'')))
      else (case condition_from_json v of Inl e \<Rightarrow> Inl (PermCondition e) | Inr c \<Rightarrow> Inr c))"

definition rule_context :: "string \<Rightarrow> nat \<Rightarrow> string" where
  "rule_context ctx index = ctx @ ''['' @ nat_digits index @ '']''"

definition policy_rule :: "string \<Rightarrow> nat \<Rightarrow> json \<Rightarrow> permissions_error + condition" where
  "policy_rule ctx index v =
     and_then (perm_array v (rule_context ctx index)) (\<lambda>rule.
       case rule of
         [allow, cond] \<Rightarrow>
           and_then (perm_string allow (rule_context ctx index @ ''[0]'')) (\<lambda>s.
             if s \<noteq> ''allow'' then Inl (PermShape (rule_context ctx index @ ''[0] must be '' @ [squote] @ ''allow'' @ [squote]))
             else compiled_condition_from_json cond)
       | _ \<Rightarrow> Inl (PermShape (rule_context ctx index @ '' must be ['allow', condition]'')))"

definition policy_from_json :: "json \<Rightarrow> string \<Rightarrow> permissions_error + policy" where
  "policy_from_json v ctx = and_then (perm_array v ctx) (\<lambda>items. map_res (\<lambda>(i, rule). policy_rule ctx i rule) (enumerate 0 items))"

definition optional_policy :: "(string \<times> json) list \<Rightarrow> string \<Rightarrow> string \<Rightarrow> permissions_error + policy option" where
  "optional_policy obj name ctx = transpose_res (map_option (\<lambda>v. policy_from_json v (ctx @ ''.'' @ name)) (field obj name))"

definition asset_from_json :: "json \<Rightarrow> string \<Rightarrow> permissions_error + asset_permissions" where
  "asset_from_json v ctx =
     and_then (perm_object v ctx) (\<lambda>obj.
     and_then (case field obj ''update'' of
         Some u \<Rightarrow>
           and_then (perm_object u (ctx @ ''.update'')) (\<lambda>uobj.
           and_then (optional_policy uobj ''preMutation'' (ctx @ ''.update'')) (\<lambda>pre.
           and_then (optional_policy uobj ''postMutation'' (ctx @ ''.update'')) (\<lambda>post.
             Inr \<lparr>pre_mutation = pre, post_mutation = post\<rparr>)))
       | None \<Rightarrow> Inr \<lparr>pre_mutation = None, post_mutation = None\<rparr>) (\<lambda>upd.
     and_then (optional_policy obj ''select'' ctx) (\<lambda>sel.
     and_then (optional_policy obj ''insert'' ctx) (\<lambda>ins.
     and_then (optional_policy obj ''delete'' ctx) (\<lambda>del.
       Inr \<lparr>ap_select = sel, ap_insert = ins, ap_update = upd, ap_delete = del\<rparr>)))))"

text \<open>Collecting named entries into an ordered map, up to the first error; a later entry of the same name wins.\<close>

fun collect_entries :: "(string \<Rightarrow> json \<Rightarrow> 'e + 'v) \<Rightarrow> (string \<times> json) list \<Rightarrow> (string, 'v) btree \<Rightarrow> 'e + (string, 'v) btree" where
  "collect_entries f [] m = Inr m"
| "collect_entries f ((name, v) # entries) m = and_then (f name v) (\<lambda>x. collect_entries f entries (bt_set name x m))"

definition table_permissions_from_json :: "json \<Rightarrow> permissions_error + table_permissions_entry" where
  "table_permissions_from_json v =
     and_then (perm_object v ''permissions.tables.<table>'') (\<lambda>obj.
     and_then (transpose_res (map_option (\<lambda>r. asset_from_json r ''permissions.tables.<table>.row'') (field obj ''row''))) (\<lambda>row.
     and_then (case field obj ''cell'' of
         Some cells \<Rightarrow>
           and_then (perm_object cells ''permissions.tables.<table>.cell'') (\<lambda>cobj.
           and_then (collect_entries (\<lambda>column p. asset_from_json p (''permissions.tables.<table>.cell.'' @ column)) cobj []) (\<lambda>m.
             Inr (Some m)))
       | None \<Rightarrow> Inr None) (\<lambda>cell. Inr \<lparr>tp_row = row, tp_cell = cell\<rparr>)))"

definition parse_compiled_permissions :: "json \<Rightarrow> permissions_error + permissions_config" where
  "parse_compiled_permissions v =
     and_then (perm_object v ''root'') (\<lambda>root_obj.
     and_then (case field root_obj ''permissions'' of
         Some p \<Rightarrow> if p = JNull then Inl (PermShape ''root.permissions must not be null'') else Inr p
       | None \<Rightarrow> if field root_obj ''schema'' \<noteq> None
           then Inl (PermShape ''ZERO_SCHEMA_JSON is missing its permissions member'') else Inr v) (\<lambda>p.
     and_then (perm_object p ''permissions'') (\<lambda>pobj.
       case field pobj ''tables'' of
         None \<Rightarrow> Inr \<lparr>tables = None\<rparr>
       | Some t \<Rightarrow>
           and_then (perm_object t ''permissions.tables'') (\<lambda>tobj.
           and_then (collect_entries (\<lambda>_ p. table_permissions_from_json p) tobj []) (\<lambda>m.
             Inr \<lparr>tables = Some m\<rparr>)))))"

text \<open>From text: \<open>None\<close> is a parser out of fuel, which \<open>Json_Parse\<close> shows not to happen.\<close>

definition parse_compiled_permissions_json ::
  "(string \<Rightarrow> f64 option) \<Rightarrow> (string \<Rightarrow> int option) \<Rightarrow> string \<Rightarrow> ((parse_error + permissions_error) + permissions_config) option" where
  "parse_compiled_permissions_json pf pb input =
     (case parse pf pb input of
        None \<Rightarrow> None
      | Some (Inl e) \<Rightarrow> Some (Inl (Inl e))
      | Some (Inr v) \<Rightarrow> Some (case parse_compiled_permissions v of Inl e \<Rightarrow> Inl (Inr e) | Inr c \<Rightarrow> Inr c))"

section \<open>Properties\<close>



definition owner_permissions :: table_permissions where
  "owner_permissions =
     [(''issue'', \<lparr>tp_row = Some \<lparr>ap_select = None, ap_insert = None,
        ap_update = \<lparr>pre_mutation = Some [Simple OpEq (VColumn ''owner'') (VLiteral (LitString ''ann''))], post_mutation = Some [And []]\<rparr>,
        ap_delete = None\<rparr>, tp_cell = None\<rparr>)]"

definition sample_update :: crud_op where
  "sample_update = CrudUpdate \<lparr>op_table = ''issue'', op_primary_key = [''id''], op_value = [(''id'', JString ''i1''), (''owner'', JString ''bob'')]\<rparr>"


end
