(* ===== verification/Spec2Isabelle.thy ===== *)
theory Spec2Isabelle
  imports Ivm_Take_Correct Ivm_Join Ivm_Fan Json_Parse Zql_Predicate Cvr_Desired Cvr_Rows Poke
    Lifecycle Limiter Query_Covering Auth_Write
begin

text \<open>
  \<^bold>\<open>A verification library for the Rust port of zero-cache.\<close>

  zero-cache keeps client-side views in sync with a Postgres database. Rows are replicated into
  SQLite, queries run as incremental view maintenance (IVM) pipelines over the replica
  (\<open>crates/zero-cache-zql\<close>, \<open>crates/zero-cache-sqlite\<close>), and a client view record (CVR) per client
  group (\<open>crates/zero-cache-view-syncer\<close>) decides which row and query patches each client is sent.
\<close>

end
